(* ===== verification/Prelude.thy ===== *)
theory Prelude
  imports Main "HOL-Library.Word" "HOL-Library.Multiset"
begin

text \<open>
  Shared vocabulary of the development. It fixes how the kernel's Rust is read:
  \<^item> fixed-width integers are words (\<open>u8\<close> to \<open>u64\<close>), so \<open>+\<close>, \<open>*\<close> and shifts wrap as the
    release build's wrapping operations do; \<open>usize\<close> quantities that count objects or index
    slices are \<open>nat\<close>, with the 64-bit bound written out wherever the code checks it
    (\<open>checked_add\<close>, \<open>checked_mul\<close>, \<open>saturating_sub\<close>);
  \<^item> \<open>Result<T, E>\<close> is \<open>'e + 'a\<close> with \<open>Err\<close> and \<open>Ok\<close> for its constructors, \<open>Option<T>\<close>
    is \<open>'a option\<close>;
  \<^item> an operation that mutates state returns the new state beside its result; where the
    code can panic (\<open>expect\<close>, \<open>assert!\<close>, slice indexing) the whole outcome is an option and
    \<open>None\<close> is the panic.
  The second half holds the generic lemmas on bit fields, lists and multisets that the
  component theories share.
\<close>

unbundle bit_operations_syntax

section \<open>Machine integers\<close>

type_synonym u8 = "8 word"
type_synonym u16 = "16 word"
type_synonym u32 = "32 word"
type_synonym u64 = "64 word"
type_synonym usize = nat

named_theorems bit_field \<open>field extraction from packed words\<close>
named_theorems checked \<open>checked and saturating machine arithmetic\<close>

definition usize_max :: nat where
  "usize_max = 2 ^ 64 - 1"

definition checked_add_usize :: "usize \<Rightarrow> usize \<Rightarrow> usize option" where
  "checked_add_usize a b = (if a + b \<le> usize_max then Some (a + b) else None)"

definition checked_sub_usize :: "usize \<Rightarrow> usize \<Rightarrow> usize option" where
  "checked_sub_usize a b = (if b \<le> a then Some (a - b) else None)"

definition checked_mul_usize :: "usize \<Rightarrow> usize \<Rightarrow> usize option" where
  "checked_mul_usize a b = (if a * b \<le> usize_max then Some (a * b) else None)"

definition checked_add_word :: "'a::len word \<Rightarrow> 'a word \<Rightarrow> 'a word option" where
  "checked_add_word a b = (if unat a + unat b < 2 ^ LENGTH('a) then Some (a + b) else None)"

definition checked_sub_word :: "'a::len word \<Rightarrow> 'a word \<Rightarrow> 'a word option" where
  "checked_sub_word a b = (if b \<le> a then Some (a - b) else None)"

definition u32_try_from :: "usize \<Rightarrow> u32 option" where
  "u32_try_from n = (if n < 2 ^ 32 then Some (word_of_nat n) else None)"

lemma checked_add_usize_Some [checked]:
  "checked_add_usize a b = Some c \<longleftrightarrow> c = a + b \<and> a + b \<le> usize_max"
  by (auto simp: checked_add_usize_def)

lemma checked_add_usize_None [checked]:
  "checked_add_usize a b = None \<longleftrightarrow> usize_max < a + b"
  by (auto simp: checked_add_usize_def)

lemma checked_sub_usize_Some [checked]:
  "checked_sub_usize a b = Some c \<longleftrightarrow> c = a - b \<and> b \<le> a"
  by (auto simp: checked_sub_usize_def)

lemma checked_sub_usize_None [checked]:
  "checked_sub_usize a b = None \<longleftrightarrow> a < b"
  by (auto simp: checked_sub_usize_def)

lemma checked_mul_usize_Some [checked]:
  "checked_mul_usize a b = Some c \<longleftrightarrow> c = a * b \<and> a * b \<le> usize_max"
  by (auto simp: checked_mul_usize_def)

lemma unat_less_two_power: "unat (x :: 'a::len word) < 2 ^ LENGTH('a)"
  using unsigned_less [of x] by simp

lemma u32_bound: "unat (x :: u32) < 2 ^ 32"
  using unat_less_two_power [of x] by simp

lemma u64_bound: "unat (x :: u64) < 2 ^ 64"
  using unat_less_two_power [of x] by simp

lemma u64_not_max:
  assumes "(x :: u64) \<noteq> - 1"
  shows "unat x + 1 < 2 ^ 64"
proof (rule ccontr)
  assume "\<not> unat x + 1 < 2 ^ 64"
  with u64_bound [of x] have "unat x = 18446744073709551615" by simp
  then have "x = word_of_nat 18446744073709551615" by (metis of_nat_unat ucast_id)
  also have "\<dots> = - 1" by simp
  finally show False using assms by simp
qed

lemma checked_add_word_Some [checked]:
  "checked_add_word a b = Some (c :: 'a::len word) \<longleftrightarrow> unat c = unat a + unat b"
proof
  assume "checked_add_word a b = Some c"
  then show "unat c = unat a + unat b"
    by (auto simp: checked_add_word_def unat_word_ariths split: if_splits)
next
  assume *: "unat c = unat a + unat b"
  then have "unat a + unat b < 2 ^ LENGTH('a)"
    using unat_less_two_power [of c] by simp
  moreover from this * have "c = a + b"
    by (metis unat_word_ariths(1) mod_less word_unat_eq_iff)
  ultimately show "checked_add_word a b = Some c"
    by (simp add: checked_add_word_def)
qed

lemma checked_add_word_None [checked]:
  "checked_add_word (a :: 'a::len word) b = None \<longleftrightarrow> 2 ^ LENGTH('a) \<le> unat a + unat b"
  by (auto simp: checked_add_word_def)

lemma checked_sub_word_Some [checked]:
  "checked_sub_word a b = Some (c :: 'a::len word) \<longleftrightarrow> unat a = unat c + unat b"
proof
  assume "checked_sub_word a b = Some c"
  then show "unat a = unat c + unat b"
    by (auto simp: checked_sub_word_def unat_sub word_le_nat_alt split: if_splits)
next
  assume *: "unat a = unat c + unat b"
  then have "b \<le> a" by (simp add: word_le_nat_alt)
  moreover from this * have "unat (a - b) = unat c" by (simp add: unat_sub)
  then have "a - b = c" by (simp add: word_unat_eq_iff)
  ultimately show "checked_sub_word a b = Some c" by (simp add: checked_sub_word_def)
qed

lemma checked_sub_word_None [checked]:
  "checked_sub_word (a :: 'a::len word) b = None \<longleftrightarrow> unat a < unat b"
  by (auto simp: checked_sub_word_def word_le_nat_alt)

lemma u32_try_from_Some [checked]:
  "u32_try_from n = Some w \<longleftrightarrow> unat w = n"
proof
  assume "u32_try_from n = Some w"
  then show "unat w = n"
    by (auto simp: u32_try_from_def unat_of_nat take_bit_nat_eq_self split: if_splits)
next
  assume *: "unat w = n"
  then have "n < 2 ^ 32" using unat_less_two_power [of w] by simp
  with * show "u32_try_from n = Some w" by (auto simp: u32_try_from_def)
qed

lemma u32_try_from_None [checked]: "u32_try_from n = None \<longleftrightarrow> 2 ^ 32 \<le> n"
  by (auto simp: u32_try_from_def)

section \<open>Results\<close>

abbreviation Ok :: "'a \<Rightarrow> 'e + 'a" where
  "Ok \<equiv> Inr"

abbreviation Err :: "'e \<Rightarrow> 'e + 'a" where
  "Err \<equiv> Inl"

fun and_then :: "'e + 'a \<Rightarrow> ('a \<Rightarrow> 'e + 'b) \<Rightarrow> 'e + 'b" where
  "and_then (Inl e) f = Inl e"
| "and_then (Inr x) f = f x"

fun ok_or :: "'a option \<Rightarrow> 'e \<Rightarrow> 'e + 'a" where
  "ok_or None e = Inl e"
| "ok_or (Some x) e = Inr x"

lemma and_then_Inr [simp]:
  "and_then r f = Inr y \<longleftrightarrow> (\<exists>x. r = Inr x \<and> f x = Inr y)"
  by (cases r) auto

lemma and_then_Inl [simp]:
  "and_then r f = Inl e \<longleftrightarrow> r = Inl e \<or> (\<exists>x. r = Inr x \<and> f x = Inl e)"
  by (cases r) auto

lemma ok_or_Inr [simp]: "ok_or m e = Inr x \<longleftrightarrow> m = Some x"
  by (cases m) auto

lemma ok_or_Inl [simp]: "ok_or m e = Inl e' \<longleftrightarrow> m = None \<and> e' = e"
  by (cases m) auto

text \<open>
  Total correctness of code that can panic: \<open>runs m Q\<close> says that \<open>m\<close> returns and that its result
  satisfies \<open>Q\<close>. The bind rule walks through a sequence of calls.
\<close>

definition runs :: "'a option \<Rightarrow> ('a \<Rightarrow> bool) \<Rightarrow> bool" where
  "runs m Q \<longleftrightarrow> (\<exists>x. m = Some x \<and> Q x)"

lemma runs_simps [simp]:
  "runs (Some x) Q \<longleftrightarrow> Q x" "\<not> runs None Q"
  "runs (Option.bind m f) Q \<longleftrightarrow> runs m (\<lambda>x. runs (f x) Q)"
  "runs (map_option g m) Q \<longleftrightarrow> runs m (\<lambda>x. Q (g x))"
  by (cases m; simp add: runs_def)+

lemma runs_mono: "runs m P \<Longrightarrow> (\<And>x. P x \<Longrightarrow> Q x) \<Longrightarrow> runs m Q"
  by (auto simp: runs_def)

lemma runs_bind: "runs m P \<Longrightarrow> (\<And>x. P x \<Longrightarrow> runs (f x) Q) \<Longrightarrow> runs (Option.bind m f) Q"
  by (auto simp: runs_def)

lemma runs_conj: "runs m P \<Longrightarrow> runs m Q \<Longrightarrow> runs m (\<lambda>x. P x \<and> Q x)"
  by (auto simp: runs_def)

lemma runs_not_None: "runs m Q \<Longrightarrow> m \<noteq> None"
  by (auto simp: runs_def)

lemma runsE: "runs m Q \<Longrightarrow> (\<And>x. m = Some x \<Longrightarrow> Q x \<Longrightarrow> thesis) \<Longrightarrow> thesis"
  by (auto simp: runs_def)

section \<open>Bit fields\<close>

text \<open>
  Two kernel encodings pack a pair of counters into one \<open>u64\<close> (capability identifiers and the
  heap ledger's cells). The lemmas read either field back from \<open>(hi << n) | lo\<close>.
\<close>

lemma packed_low:
  fixes x y :: "'a::len word"
  assumes "take_bit n y = y"
  shows "take_bit n (push_bit n x OR y) = y"
proof -
  have "take_bit n (push_bit n x OR y) = take_bit n (push_bit n x) OR take_bit n y"
    by (simp add: take_bit_or)
  then show ?thesis using assms by (simp add: take_bit_push_bit)
qed

lemma packed_high:
  fixes x y :: "'a::len word"
  assumes "take_bit n y = y"
  shows "drop_bit n (push_bit n x OR y) = take_bit (LENGTH('a) - n) x"
proof (rule bit_word_eqI)
  fix i assume "i < LENGTH('a)"
  have "\<not> bit y (n + i)"
  proof -
    have "\<not> bit (take_bit n y) (n + i)" by (simp add: bit_take_bit_iff)
    then show ?thesis using assms by simp
  qed
  then show "bit (drop_bit n (push_bit n x OR y)) i = bit (take_bit (LENGTH('a) - n) x) i"
    by (auto simp: bit_simps)
qed

lemma take_bit_ucast_word:
  "LENGTH('b) \<le> n \<Longrightarrow> take_bit n (ucast (x :: 'b::len word) :: 'a::len word) = ucast x"
  by (rule bit_word_eqI) (auto simp: bit_simps dest: bit_imp_le_length)

lemma ucast_up_down [simp]:
  "LENGTH('b) \<le> LENGTH('a) \<Longrightarrow> (ucast (ucast (x :: 'b::len word) :: 'a::len word) :: 'b word) = x"
  by (rule bit_word_eqI) (auto simp: bit_simps)

lemma and_FFFF: "(x :: u64) AND 0xFFFF = take_bit 16 x"
  by (simp add: take_bit_eq_mask mask_eq_exp_minus_1)

lemma and_48_ones: "(x :: u64) AND 0x0000FFFFFFFFFFFF = take_bit 48 x"
  by (simp add: take_bit_eq_mask mask_eq_exp_minus_1)

lemma and_32_ones: "(x :: u64) AND 0xFFFFFFFF = take_bit 32 x"
  by (simp add: take_bit_eq_mask mask_eq_exp_minus_1)

lemmas word_masks [bit_field] = and_FFFF and_48_ones and_32_ones

end
