(* ===== verification/CapTypes.thy ===== *)
theory CapTypes
  imports Prelude
begin

text \<open>
  Capability identifiers, rights, flags, objects and entries (\<^verbatim>\<open>kernel/cap/types.rs\<close>).
  A \<open>CapId\<close> packs a 48-bit generation above a 16-bit slot index. Rights and flags are
  \<open>bitflags\<close> types: their \<open>contains\<close>, \<open>&\<close> and \<open>|\<close> are the bitwise operations on the underlying
  word. Kernel objects behind an \<open>Arc\<close> are named by an address.
\<close>

section \<open>Identifiers\<close>

type_synonym cap_id = u64

definition INVALID :: cap_id where "INVALID = 0"

definition from_parts :: "u16 \<Rightarrow> u64 \<Rightarrow> cap_id" where
  "from_parts index generation = push_bit 16 (generation AND 0x0000FFFFFFFFFFFF) OR ucast index"

definition from_parts_u32 :: "u32 \<Rightarrow> u32 \<Rightarrow> cap_id" where
  "from_parts_u32 index generation = from_parts (ucast index) (ucast generation)"

definition cap_index :: "cap_id \<Rightarrow> u16" where
  "cap_index c = ucast (c AND 0xFFFF)"

definition cap_generation :: "cap_id \<Rightarrow> u64" where
  "cap_generation c = drop_bit 16 c"

definition cap_is_valid :: "cap_id \<Rightarrow> bool" where
  "cap_is_valid c \<longleftrightarrow> 0 < cap_generation c"

lemma cap_index_from_parts [simp]: "cap_index (from_parts i g) = i"
proof -
  have low: "take_bit 16 (ucast i :: u64) = ucast i" by (simp add: take_bit_ucast_word)
  show ?thesis
    unfolding cap_index_def from_parts_def and_FFFF packed_low [OF low] by simp
qed

lemma take_bit_48_id: "(g :: u64) < 2 ^ 48 \<Longrightarrow> take_bit 48 g = g"
  by (simp add: take_bit_eq_mod word_less_nat_alt word_unat_eq_iff unat_mod)

lemma cap_generation_from_parts:
  assumes "g < 2 ^ 48"
  shows "cap_generation (from_parts i g) = g"
proof -
  have low: "take_bit 16 (ucast i :: u64) = ucast i" by (simp add: take_bit_ucast_word)
  have "take_bit 48 (take_bit 48 g) = g" using take_bit_48_id [OF assms] by simp
  then show ?thesis
    unfolding cap_generation_def from_parts_def and_48_ones packed_high [OF low]
    by simp
qed

lemma from_parts_inverse: "from_parts (cap_index c) (cap_generation c) = c"
proof (rule bit_word_eqI)
  fix n assume "n < LENGTH(64)"
  then show "bit (from_parts (cap_index c) (cap_generation c)) n = bit c n"
    by (auto simp: from_parts_def cap_index_def cap_generation_def and_FFFF and_48_ones bit_simps)
qed

lemma cap_id_eqI: "cap_index c = cap_index d \<Longrightarrow> cap_generation c = cap_generation d \<Longrightarrow> c = d"
  by (metis from_parts_inverse)

lemma cap_generation_bound: "cap_generation c < 2 ^ 48"
  using u64_bound [of c]
  by (simp add: cap_generation_def word_less_nat_alt drop_bit_eq_div unat_div_distrib less_mult_imp_div_less)

section \<open>Rights and flags\<close>

type_synonym cap_rights = u64
type_synonym cap_flags = u32

definition rights_allow :: "cap_rights \<Rightarrow> cap_rights \<Rightarrow> bool" where
  "rights_allow r required \<longleftrightarrow> r AND required = required"

definition restrict_rights :: "cap_rights \<Rightarrow> cap_rights \<Rightarrow> cap_rights" where
  "restrict_rights r m = r AND m"

definition CLOEXEC :: cap_flags where "CLOEXEC = 1"
definition CLOFORK :: cap_flags where "CLOFORK = 2"
definition O_PATH :: cap_flags where "O_PATH = 4"
definition NOXFER :: cap_flags where "NOXFER = 8"

definition has_flag :: "cap_flags \<Rightarrow> cap_flags \<Rightarrow> bool" where
  "has_flag flags f \<longleftrightarrow> flags AND f = f"

definition READ_RIGHT :: cap_rights where "READ_RIGHT = 1"
definition WRITE_RIGHT :: cap_rights where "WRITE_RIGHT = 2"
definition RW_RIGHTS :: cap_rights where "RW_RIGHTS = READ_RIGHT OR WRITE_RIGHT"

lemma rights_allow_restrict:
  "rights_allow (restrict_rights r m) q \<longleftrightarrow> rights_allow r q \<and> rights_allow m q"
  by (auto simp: rights_allow_def restrict_rights_def bit_eq_iff bit_simps)

lemma has_flag_or: "has_flag a f \<or> has_flag b f \<Longrightarrow> has_flag (a OR b) f"
  by (auto simp: has_flag_def bit_eq_iff bit_simps)

section \<open>Objects and entries\<close>

datatype pipe_end_type = ReadEnd | WriteEnd

datatype cap_object =
    FileObject nat
  | EndpointObject u64
  | SocketCap (socket_id: u64) (net_ns_id: u64)
  | PipeCap (pipe_id: u64) (end_type: pipe_end_type)
  | RegularFileCap (inode_id: u64) (fs_id: u64)
  | ShmObject nat
  | TimerObject nat
  | ProcessObject nat
  | NamespaceObject u64

fun is_fd_backed :: "cap_object \<Rightarrow> bool" where
  "is_fd_backed (SocketCap _ _) = True"
| "is_fd_backed (PipeCap _ _) = True"
| "is_fd_backed (RegularFileCap _ _) = True"
| "is_fd_backed _ = False"

fun is_namespace :: "cap_object \<Rightarrow> bool" where
  "is_namespace (NamespaceObject _) = True"
| "is_namespace _ = False"

record cap_entry =
  object :: cap_object
  rights :: cap_rights
  cflags :: cap_flags
  refcount :: usize

definition cap_entry_new :: "cap_object \<Rightarrow> cap_rights \<Rightarrow> cap_entry" where
  "cap_entry_new obj r = \<lparr>object = obj, rights = r, cflags = 0, refcount = 1\<rparr>"

definition cap_entry_with_flags :: "cap_object \<Rightarrow> cap_rights \<Rightarrow> cap_flags \<Rightarrow> cap_entry" where
  "cap_entry_with_flags obj r f = \<lparr>object = obj, rights = r, cflags = f, refcount = 1\<rparr>"

text \<open>The counters as a release build runs them: an overflowing increment and a decrement at
  zero leave the count as it is.\<close>

definition entry_increment_refcount :: "cap_entry \<Rightarrow> cap_entry" where
  "entry_increment_refcount e =
     (case checked_add_usize (refcount e) 1 of None \<Rightarrow> e | Some n \<Rightarrow> e\<lparr>refcount := n\<rparr>)"

definition entry_decrement_refcount :: "cap_entry \<Rightarrow> cap_entry \<times> bool" where
  "entry_decrement_refcount e =
     (e\<lparr>refcount := (case checked_sub_usize (refcount e) 1 of None \<Rightarrow> 0 | Some n \<Rightarrow> n)\<rparr>,
      refcount e = 1)"

definition inherits_on_exec :: "cap_entry \<Rightarrow> bool" where
  "inherits_on_exec e \<longleftrightarrow> \<not> has_flag (cflags e) CLOEXEC"

definition inherits_on_fork :: "cap_entry \<Rightarrow> bool" where
  "inherits_on_fork e \<longleftrightarrow> \<not> has_flag (cflags e) CLOFORK"

definition entry_allows :: "cap_entry \<Rightarrow> cap_rights \<Rightarrow> bool" where
  "entry_allows e required \<longleftrightarrow> rights_allow (rights e) required"

datatype cap_error =
    InvalidCapId | InsufficientRights | TableFull | NoCurrentProcess | DelegationDenied
  | InvalidOperation | GenerationExhausted | OutOfMemory

text \<open>C34: an identifier determines its slot and generation and is determined by them. For every
  index and every 48-bit generation \<open>from_parts\<close> followed by the two extractors gives the parts
  back, every identifier is \<open>from_parts\<close> of its parts, and it is valid exactly when its
  generation is not zero.\<close>

theorem cap_id_roundtrip:
  "(\<forall>i g. g < 2 ^ 48 \<longrightarrow> cap_index (from_parts i g) = i \<and> cap_generation (from_parts i g) = g \<and>
      (cap_is_valid (from_parts i g) \<longleftrightarrow> g \<noteq> 0)) \<and>
   (\<forall>c. from_parts (cap_index c) (cap_generation c) = c \<and> cap_generation c < 2 ^ 48)"
  using cap_generation_bound
  by (auto simp: cap_generation_from_parts from_parts_inverse cap_is_valid_def word_gt_0)

theorem cap_id_roundtrip_witness:
  "(5 :: u64) < 2 ^ 48 \<and> cap_index (from_parts 7 5) = 7 \<and> cap_generation (from_parts 7 5) = 5"
  using cap_id_roundtrip by simp

end
