(* ===== verification/HeapCells.thy ===== *)
theory HeapCells
  imports Prelude
begin

text \<open>
  The counters of the whole-kernel heap admission layer
  (\<^verbatim>\<open>kernel/mm/heap_admission.rs\<close>, \<^verbatim>\<open>kernel/mm/heap_uid.rs\<close>): the class table, the packed
  \<open>(committed, reserved)\<close> cell with its five transitions, and the per-owner byte budget.
  Every cell transition of the code is a compare-and-swap loop that computes the next value
  from the value it read and retries when another CPU changed the cell in between; the model
  is the one iteration that succeeds, which is the whole effect of the loop.
\<close>

section \<open>Partition constants and classes\<close>

definition HEAP_SIZE :: usize where "HEAP_SIZE = 2 * 1024 * 1024"

definition EMERGENCY_HEAP_SIZE_BYTES :: usize where "EMERGENCY_HEAP_SIZE_BYTES = 64 * 1024"

definition NORMAL_HEAP_SIZE_BYTES :: usize where
  "NORMAL_HEAP_SIZE_BYTES = HEAP_SIZE - EMERGENCY_HEAP_SIZE_BYTES"

definition NORMAL_UNADMITTED_RESERVE_BYTES :: usize where
  "NORMAL_UNADMITTED_RESERVE_BYTES = 64 * 1024"

definition REGISTERED_FIXED_RESERVE_BYTES :: usize where
  "REGISTERED_FIXED_RESERVE_BYTES = 512 * 1024"

definition ADMITTED_HEAP_BYTES :: usize where
  "ADMITTED_HEAP_BYTES =
     NORMAL_HEAP_SIZE_BYTES - NORMAL_UNADMITTED_RESERVE_BYTES - REGISTERED_FIXED_RESERVE_BYTES"

datatype heap_class =
    CoreProcess | Capability | Scheduler | Cgroup | Procfs | BlockingIo | Exec | SocketObject
  | SocketPayload | RamFs | Pipe | Vfs | Device | FilesystemIo | Futex | NetnsConfig | Coverage

fun limit_bytes :: "heap_class \<Rightarrow> usize" where
  "limit_bytes CoreProcess = 512 * 1024"
| "limit_bytes Capability = 256 * 1024"
| "limit_bytes Scheduler = 256 * 1024"
| "limit_bytes Cgroup = 256 * 1024"
| "limit_bytes Procfs = 512 * 1024"
| "limit_bytes BlockingIo = 1024 * 1024 + 32 * 1024"
| "limit_bytes Exec = 1024 * 1024"
| "limit_bytes SocketObject = 256 * 1024"
| "limit_bytes SocketPayload = 1024 * 1024"
| "limit_bytes RamFs = 512 * 1024"
| "limit_bytes Pipe = 1024 * 1024 + 16 * 1024"
| "limit_bytes Vfs = 512 * 1024"
| "limit_bytes Device = 256 * 1024"
| "limit_bytes FilesystemIo = 352 * 1024"
| "limit_bytes Futex = 128 * 1024"
| "limit_bytes NetnsConfig = 512 * 1024"
| "limit_bytes Coverage = 256 * 1024"

datatype heap_admission_error =
    NotPublished | ArithmeticOverflow | GlobalLimit | ClassLimit | OwnerLimit | OwnerClassLimit
  | BlockingIoOwnerLimit | UidLimit | UidClassLimit | BlockingIoUidLimit | UidDomainLimit
  | AllocationFailed | CorruptState

lemmas heap_partition_defs =
  HEAP_SIZE_def EMERGENCY_HEAP_SIZE_BYTES_def NORMAL_HEAP_SIZE_BYTES_def
  NORMAL_UNADMITTED_RESERVE_BYTES_def REGISTERED_FIXED_RESERVE_BYTES_def ADMITTED_HEAP_BYTES_def

lemma ADMITTED_HEAP_BYTES_value: "ADMITTED_HEAP_BYTES = 1441792"
  by (simp add: heap_partition_defs)

lemma limit_bytes_bound: "limit_bytes c \<le> ADMITTED_HEAP_BYTES"
  by (cases c) (simp_all add: ADMITTED_HEAP_BYTES_value)

section \<open>The packed cell\<close>

definition pack :: "u32 \<Rightarrow> u32 \<Rightarrow> u64" where
  "pack committed reserved = push_bit 32 (ucast committed) OR ucast reserved"

definition unpack :: "u64 \<Rightarrow> u32 \<times> u32" where
  "unpack state = (ucast (drop_bit 32 state), ucast (state AND 0xFFFFFFFF))"

definition add_reserved :: "u64 \<Rightarrow> usize \<Rightarrow> usize \<Rightarrow> heap_admission_error + u64" where
  "add_reserved cell bytes limit =
     (case u32_try_from bytes of
        None \<Rightarrow> Err ArithmeticOverflow
      | Some b \<Rightarrow>
          (let (committed, reserved) = unpack cell in
           case checked_add_word reserved b of
             None \<Rightarrow> Err ArithmeticOverflow
           | Some next_reserved \<Rightarrow>
               (case checked_add_usize (unat committed) (unat next_reserved) of
                  None \<Rightarrow> Err ArithmeticOverflow
                | Some tot \<Rightarrow>
                    if limit < tot then Err GlobalLimit
                    else Ok (pack committed next_reserved))))"

definition subtract_reserved :: "u64 \<Rightarrow> usize \<Rightarrow> heap_admission_error + u64" where
  "subtract_reserved cell bytes =
     (case u32_try_from bytes of
        None \<Rightarrow> Err ArithmeticOverflow
      | Some b \<Rightarrow>
          (let (committed, reserved) = unpack cell in
           case checked_sub_word reserved b of
             None \<Rightarrow> Err CorruptState
           | Some next_reserved \<Rightarrow> Ok (pack committed next_reserved)))"

definition commit_reserved :: "u64 \<Rightarrow> usize \<Rightarrow> heap_admission_error + u64" where
  "commit_reserved cell bytes =
     (case u32_try_from bytes of
        None \<Rightarrow> Err ArithmeticOverflow
      | Some b \<Rightarrow>
          (let (committed, reserved) = unpack cell in
           case checked_sub_word reserved b of
             None \<Rightarrow> Err CorruptState
           | Some next_reserved \<Rightarrow>
               (case checked_add_word committed b of
                  None \<Rightarrow> Err ArithmeticOverflow
                | Some next_committed \<Rightarrow> Ok (pack next_committed next_reserved))))"

definition rollback_commit :: "u64 \<Rightarrow> usize \<Rightarrow> heap_admission_error + u64" where
  "rollback_commit cell bytes =
     (case u32_try_from bytes of
        None \<Rightarrow> Err ArithmeticOverflow
      | Some b \<Rightarrow>
          (let (committed, reserved) = unpack cell in
           case checked_sub_word committed b of
             None \<Rightarrow> Err CorruptState
           | Some next_committed \<Rightarrow>
               (case checked_add_word reserved b of
                  None \<Rightarrow> Err ArithmeticOverflow
                | Some next_reserved \<Rightarrow> Ok (pack next_committed next_reserved))))"

definition subtract_committed :: "u64 \<Rightarrow> usize \<Rightarrow> heap_admission_error + u64" where
  "subtract_committed cell bytes =
     (case u32_try_from bytes of
        None \<Rightarrow> Err ArithmeticOverflow
      | Some b \<Rightarrow>
          (let (committed, reserved) = unpack cell in
           case checked_sub_word committed b of
             None \<Rightarrow> Err CorruptState
           | Some next_committed \<Rightarrow> Ok (pack next_committed reserved)))"

text \<open>The two fields of a cell as numbers.\<close>

definition committed_of :: "u64 \<Rightarrow> nat" where
  "committed_of cell = unat (fst (unpack cell))"

definition reserved_of :: "u64 \<Rightarrow> nat" where
  "reserved_of cell = unat (snd (unpack cell))"

lemma unpack_pack [simp]: "unpack (pack c r) = (c, r)"
proof -
  have low: "take_bit 32 (ucast r :: u64) = ucast r"
    by (simp add: take_bit_ucast_word)
  have "drop_bit 32 (pack c r) = ucast c"
    unfolding pack_def packed_high [OF low] by (simp add: take_bit_ucast_word)
  then have "ucast (drop_bit 32 (pack c r)) = c" by simp
  moreover have "ucast (pack c r AND 0xFFFFFFFF) = r"
    unfolding and_32_ones pack_def packed_low [OF low] by simp
  ultimately show ?thesis by (simp add: unpack_def)
qed

lemma pack_unpack: "pack (fst (unpack s)) (snd (unpack s)) = s"
proof (rule bit_word_eqI)
  fix i assume "i < LENGTH(64)"
  then show "bit (pack (fst (unpack s)) (snd (unpack s))) i = bit s i"
    by (auto simp: pack_def unpack_def and_32_ones bit_simps)
qed

lemma cell_fields [simp]:
  "committed_of (pack c r) = unat c" "reserved_of (pack c r) = unat r"
  by (simp_all add: committed_of_def reserved_of_def)

lemma committed_of_bound: "committed_of s < 2 ^ 32"
  using unat_less_two_power [of "fst (unpack s)"] by (simp add: committed_of_def)

lemma reserved_of_bound: "reserved_of s < 2 ^ 32"
  using unat_less_two_power [of "snd (unpack s)"] by (simp add: reserved_of_def)

lemma cell_zero [simp]: "committed_of 0 = 0" "reserved_of 0 = 0"
  by (simp_all add: committed_of_def reserved_of_def unpack_def)

lemma cell_eqI:
  "committed_of s = committed_of t \<Longrightarrow> reserved_of s = reserved_of t \<Longrightarrow> s = t"
  by (metis committed_of_def reserved_of_def pack_unpack word_unat_eq_iff)



lemma cell_cases:
  obtains c r where "s = pack c r"
  by (metis pack_unpack)

lemma pack_inject [simp]: "pack c r = pack c' r' \<longleftrightarrow> c = c' \<and> r = r'"
  by (metis prod.inject unpack_pack)

lemmas cell_op_defs =
  add_reserved_def subtract_reserved_def commit_reserved_def rollback_commit_def
  subtract_committed_def

lemma u32_eq_iff: "(a :: u32) = b \<longleftrightarrow> unat a = unat b"
  by (fact word_unat_eq_iff)

lemma add_reserved_Ok:
  "add_reserved s b lim = Ok t \<longleftrightarrow>
     committed_of s + reserved_of s + b \<le> lim \<and>
     committed_of t = committed_of s \<and> reserved_of t = reserved_of s + b"
proof -
  obtain c r where s: "s = pack c r" by (rule cell_cases)
  obtain c' r' where t: "t = pack c' r'" by (rule cell_cases)
  have bounds: "unat c < 2 ^ 32" "unat r < 2 ^ 32" "unat c' < 2 ^ 32" "unat r' < 2 ^ 32"
    by (fact u32_bound)+
  show ?thesis
    unfolding s t using bounds
    by (auto simp: add_reserved_def checked u32_eq_iff usize_max_def
        split: option.splits)
qed

lemma subtract_reserved_Ok:
  "subtract_reserved s b = Ok t \<longleftrightarrow>
     committed_of t = committed_of s \<and> reserved_of s = reserved_of t + b"
proof -
  obtain c r where s: "s = pack c r" by (rule cell_cases)
  obtain c' r' where t: "t = pack c' r'" by (rule cell_cases)
  from u32_bound [of r] show ?thesis
    unfolding s t
    by (auto simp: subtract_reserved_def checked u32_eq_iff split: option.splits)
qed


lemma commit_reserved_Ok:
  "commit_reserved s b = Ok t \<longleftrightarrow>
     committed_of t = committed_of s + b \<and> reserved_of s = reserved_of t + b"
proof -
  obtain c r where s: "s = pack c r" by (rule cell_cases)
  obtain c' r' where t: "t = pack c' r'" by (rule cell_cases)
  from u32_bound [of r] u32_bound [of c'] show ?thesis
    unfolding s t
    by (auto simp: commit_reserved_def checked u32_eq_iff split: option.splits)
qed

lemma rollback_commit_Ok:
  "rollback_commit s b = Ok t \<longleftrightarrow>
     committed_of s = committed_of t + b \<and> reserved_of t = reserved_of s + b"
proof -
  obtain c r where s: "s = pack c r" by (rule cell_cases)
  obtain c' r' where t: "t = pack c' r'" by (rule cell_cases)
  from u32_bound [of c] u32_bound [of r'] show ?thesis
    unfolding s t
    by (auto simp: rollback_commit_def checked u32_eq_iff split: option.splits)
qed

lemma subtract_committed_Ok:
  "subtract_committed s b = Ok t \<longleftrightarrow>
     committed_of s = committed_of t + b \<and> reserved_of t = reserved_of s"
proof -
  obtain c r where s: "s = pack c r" by (rule cell_cases)
  obtain c' r' where t: "t = pack c' r'" by (rule cell_cases)
  from u32_bound [of c] show ?thesis
    unfolding s t
    by (auto simp: subtract_committed_def checked u32_eq_iff split: option.splits)
qed

lemmas cell_Ok =
  add_reserved_Ok subtract_reserved_Ok commit_reserved_Ok rollback_commit_Ok
  subtract_committed_Ok

text \<open>Totality: a transition whose arithmetic fits succeeds.\<close>

lemma cell_exists:
  assumes "c < 2 ^ 32" "r < 2 ^ 32"
  obtains t where "committed_of t = c" "reserved_of t = r"
proof
  show "committed_of (pack (word_of_nat c) (word_of_nat r)) = c"
    and "reserved_of (pack (word_of_nat c) (word_of_nat r)) = r"
    using assms by (simp_all add: unat_of_nat take_bit_nat_eq_self)
qed

lemma subtract_reserved_succeeds:
  assumes "b \<le> reserved_of s"
  shows "\<exists>t. subtract_reserved s b = Ok t"
proof -
  have "reserved_of s - b < 2 ^ 32" using reserved_of_bound [of s] by simp
  then obtain t where "committed_of t = committed_of s" "reserved_of t = reserved_of s - b"
    using cell_exists [OF committed_of_bound [of s]] by blast
  with assms show ?thesis by (auto simp: subtract_reserved_Ok)
qed

lemma subtract_committed_succeeds:
  assumes "b \<le> committed_of s"
  shows "\<exists>t. subtract_committed s b = Ok t"
proof -
  have "committed_of s - b < 2 ^ 32" using committed_of_bound [of s] by simp
  then obtain t where "committed_of t = committed_of s - b" "reserved_of t = reserved_of s"
    using cell_exists [OF _ reserved_of_bound [of s]] by blast
  with assms show ?thesis by (intro exI [of _ t]) (simp add: subtract_committed_Ok)
qed

lemma commit_reserved_succeeds:
  assumes "b \<le> reserved_of s" and "committed_of s + b < 2 ^ 32"
  shows "\<exists>t. commit_reserved s b = Ok t"
proof -
  have "reserved_of s - b < 2 ^ 32" using reserved_of_bound [of s] by simp
  then obtain t where "committed_of t = committed_of s + b" "reserved_of t = reserved_of s - b"
    using cell_exists [OF assms(2)] by blast
  with assms show ?thesis by (auto simp: commit_reserved_Ok)
qed

lemma add_reserved_succeeds:
  assumes "committed_of s + reserved_of s + b \<le> lim" and "lim < 2 ^ 32"
  shows "\<exists>t. add_reserved s b lim = Ok t"
proof -
  have "reserved_of s + b < 2 ^ 32" using assms by linarith
  then obtain t where "committed_of t = committed_of s" "reserved_of t = reserved_of s + b"
    using cell_exists [OF committed_of_bound [of s]] by blast
  with assms show ?thesis by (auto simp: add_reserved_Ok)
qed

lemma add_reserved_Err:
  "add_reserved s b lim = Err e \<Longrightarrow> e = GlobalLimit \<or> e = ArithmeticOverflow"
  by (auto simp: add_reserved_def split: option.splits prod.splits if_splits)

section \<open>Byte budgets\<close>

text \<open>
  \<open>NsByteBudget\<close> is the ceiling layered under a class: used bytes, a rejection counter kept for
  observability and a closed flag. \<open>release\<close> subtracts first and then asserts that the old value
  covered the bytes; the assertion failing is a kernel panic (\<open>None\<close>).
\<close>

datatype ns_budget_error = Closed | QuotaExceeded | BudgetArithmeticOverflow

record ns_byte_budget =
  budget_limit :: usize
  used_bytes :: u64
  rejected :: u64
  closed :: bool

definition ns_byte_budget_new :: "usize \<Rightarrow> ns_byte_budget" where
  "ns_byte_budget_new limit = \<lparr>budget_limit = limit, used_bytes = 0, rejected = 0, closed = False\<rparr>"

definition try_charge :: "ns_byte_budget \<Rightarrow> usize \<Rightarrow> ns_byte_budget \<times> (ns_budget_error + unit)" where
  "try_charge n bytes =
     (if closed n then (n\<lparr>rejected := rejected n + 1\<rparr>, Err Closed)
      else if bytes = 0 then (n, Ok ())
      else (case checked_add_word (used_bytes n) (word_of_nat bytes) of
              None \<Rightarrow> (n\<lparr>rejected := rejected n + 1\<rparr>, Err BudgetArithmeticOverflow)
            | Some nxt \<Rightarrow>
                if (word_of_nat (budget_limit n) :: u64) < nxt
                then (n\<lparr>rejected := rejected n + 1\<rparr>, Err QuotaExceeded)
                else (n\<lparr>used_bytes := nxt\<rparr>, Ok ())))"

definition budget_release :: "ns_byte_budget \<Rightarrow> usize \<Rightarrow> ns_byte_budget option" where
  "budget_release n bytes =
     (if bytes = 0 then Some n
      else if (word_of_nat bytes :: u64) \<le> used_bytes n
      then Some (n\<lparr>used_bytes := used_bytes n - word_of_nat bytes\<rparr>)
      else None)"

definition budget_close :: "ns_byte_budget \<Rightarrow> ns_byte_budget" where
  "budget_close n = n\<lparr>closed := True\<rparr>"

definition used_of :: "ns_byte_budget \<Rightarrow> nat" where
  "used_of n = unat (used_bytes n)"

text \<open>
  Byte counts and limits are \<open>usize\<close> values, so the casts to \<open>u64\<close> are exact; the lemmas carry
  that range as a hypothesis.
\<close>

lemma unat_word_of_usize: "n \<le> usize_max \<Longrightarrow> unat (word_of_nat n :: u64) = n"
  by (simp add: usize_max_def unat_of_nat take_bit_nat_eq_self)

lemma try_charge_Ok:
  assumes "try_charge n b = (n', Ok u)" and "b \<le> usize_max" and "budget_limit n \<le> usize_max"
  shows "used_of n' = used_of n + b" and "b = 0 \<or> used_of n' \<le> budget_limit n"
    and "budget_limit n' = budget_limit n" and "closed n' = closed n"
  using assms
  by (auto simp: try_charge_def used_of_def checked word_less_nat_alt unat_word_of_usize
      split: if_splits option.splits)

lemma try_charge_Err:
  assumes "try_charge n b = (n', Err e)"
  shows "n' = n\<lparr>rejected := rejected n + 1\<rparr>"
  using assms by (auto simp: try_charge_def split: if_splits option.splits)

lemma try_charge_succeeds:
  assumes "\<not> closed n" and "used_of n + b \<le> budget_limit n" and "budget_limit n \<le> usize_max"
  shows "\<exists>n'. try_charge n b = (n', Ok ())"
proof -
  have b: "b \<le> usize_max" using assms by simp
  have "used_of n + b < 2 ^ 64" using assms by (simp add: usize_max_def)
  then obtain w where w: "checked_add_word (used_bytes n) (word_of_nat b) = Some w"
    using b by (cases "checked_add_word (used_bytes n) (word_of_nat b :: u64)")
      (auto simp: checked used_of_def unat_word_of_usize)
  moreover from w have "\<not> (word_of_nat (budget_limit n) :: u64) < w"
    using assms b by (simp add: checked word_less_nat_alt used_of_def unat_word_of_usize)
  ultimately show ?thesis using assms(1) by (auto simp: try_charge_def)
qed

lemma budget_release_Some:
  assumes "b \<le> used_of n"
  shows "\<exists>n'. budget_release n b = Some n' \<and> used_of n = used_of n' + b \<and>
           budget_limit n' = budget_limit n \<and> closed n' = closed n"
proof -
  have "b < 2 ^ 64" using assms u64_bound [of "used_bytes n"] by (simp add: used_of_def)
  then have b: "unat (word_of_nat b :: u64) = b"
    by (simp add: unat_of_nat take_bit_nat_eq_self)
  show ?thesis
    using assms b by (auto simp: budget_release_def used_of_def word_le_nat_alt unat_sub)
qed

lemma budget_release_charge:
  assumes "try_charge n b = (n', Ok u)" and "b \<le> usize_max"
  shows "budget_release n' b = Some n"
  using assms
  by (auto simp: try_charge_def budget_release_def checked word_le_nat_alt unat_word_of_usize
      word_unat_eq_iff unat_sub split: if_splits option.splits)

text \<open>A closed budget admits nothing new, not even a zero-byte lease, and keeps its usage.\<close>

lemma try_charge_closed:
  "\<exists>e. snd (try_charge (budget_close n) b) = Err e"
  by (simp add: try_charge_def budget_close_def)

end
