(* ===== verification/HeapDomains.thy ===== *)
theory HeapDomains
  imports HeapCells
begin

text \<open>
  The two ceilings below the global ledger: the thread-group owner
  (\<open>HeapOwner::reserve\<close>, \<^verbatim>\<open>heap_admission.rs\<close>) and the host-UID aggregate
  (\<open>UidLease::reserve\<close>, \<^verbatim>\<open>heap_uid.rs\<close>). Both are the same four counters, a total, a non-exec
  total, one cell per class and a blocking-I/O total, charged in the same order with the same
  rollback on every rejection; \<open>domain_reserve\<close> is that shared body with the limits and the
  error names as arguments, and \<open>owner_local_reserve\<close> and \<open>uid_reserve\<close> are its two
  instances. The lemmas are stated over the numbers the counters stand for (\<open>domain_ok\<close>).
\<close>

record budget_domain =
  total_budget :: ns_byte_budget
  non_exec :: ns_byte_budget
  blocking_io :: ns_byte_budget
  classes :: "heap_class \<Rightarrow> u64"

definition EXEC_TRANSACTION_PEAK_BYTES :: usize where
  "EXEC_TRANSACTION_PEAK_BYTES = 1024 * 1024"

definition OWNER_NON_EXEC_BYTES :: usize where "OWNER_NON_EXEC_BYTES = 512 * 1024"

definition OWNER_HEAP_BYTES :: usize where
  "OWNER_HEAP_BYTES = EXEC_TRANSACTION_PEAK_BYTES + 128 * 1024"

definition OWNER_BLOCKING_IO_BYTES :: usize where "OWNER_BLOCKING_IO_BYTES = 128 * 1024"

definition UID_NON_EXEC_BYTES :: usize where "UID_NON_EXEC_BYTES = 768 * 1024"

definition UID_HEAP_BYTES :: usize where "UID_HEAP_BYTES = OWNER_HEAP_BYTES + 128 * 1024"

definition UID_BLOCKING_IO_BYTES :: usize where "UID_BLOCKING_IO_BYTES = 256 * 1024"

definition MAX_UID_DOMAINS :: usize where "MAX_UID_DOMAINS = 64"

definition owner_budget_new :: budget_domain where
  "owner_budget_new =
     \<lparr>total_budget = ns_byte_budget_new OWNER_HEAP_BYTES,
      non_exec = ns_byte_budget_new OWNER_NON_EXEC_BYTES,
      blocking_io = ns_byte_budget_new OWNER_BLOCKING_IO_BYTES,
      classes = (\<lambda>_. 0)\<rparr>"

definition uid_budget_new :: budget_domain where
  "uid_budget_new =
     \<lparr>total_budget = ns_byte_budget_new UID_HEAP_BYTES,
      non_exec = ns_byte_budget_new UID_NON_EXEC_BYTES,
      blocking_io = ns_byte_budget_new UID_BLOCKING_IO_BYTES,
      classes = (\<lambda>_. 0)\<rparr>"

definition domain_release_total :: "budget_domain \<Rightarrow> heap_class \<Rightarrow> usize \<Rightarrow> budget_domain option" where
  "domain_release_total d class bytes =
     (case (if class \<noteq> Exec then budget_release (non_exec d) bytes else Some (non_exec d)) of
        None \<Rightarrow> None
      | Some m \<Rightarrow>
          (case budget_release (total_budget d) bytes of
             None \<Rightarrow> None
           | Some n \<Rightarrow> Some (d\<lparr>non_exec := m, total_budget := n\<rparr>)))"

definition domain_release :: "budget_domain \<Rightarrow> heap_class \<Rightarrow> usize \<Rightarrow> budget_domain option" where
  "domain_release d class bytes =
     (case (if class = BlockingIo then budget_release (blocking_io d) bytes
            else Some (blocking_io d)) of
        None \<Rightarrow> None
      | Some q \<Rightarrow>
          (case subtract_reserved (classes d class) bytes of
             Inl _ \<Rightarrow> None
           | Inr k \<Rightarrow>
               domain_release_total
                 (d\<lparr>blocking_io := q, classes := (classes d)(class := k)\<rparr>) class bytes))"

definition domain_reserve ::
  "budget_domain \<Rightarrow> heap_class \<Rightarrow> usize \<Rightarrow> usize \<Rightarrow>
   heap_admission_error \<Rightarrow> heap_admission_error \<Rightarrow> heap_admission_error \<Rightarrow>
   (budget_domain \<times> (heap_admission_error + unit)) option" where
  "domain_reserve d class bytes class_limit total_err class_err io_err =
     (case try_charge (total_budget d) bytes of
        (n, Inl _) \<Rightarrow> Some (d\<lparr>total_budget := n\<rparr>, Err total_err)
      | (n, Inr _) \<Rightarrow>
          (let d1 = d\<lparr>total_budget := n\<rparr> in
           case (if class \<noteq> Exec then try_charge (non_exec d1) bytes
                 else (non_exec d1, Ok ())) of
             (m, Inl _) \<Rightarrow>
               map_option (\<lambda>n'. (d1\<lparr>non_exec := m, total_budget := n'\<rparr>, Err total_err))
                 (budget_release (total_budget d1) bytes)
           | (m, Inr _) \<Rightarrow>
               (let d2 = d1\<lparr>non_exec := m\<rparr> in
                case add_reserved (classes d2 class) bytes class_limit of
                  Inl _ \<Rightarrow>
                    map_option (\<lambda>d'. (d', Err class_err)) (domain_release_total d2 class bytes)
                | Inr k \<Rightarrow>
                    (let d3 = d2\<lparr>classes := (classes d2)(class := k)\<rparr> in
                     case (if class = BlockingIo then try_charge (blocking_io d3) bytes
                           else (blocking_io d3, Ok ())) of
                       (q, Inr _) \<Rightarrow> Some (d3\<lparr>blocking_io := q\<rparr>, Ok ())
                     | (q, Inl _) \<Rightarrow>
                         (let d4 = d3\<lparr>blocking_io := q\<rparr> in
                          case subtract_reserved (classes d4 class) bytes of
                            Inl _ \<Rightarrow> None
                          | Inr k' \<Rightarrow>
                              map_option (\<lambda>d'. (d', Err io_err))
                                (domain_release_total
                                   (d4\<lparr>classes := (classes d4)(class := k')\<rparr>) class bytes))))))"

definition owner_local_reserve ::
  "budget_domain \<Rightarrow> heap_class \<Rightarrow> usize \<Rightarrow> (budget_domain \<times> (heap_admission_error + unit)) option" where
  "owner_local_reserve d class bytes =
     domain_reserve d class bytes
       (if class = Exec then limit_bytes class else limit_bytes class div 4 * 3)
       OwnerLimit OwnerClassLimit BlockingIoOwnerLimit"

definition uid_reserve ::
  "budget_domain \<Rightarrow> heap_class \<Rightarrow> usize \<Rightarrow> (budget_domain \<times> (heap_admission_error + unit)) option" where
  "uid_reserve d class bytes =
     domain_reserve d class bytes
       (if class = Exec then limit_bytes class else limit_bytes class div 8 * 7)
       UidLimit UidClassLimit BlockingIoUidLimit"

section \<open>What the counters stand for\<close>

definition budget_ok :: "ns_byte_budget \<Rightarrow> nat \<Rightarrow> bool" where
  "budget_ok n used \<longleftrightarrow>
     used_of n = used \<and> used \<le> budget_limit n \<and> budget_limit n \<le> usize_max \<and> \<not> closed n"

definition domain_ok ::
  "budget_domain \<Rightarrow> nat \<Rightarrow> nat \<Rightarrow> nat \<Rightarrow> (heap_class \<Rightarrow> nat) \<Rightarrow> bool" where
  "domain_ok d tot nonexec io cls \<longleftrightarrow>
     budget_ok (total_budget d) tot \<and> budget_ok (non_exec d) nonexec \<and>
     budget_ok (blocking_io d) io \<and>
     (\<forall>c. committed_of (classes d c) = 0 \<and> reserved_of (classes d c) = cls c)"

lemma budget_ok_charge_Ok:
  assumes "try_charge n b = (n', Ok u)" "budget_ok n a" "b \<le> usize_max"
  shows "budget_ok n' (a + b)"
  using try_charge_Ok [OF assms(1,3)] assms(2) by (auto simp: budget_ok_def)

lemma budget_ok_charge_Err:
  assumes "try_charge n b = (n', Err e)" "budget_ok n a"
  shows "budget_ok n' a"
  using try_charge_Err [OF assms(1)] assms(2) by (auto simp: budget_ok_def used_of_def)

lemma budget_ok_release:
  assumes "budget_ok n a" "b \<le> a"
  obtains n' where "budget_release n b = Some n'" "budget_ok n' (a - b)"
  using budget_release_Some [of b n] assms by (fastforce simp: budget_ok_def)

lemma domain_release_total_ok:
  assumes "domain_ok d a n q f" "b \<le> a" "c \<noteq> Exec \<Longrightarrow> b \<le> n"
  obtains d' where "domain_release_total d c b = Some d'"
    "domain_ok d' (a - b) (if c = Exec then n else n - b) q f"
proof -
  have ok: "budget_ok (total_budget d) a" "budget_ok (non_exec d) n"
    using assms(1) by (auto simp: domain_ok_def)
  obtain n' where n': "budget_release (total_budget d) b = Some n'" "budget_ok n' (a - b)"
    using budget_ok_release [OF ok(1) assms(2)] .
  show ?thesis
  proof (cases "c = Exec")
    case True
    with n' assms(1) show ?thesis
      by (intro that [of "d\<lparr>non_exec := non_exec d, total_budget := n'\<rparr>"])
        (simp_all add: domain_release_total_def domain_ok_def)
  next
    case False
    obtain m where "budget_release (non_exec d) b = Some m" "budget_ok m (n - b)"
      using budget_ok_release [OF ok(2) assms(3) [OF False]] .
    with n' False assms(1) show ?thesis
      by (intro that [of "d\<lparr>non_exec := m, total_budget := n'\<rparr>"])
        (simp_all add: domain_release_total_def domain_ok_def)
  qed
qed

lemma domain_release_total_undo:
  assumes "domain_ok d (a + b) (if c = Exec then n else n + b) q f"
  obtains d' where "domain_release_total d c b = Some d'" "domain_ok d' a n q f"
  by (rule domain_release_total_ok [OF assms, where b = b and c = c])
    (auto intro: that split: if_splits)

lemma domain_release_ok:
  assumes ok: "domain_ok d a n q f"
    and le: "b \<le> a" "c \<noteq> Exec \<Longrightarrow> b \<le> n" "c = BlockingIo \<Longrightarrow> b \<le> q" "b \<le> f c"
  obtains d' where "domain_release d c b = Some d'"
    "domain_ok d' (a - b) (if c = Exec then n else n - b)
       (if c = BlockingIo then q - b else q) (f(c := f c - b))"
proof -
  obtain k where k: "subtract_reserved (classes d c) b = Ok k"
    using subtract_reserved_succeeds [of b "classes d c"] ok le(4) by (auto simp: domain_ok_def)
  have k': "committed_of k = 0" "reserved_of k = f c - b"
    using k ok by (auto simp: subtract_reserved_Ok domain_ok_def)
  obtain q' where q': "(if c = BlockingIo then budget_release (blocking_io d) b
      else Some (blocking_io d)) = Some q'"
    "budget_ok q' (if c = BlockingIo then q - b else q)"
  proof (cases "c = BlockingIo")
    case True
    then show ?thesis
      using budget_ok_release [of "blocking_io d" q b] ok le(3) that by (auto simp: domain_ok_def)
  next
    case False
    then show ?thesis using ok that by (auto simp: domain_ok_def)
  qed
  let ?d = "d\<lparr>blocking_io := q', classes := (classes d)(c := k)\<rparr>"
  have "domain_ok ?d a n (if c = BlockingIo then q - b else q) (f(c := f c - b))"
    using ok k' q'(2) by (auto simp: domain_ok_def)
  from domain_release_total_ok [OF this le(1,2)] obtain d'
    where "domain_release_total ?d c b = Some d'"
      "domain_ok d' (a - b) (if c = Exec then n else n - b)
         (if c = BlockingIo then q - b else q) (f(c := f c - b))" .
  with k q'(1) show ?thesis by (intro that [of d']) (simp_all add: domain_release_def)
qed

text \<open>
  A reservation either charges all the counters it should, or leaves every one of them at the
  value it had: no rejection path leaks a partial charge, and none of the rollbacks can hit
  its assertion.
\<close>

lemma domain_reserve_ok:
  assumes ok: "domain_ok d a n q f" and b: "b \<le> usize_max"
  obtains (Ok) d' where "domain_reserve d c b lim e1 e2 e3 = Some (d', Ok ())"
      "domain_ok d' (a + b) (if c = Exec then n else n + b)
         (if c = BlockingIo then q + b else q) (f(c := f c + b))"
      "f c + b \<le> lim"
    | (Err) d' e where "domain_reserve d c b lim e1 e2 e3 = Some (d', Err e)"
      "domain_ok d' a n q f" "e \<in> {e1, e2, e3}"
proof -
  note [simp] = domain_reserve_def Let_def
  have oks: "budget_ok (total_budget d) a" "budget_ok (non_exec d) n" "budget_ok (blocking_io d) q"
    using ok by (auto simp: domain_ok_def)
  obtain t r1 where t: "try_charge (total_budget d) b = (t, r1)" by fastforce
  show ?thesis
  proof (cases r1)
    case (Inl e)
    with budget_ok_charge_Err [of "total_budget d" b t e a] oks t ok show ?thesis
      by (intro Err [of "d\<lparr>total_budget := t\<rparr>" e1]) (auto simp: domain_ok_def)
  next
    case r1: (Inr u)
    let ?d1 = "d\<lparr>total_budget := t\<rparr>"
    have t_ok: "budget_ok t (a + b)" using budget_ok_charge_Ok [of _ b t u a] t r1 oks b by simp
    let ?n = "if c = Exec then n else n + b"
    obtain m r2 where m: "(if c \<noteq> Exec then try_charge (non_exec d) b else (non_exec d, Inr ())) = (m, r2)"
      by fastforce
    show ?thesis
    proof (cases r2)
      case (Inl e)
      with m have "c \<noteq> Exec" "try_charge (non_exec d) b = (m, Inl e)" by (auto split: if_splits)
      moreover obtain t' where "budget_release t b = Some t'" "budget_ok t' a"
        using budget_ok_release [OF t_ok, of b] by auto
      ultimately show ?thesis
        using budget_ok_charge_Err [of "non_exec d" b m e n] oks t r1 ok
        by (intro Err [of "d\<lparr>total_budget := t', non_exec := m\<rparr>" e1]) (auto simp: domain_ok_def)
    next
      case r2: (Inr v)
      have m_ok: "budget_ok m ?n"
        using m r2 oks b budget_ok_charge_Ok [of "non_exec d" b m v n] by (auto split: if_splits)
      let ?d2 = "d\<lparr>total_budget := t, non_exec := m\<rparr>"
      have d2: "domain_ok ?d2 (a + b) ?n q f"
        using ok t_ok m_ok by (auto simp: domain_ok_def)
      show ?thesis
      proof (cases "add_reserved (classes d c) b lim")
        case (Inl e)
        obtain d' where "domain_release_total ?d2 c b = Some d'" "domain_ok d' a n q f"
          using domain_release_total_undo [OF d2] .
        with Inl t r1 m r2 show ?thesis by (intro Err [of d' e2]) auto
      next
        case k: (Inr k)
        then have k': "committed_of k = 0" "reserved_of k = f c + b" "f c + b \<le> lim"
          using ok by (auto simp: add_reserved_Ok domain_ok_def)
        let ?d3 = "?d2\<lparr>classes := (classes d)(c := k)\<rparr>"
        obtain w r3 where w: "(if c = BlockingIo then try_charge (blocking_io d) b
            else (blocking_io d, Inr ())) = (w, r3)" by fastforce
        show ?thesis
        proof (cases r3)
          case (Inr v')
          then have "budget_ok w (if c = BlockingIo then q + b else q)"
            using w oks b budget_ok_charge_Ok [of "blocking_io d" b w v' q] by (auto split: if_splits)
          with Inr t r1 m r2 k k' w d2 show ?thesis
            by (intro Ok [of "?d3\<lparr>blocking_io := w\<rparr>"]) (auto simp: domain_ok_def)
        next
          case (Inl e)
          with w have io: "c = BlockingIo" "try_charge (blocking_io d) b = (w, Inl e)"
            by (auto split: if_splits)
          have w_ok: "budget_ok w q"
            using budget_ok_charge_Err [OF io(2)] oks by simp
          obtain k2 where k2: "subtract_reserved k b = Inr k2"
            using subtract_reserved_succeeds [of b k] k'(2) by auto
          then have "committed_of k2 = 0" "reserved_of k2 = f c"
            using k' by (auto simp: subtract_reserved_Ok)
          then have "domain_ok (?d3\<lparr>blocking_io := w, classes := (classes d)(c := k2)\<rparr>) (a + b) ?n q f"
            using d2 w_ok by (auto simp: domain_ok_def)
          from domain_release_total_undo [OF this] obtain d'
            where "domain_release_total (?d3\<lparr>blocking_io := w, classes := (classes d)(c := k2)\<rparr>) c b = Some d'"
              "domain_ok d' a n q f" .
          with Inl t r1 m r2 k w k2 io show ?thesis
            by (intro Err [of d' e3]) auto
        qed
      qed
    qed
  qed
qed

lemma domain_ok_new:
  "domain_ok owner_budget_new 0 0 0 (\<lambda>_. 0)" "domain_ok uid_budget_new 0 0 0 (\<lambda>_. 0)"
  by (simp_all add: domain_ok_def budget_ok_def owner_budget_new_def uid_budget_new_def
      ns_byte_budget_new_def used_of_def OWNER_HEAP_BYTES_def OWNER_NON_EXEC_BYTES_def
      OWNER_BLOCKING_IO_BYTES_def UID_HEAP_BYTES_def UID_NON_EXEC_BYTES_def
      UID_BLOCKING_IO_BYTES_def EXEC_TRANSACTION_PEAK_BYTES_def usize_max_def)

end
