(* ===== verification/HeapLedger.thy ===== *)
theory HeapLedger
  imports HeapDomains
begin

text \<open>
  The heap admission ledger (\<^verbatim>\<open>kernel/mm/heap_admission.rs\<close>, \<^verbatim>\<open>kernel/mm/heap_uid.rs\<close>): the
  global cell, one cell per class, the thread-group owners, the host-UID domains, and the RAII
  values that hold bytes of it, \<open>HeapReservation\<close>, \<open>HeapCharge\<close> and \<open>HeapOwnerTransfer\<close>.
  \<open>None\<close> as an outcome is one of the ledger's fail-stop panics (\<open>unwrap_or_else(panic!)\<close>,
  \<open>expect\<close>, the assertion of \<open>NsByteBudget::release\<close>).
\<close>

section \<open>State\<close>

record heap_hold =
  hold_owner :: "nat option"
  hold_class :: heap_class
  hold_bytes :: usize
  armed :: bool

type_synonym heap_reservation = heap_hold
type_synonym heap_charge = heap_hold

record heap_owner_transfer =
  xfer_previous :: "nat option"
  xfer_owner :: "nat option"
  xfer_class :: heap_class
  xfer_bytes :: usize
  xfer_armed :: bool

record heap_owner =
  owner_uid :: "(usize \<times> u32) option"
  owner_budget :: budget_domain
  allocation_charge :: heap_charge

record heap_state =
  PUBLISHED :: bool
  GLOBAL_STATE :: u64
  CLASS_STATES :: "heap_class \<Rightarrow> u64"
  BUDGETS :: "nat \<Rightarrow> budget_domain"
  IDENTITIES :: "(u32 \<times> usize) option list"
  OWNERS :: "nat \<rightharpoonup> heap_owner"

definition heap_boot :: heap_state where
  "heap_boot =
     \<lparr>PUBLISHED = False, GLOBAL_STATE = 0, CLASS_STATES = (\<lambda>_. 0),
      BUDGETS = (\<lambda>_. uid_budget_new), IDENTITIES = replicate MAX_UID_DOMAINS None,
      OWNERS = Map.empty\<rparr>"

definition publish :: "heap_state \<Rightarrow> heap_state option" where
  "publish H =
     (if REGISTERED_FIXED_RESERVE_BYTES + NORMAL_UNADMITTED_RESERVE_BYTES + ADMITTED_HEAP_BYTES
           \<le> NORMAL_HEAP_SIZE_BYTES
      then Some (H\<lparr>PUBLISHED := True\<rparr>) else None)"

section \<open>The global and per-class pair\<close>

definition set_class :: "heap_class \<Rightarrow> u64 \<Rightarrow> heap_state \<Rightarrow> heap_state" where
  "set_class c k H = H\<lparr>CLASS_STATES := (CLASS_STATES H)(c := k)\<rparr>"

definition reserve_pair ::
  "heap_class \<Rightarrow> usize \<Rightarrow> heap_state \<Rightarrow> (heap_state \<times> (heap_admission_error + unit)) option" where
  "reserve_pair class bytes H =
     (if bytes = 0 then Some (H, Ok ())
      else case add_reserved (GLOBAL_STATE H) bytes ADMITTED_HEAP_BYTES of
        Inl e \<Rightarrow> Some (H, Err e)
      | Inr g \<Rightarrow>
          (let H1 = H\<lparr>GLOBAL_STATE := g\<rparr> in
           case add_reserved (CLASS_STATES H1 class) bytes (limit_bytes class) of
             Inr k \<Rightarrow> Some (set_class class k H1, Ok ())
           | Inl e \<Rightarrow>
               (case subtract_reserved (GLOBAL_STATE H1) bytes of
                  Inl _ \<Rightarrow> None
                | Inr g' \<Rightarrow>
                    Some (H1\<lparr>GLOBAL_STATE := g'\<rparr>,
                          Err (if e = GlobalLimit then ClassLimit else e)))))"

definition release_reserved_pair :: "heap_class \<Rightarrow> usize \<Rightarrow> heap_state \<Rightarrow> heap_state option" where
  "release_reserved_pair class bytes H =
     (if bytes = 0 then Some H
      else case subtract_reserved (CLASS_STATES H class) bytes of
        Inl _ \<Rightarrow> None
      | Inr k \<Rightarrow>
          (let H1 = set_class class k H in
           case subtract_reserved (GLOBAL_STATE H1) bytes of
             Inl _ \<Rightarrow> None
           | Inr g \<Rightarrow> Some (H1\<lparr>GLOBAL_STATE := g\<rparr>)))"

definition commit_pair ::
  "heap_class \<Rightarrow> usize \<Rightarrow> heap_state \<Rightarrow> heap_state \<times> (heap_admission_error + unit)" where
  "commit_pair class bytes H =
     (if bytes = 0 then (H, Ok ())
      else case commit_reserved (GLOBAL_STATE H) bytes of
        Inl e \<Rightarrow> (H, Err e)
      | Inr g \<Rightarrow>
          (let H1 = H\<lparr>GLOBAL_STATE := g\<rparr> in
           case commit_reserved (CLASS_STATES H1 class) bytes of
             Inr k \<Rightarrow> (set_class class k H1, Ok ())
           | Inl e \<Rightarrow>
               (case rollback_commit (GLOBAL_STATE H1) bytes of
                  Inl e' \<Rightarrow> (H1, Err e')
                | Inr g' \<Rightarrow> (H1\<lparr>GLOBAL_STATE := g'\<rparr>, Err e))))"

definition release_committed_pair :: "heap_class \<Rightarrow> usize \<Rightarrow> heap_state \<Rightarrow> heap_state option" where
  "release_committed_pair class bytes H =
     (if bytes = 0 then Some H
      else case subtract_committed (CLASS_STATES H class) bytes of
        Inl _ \<Rightarrow> None
      | Inr k \<Rightarrow>
          (let H1 = set_class class k H in
           case subtract_committed (GLOBAL_STATE H1) bytes of
             Inl _ \<Rightarrow> None
           | Inr g \<Rightarrow> Some (H1\<lparr>GLOBAL_STATE := g\<rparr>)))"

section \<open>Owners\<close>

definition set_owner_budget :: "nat \<Rightarrow> budget_domain \<Rightarrow> heap_state \<Rightarrow> heap_state" where
  "set_owner_budget ow d H =
     H\<lparr>OWNERS := (OWNERS H)(ow := map_option (\<lambda>r. r\<lparr>owner_budget := d\<rparr>) (OWNERS H ow))\<rparr>"

definition set_uid_budget :: "nat \<Rightarrow> budget_domain \<Rightarrow> heap_state \<Rightarrow> heap_state" where
  "set_uid_budget slot d H = H\<lparr>BUDGETS := (BUDGETS H)(slot := d)\<rparr>"

definition owner_reserve ::
  "nat \<Rightarrow> heap_class \<Rightarrow> usize \<Rightarrow> heap_state \<Rightarrow> (heap_state \<times> (heap_admission_error + unit)) option" where
  "owner_reserve ow class bytes H =
     (case OWNERS H ow of
        None \<Rightarrow> None
      | Some r \<Rightarrow>
          (case owner_local_reserve (owner_budget r) class bytes of
             None \<Rightarrow> None
           | Some (d, Inl e) \<Rightarrow> Some (set_owner_budget ow d H, Err e)
           | Some (d, Inr _) \<Rightarrow>
               (case owner_uid r of
                  None \<Rightarrow> Some (set_owner_budget ow d H, Ok ())
                | Some (slot, _) \<Rightarrow>
                    (case uid_reserve (BUDGETS H slot) class bytes of
                       None \<Rightarrow> None
                     | Some (u, Inr _) \<Rightarrow>
                         Some (set_uid_budget slot u (set_owner_budget ow d H), Ok ())
                     | Some (u, Inl e) \<Rightarrow>
                         (case domain_release d class bytes of
                            None \<Rightarrow> None
                          | Some d' \<Rightarrow>
                              Some (set_uid_budget slot u (set_owner_budget ow d' H), Err e))))))"

definition owner_release :: "nat \<Rightarrow> heap_class \<Rightarrow> usize \<Rightarrow> heap_state \<Rightarrow> heap_state option" where
  "owner_release ow class bytes H =
     (case OWNERS H ow of
        None \<Rightarrow> None
      | Some r \<Rightarrow>
          (case domain_release (owner_budget r) class bytes of
             None \<Rightarrow> None
           | Some d \<Rightarrow>
               (case owner_uid r of
                  None \<Rightarrow> Some (set_owner_budget ow d H)
                | Some (slot, _) \<Rightarrow>
                    (case domain_release (BUDGETS H slot) class bytes of
                       None \<Rightarrow> None
                     | Some u \<Rightarrow> Some (set_uid_budget slot u (set_owner_budget ow d H))))))"

definition release_opt :: "nat option \<Rightarrow> heap_class \<Rightarrow> usize \<Rightarrow> heap_state \<Rightarrow> heap_state option" where
  "release_opt own class bytes H =
     (case own of None \<Rightarrow> Some H | Some ow \<Rightarrow> owner_release ow class bytes H)"

definition reserve_owned_pair ::
  "heap_class \<Rightarrow> usize \<Rightarrow> nat option \<Rightarrow> heap_state \<Rightarrow>
   (heap_state \<times> (heap_admission_error + unit)) option" where
  "reserve_owned_pair class bytes own H =
     (case (case own of None \<Rightarrow> Some (H, Ok ()) | Some ow \<Rightarrow> owner_reserve ow class bytes H) of
        None \<Rightarrow> None
      | Some (H1, Inl e) \<Rightarrow> Some (H1, Err e)
      | Some (H1, Inr _) \<Rightarrow>
          (case reserve_pair class bytes H1 of
             None \<Rightarrow> None
           | Some (H2, Inr _) \<Rightarrow> Some (H2, Ok ())
           | Some (H2, Inl e) \<Rightarrow>
               map_option (\<lambda>H3. (H3, Err e)) (release_opt own class bytes H2)))"

section \<open>Reservations and charges\<close>

definition try_reserve_owned ::
  "heap_class \<Rightarrow> usize \<Rightarrow> nat option \<Rightarrow> heap_state \<Rightarrow>
   (heap_state \<times> (heap_admission_error + heap_reservation)) option" where
  "try_reserve_owned class bytes own H =
     (if \<not> PUBLISHED H then Some (H, Err NotPublished)
      else case reserve_owned_pair class bytes own H of
        None \<Rightarrow> None
      | Some (H1, Inl e) \<Rightarrow> Some (H1, Err e)
      | Some (H1, Inr _) \<Rightarrow>
          Some (H1, Ok \<lparr>hold_owner = own, hold_class = class, hold_bytes = bytes, armed = True\<rparr>))"

definition reservation_resize ::
  "heap_reservation \<Rightarrow> usize \<Rightarrow> heap_state \<Rightarrow>
   (heap_state \<times> heap_reservation \<times> (heap_admission_error + unit)) option" where
  "reservation_resize r new_bytes H =
     (if \<not> armed r then Some (H, r, Err CorruptState)
      else if new_bytes = hold_bytes r then Some (H, r, Ok ())
      else if hold_bytes r < new_bytes then
        (case reserve_owned_pair (hold_class r) (new_bytes - hold_bytes r) (hold_owner r) H of
           None \<Rightarrow> None
         | Some (H1, Inl e) \<Rightarrow> Some (H1, r, Err e)
         | Some (H1, Inr _) \<Rightarrow> Some (H1, r\<lparr>hold_bytes := new_bytes\<rparr>, Ok ()))
      else
        (case release_reserved_pair (hold_class r) (hold_bytes r - new_bytes) H of
           None \<Rightarrow> None
         | Some H1 \<Rightarrow>
             map_option (\<lambda>H2. (H2, r\<lparr>hold_bytes := new_bytes\<rparr>, Ok ()))
               (release_opt (hold_owner r) (hold_class r) (hold_bytes r - new_bytes) H1)))"

definition drop_reservation :: "heap_reservation \<Rightarrow> heap_state \<Rightarrow> heap_state option" where
  "drop_reservation r H =
     (if armed r then
        (case release_reserved_pair (hold_class r) (hold_bytes r) H of
           None \<Rightarrow> None
         | Some H1 \<Rightarrow> release_opt (hold_owner r) (hold_class r) (hold_bytes r) H1)
      else Some H)"

definition reservation_commit ::
  "heap_reservation \<Rightarrow> heap_state \<Rightarrow>
   (heap_state \<times> (heap_admission_error + heap_charge)) option" where
  "reservation_commit r H =
     (case commit_pair (hold_class r) (hold_bytes r) H of
        (H1, Inr _) \<Rightarrow>
          Some (H1, Ok \<lparr>hold_owner = hold_owner r, hold_class = hold_class r,
                        hold_bytes = hold_bytes r, armed = True\<rparr>)
      | (H1, Inl e) \<Rightarrow> map_option (\<lambda>H2. (H2, Err e)) (drop_reservation r H1))"

definition drop_charge :: "heap_charge \<Rightarrow> heap_state \<Rightarrow> heap_state option" where
  "drop_charge k H =
     (if armed k then
        (case release_committed_pair (hold_class k) (hold_bytes k) H of
           None \<Rightarrow> None
         | Some H1 \<Rightarrow> release_opt (hold_owner k) (hold_class k) (hold_bytes k) H1)
      else Some H)"

definition charge_absorb ::
  "heap_charge \<Rightarrow> heap_reservation \<Rightarrow> heap_state \<Rightarrow>
   (heap_state \<times> heap_charge \<times> (heap_admission_error + unit)) option" where
  "charge_absorb k r H =
     (if \<not> armed k \<or> hold_class r \<noteq> hold_class k \<or> hold_owner k \<noteq> hold_owner r then
        map_option (\<lambda>H1. (H1, k, Err CorruptState)) (drop_reservation r H)
      else case checked_add_usize (hold_bytes k) (hold_bytes r) of
        None \<Rightarrow> map_option (\<lambda>H1. (H1, k, Err ArithmeticOverflow)) (drop_reservation r H)
      | Some new_total \<Rightarrow>
          (case reservation_commit r H of
             None \<Rightarrow> None
           | Some (H1, Inl e) \<Rightarrow> Some (H1, k, Err e)
           | Some (H1, Inr _) \<Rightarrow> Some (H1, k\<lparr>hold_bytes := new_total\<rparr>, Ok ())))"

definition release_after_deallocation ::
  "heap_charge \<Rightarrow> usize \<Rightarrow> heap_state \<Rightarrow>
   (heap_state \<times> heap_charge \<times> (heap_admission_error + unit)) option" where
  "release_after_deallocation k bytes H =
     (if \<not> armed k \<or> hold_bytes k < bytes then Some (H, k, Err CorruptState)
      else case release_committed_pair (hold_class k) bytes H of
        None \<Rightarrow> None
      | Some H1 \<Rightarrow>
          map_option (\<lambda>H2. (H2, k\<lparr>hold_bytes := hold_bytes k - bytes\<rparr>, Ok ()))
            (release_opt (hold_owner k) (hold_class k) bytes H1))"

definition prepare_owner_transfer ::
  "heap_charge \<Rightarrow> nat option \<Rightarrow> heap_state \<Rightarrow>
   (heap_state \<times> (heap_admission_error + heap_owner_transfer)) option" where
  "prepare_owner_transfer k own H =
     (if \<not> armed k \<or> (hold_owner k \<noteq> None \<and> own = None) then Some (H, Err CorruptState)
      else (let changed = (hold_owner k \<noteq> own);
                x = \<lparr>xfer_previous = hold_owner k, xfer_owner = own, xfer_class = hold_class k,
                     xfer_bytes = hold_bytes k, xfer_armed = changed\<rparr>
            in case (if changed then own else None) of
                 None \<Rightarrow> Some (H, Ok x)
               | Some ow \<Rightarrow>
                   (case owner_reserve ow (hold_class k) (hold_bytes k) H of
                      None \<Rightarrow> None
                    | Some (H1, Inl e) \<Rightarrow> Some (H1, Err e)
                    | Some (H1, Inr _) \<Rightarrow> Some (H1, Ok x))))"

definition drop_transfer :: "heap_owner_transfer \<Rightarrow> heap_state \<Rightarrow> heap_state option" where
  "drop_transfer x H =
     (if xfer_armed x then release_opt (xfer_owner x) (xfer_class x) (xfer_bytes x) H else Some H)"

definition transfer_commit ::
  "heap_owner_transfer \<Rightarrow> heap_charge \<Rightarrow> heap_state \<Rightarrow>
   (heap_state \<times> heap_charge \<times> (heap_admission_error + unit)) option" where
  "transfer_commit x k H =
     (if \<not> armed k \<or> xfer_class x \<noteq> hold_class k \<or> xfer_bytes x \<noteq> hold_bytes k \<or>
         xfer_previous x \<noteq> hold_owner k then
        map_option (\<lambda>H1. (H1, k, Err CorruptState)) (drop_transfer x H)
      else if xfer_armed x then
        map_option (\<lambda>H1. (H1, k\<lparr>hold_owner := xfer_owner x\<rparr>, Ok ()))
          (release_opt (xfer_previous x) (xfer_class x) (xfer_bytes x) H)
      else Some (H, k, Ok ()))"

section \<open>UID leases and owner lifetime\<close>

fun position :: "('a \<Rightarrow> bool) \<Rightarrow> 'a list \<Rightarrow> nat option" where
  "position P [] = None"
| "position P (x # xs) = (if P x then Some 0 else map_option Suc (position P xs))"

definition uid_slot_for :: "u32 \<Rightarrow> (u32 \<times> usize) option list \<Rightarrow> nat option" where
  "uid_slot_for uid ids =
     (case position (\<lambda>i. case i of None \<Rightarrow> False | Some (key, _) \<Rightarrow> key = uid) ids of
        Some slot \<Rightarrow> Some slot
      | None \<Rightarrow> position (\<lambda>i. i = None) ids)"

definition uid_acquire ::
  "u32 \<Rightarrow> heap_state \<Rightarrow> heap_state \<times> (heap_admission_error + usize \<times> u32)" where
  "uid_acquire uid H =
     (case uid_slot_for uid (IDENTITIES H) of
        None \<Rightarrow> (H, Err UidDomainLimit)
      | Some slot \<Rightarrow>
          (case checked_add_usize
                  (case IDENTITIES H ! slot of None \<Rightarrow> 0 | Some (_, live) \<Rightarrow> live) 1 of
             None \<Rightarrow> (H, Err ArithmeticOverflow)
           | Some live \<Rightarrow>
               (H\<lparr>IDENTITIES := (IDENTITIES H)[slot := Some (uid, live)]\<rparr>, Ok (slot, uid))))"

definition uid_lease_drop :: "usize \<times> u32 \<Rightarrow> heap_state \<Rightarrow> heap_state option" where
  "uid_lease_drop lease H =
     (let (slot, lease_uid) = lease in
      case IDENTITIES H ! slot of
        None \<Rightarrow> None
      | Some (uid, live) \<Rightarrow>
          if uid \<noteq> lease_uid \<or> live = 0 then None
          else if live = 1 then
            (if used_bytes (total_budget (BUDGETS H slot)) = 0
             then Some (H\<lparr>IDENTITIES := (IDENTITIES H)[slot := None]\<rparr>) else None)
          else Some (H\<lparr>IDENTITIES := (IDENTITIES H)[slot := Some (uid, live - 1)]\<rparr>))"

definition drop_lease_opt :: "(usize \<times> u32) option \<Rightarrow> heap_state \<Rightarrow> heap_state option" where
  "drop_lease_opt lease H = (case lease of None \<Rightarrow> Some H | Some l \<Rightarrow> uid_lease_drop l H)"

text \<open>
  \<open>arc_bytes\<close> is what \<open>arc_charge_bytes::<HeapOwner>()\<close> returns, \<open>arc_ok\<close> whether the allocator
  served \<open>Arc::try_new\<close>, \<open>ow\<close> the address it returned. An early return drops the lease; a failed
  allocation drops the value it was given field by field, the lease first and the charge last.
\<close>

definition try_new_with_uid ::
  "(usize \<times> u32) option \<Rightarrow> heap_admission_error + usize \<Rightarrow> bool \<Rightarrow> nat \<Rightarrow> heap_state \<Rightarrow>
   (heap_state \<times> (heap_admission_error + nat)) option" where
  "try_new_with_uid lease arc_bytes arc_ok ow H =
     (let fail = (\<lambda>e H'. map_option (\<lambda>H''. (H'', Err e)) (drop_lease_opt lease H')) in
      case arc_bytes of
        Inl e \<Rightarrow> fail e H
      | Inr bytes \<Rightarrow>
          (case try_reserve_owned CoreProcess bytes None H of
             None \<Rightarrow> None
           | Some (H1, Inl e) \<Rightarrow> fail e H1
           | Some (H1, Inr r) \<Rightarrow>
               (case reservation_commit r H1 of
                  None \<Rightarrow> None
                | Some (H2, Inl e) \<Rightarrow> fail e H2
                | Some (H2, Inr charge) \<Rightarrow>
                    if arc_ok then
                      Some (H2\<lparr>OWNERS := (OWNERS H2)(ow \<mapsto>
                              \<lparr>owner_uid = lease, owner_budget = owner_budget_new,
                               allocation_charge = charge\<rparr>)\<rparr>, Ok ow)
                    else (case drop_lease_opt lease H2 of
                            None \<Rightarrow> None
                          | Some H3 \<Rightarrow>
                              map_option (\<lambda>H4. (H4, Err AllocationFailed))
                                (drop_charge charge H3)))))"

definition try_new_for_uid ::
  "u32 \<Rightarrow> heap_admission_error + usize \<Rightarrow> bool \<Rightarrow> nat \<Rightarrow> heap_state \<Rightarrow>
   (heap_state \<times> (heap_admission_error + nat)) option" where
  "try_new_for_uid host_uid arc_bytes arc_ok ow H =
     (case uid_acquire host_uid H of
        (H1, Inl e) \<Rightarrow> Some (H1, Err e)
      | (H1, Inr lease) \<Rightarrow> try_new_with_uid (Some lease) arc_bytes arc_ok ow H1)"

text \<open>The last \<open>Arc\<close> of an owner going away drops its fields in order: the lease, then the
  charge of the control block.\<close>

definition drop_owner :: "nat \<Rightarrow> heap_state \<Rightarrow> heap_state option" where
  "drop_owner ow H =
     (case OWNERS H ow of
        None \<Rightarrow> None
      | Some r \<Rightarrow>
          (case drop_lease_opt (owner_uid r) (H\<lparr>OWNERS := (OWNERS H)(ow := None)\<rparr>) of
             None \<Rightarrow> None
           | Some H1 \<Rightarrow> drop_charge (allocation_charge r) H1))"

section \<open>Snapshots and charge sizes\<close>

record heap_admission_snapshot =
  snap_committed :: usize
  snap_reserved :: usize
  snap_capacity :: usize

definition snapshot_cell :: "u64 \<Rightarrow> usize \<Rightarrow> heap_admission_snapshot" where
  "snapshot_cell cell capacity =
     (let (committed, reserved) = unpack cell in
      \<lparr>snap_committed = unat committed, snap_reserved = unat reserved, snap_capacity = capacity\<rparr>)"

definition heap_snapshot :: "heap_state \<Rightarrow> heap_admission_snapshot" where
  "heap_snapshot H = snapshot_cell (GLOBAL_STATE H) ADMITTED_HEAP_BYTES"

definition class_snapshot :: "heap_class \<Rightarrow> heap_state \<Rightarrow> heap_admission_snapshot" where
  "class_snapshot c H = snapshot_cell (CLASS_STATES H c) (limit_bytes c)"

definition USIZE_BYTES :: usize where "USIZE_BYTES = 8"

definition ALLOCATOR_LINK_SLACK :: usize where "ALLOCATOR_LINK_SLACK = 2 * USIZE_BYTES"

definition is_power_of_two :: "nat \<Rightarrow> bool" where
  "is_power_of_two n \<longleftrightarrow> (\<exists>k\<in>{0..<64}. n = 2 ^ k)"

definition checked_align_up :: "usize \<Rightarrow> usize \<Rightarrow> heap_admission_error + usize" where
  "checked_align_up v align =
     (if \<not> is_power_of_two align then Err ArithmeticOverflow
      else case checked_add_usize v (align - 1) of
        None \<Rightarrow> Err ArithmeticOverflow
      | Some w \<Rightarrow> Ok (unat ((word_of_nat w :: u64) AND NOT (word_of_nat (align - 1)))))"

definition allocation_charge_bytes :: "usize \<Rightarrow> usize \<Rightarrow> heap_admission_error + usize" where
  "allocation_charge_bytes payload_bytes alignment =
     (if payload_bytes = 0 then Ok 0
      else case checked_add_usize payload_bytes ALLOCATOR_LINK_SLACK of
        None \<Rightarrow> Err ArithmeticOverflow
      | Some with_links \<Rightarrow> checked_align_up with_links (max alignment USIZE_BYTES))"

text \<open>The element type \<open>T\<close> enters as its size and alignment.\<close>

definition arc_charge_bytes :: "usize \<Rightarrow> usize \<Rightarrow> heap_admission_error + usize" where
  "arc_charge_bytes size_T align_T =
     (case checked_add_usize size_T (2 * USIZE_BYTES) of
        None \<Rightarrow> Err ArithmeticOverflow
      | Some payload \<Rightarrow> allocation_charge_bytes payload (max align_T USIZE_BYTES))"

definition vec_charge_bytes :: "usize \<Rightarrow> usize \<Rightarrow> usize \<Rightarrow> heap_admission_error + usize" where
  "vec_charge_bytes size_T align_T capacity =
     (if size_T = 0 \<or> capacity = 0 then Ok 0
      else case checked_mul_usize size_T capacity of
        None \<Rightarrow> Err ArithmeticOverflow
      | Some payload \<Rightarrow> allocation_charge_bytes payload align_T)"

definition vec_growth_charge_bytes ::
  "usize \<Rightarrow> usize \<Rightarrow> usize \<Rightarrow> usize \<Rightarrow> heap_admission_error + usize" where
  "vec_growth_charge_bytes size_T align_T old_capacity new_capacity =
     (if new_capacity < old_capacity then Err ArithmeticOverflow
      else and_then (vec_charge_bytes size_T align_T old_capacity) (\<lambda>old.
           and_then (vec_charge_bytes size_T align_T new_capacity) (\<lambda>new.
             ok_or (checked_sub_usize new old) ArithmeticOverflow)))"

end
