(* ===== verification/HeapInvariant.thy ===== *)
theory HeapInvariant
  imports HeapLedger
begin

text \<open>
  The accounting invariant of the heap ledger. A token stands for one live RAII value: a
  reservation, a charge or a pending owner transfer, with its owner, class and bytes.
  \<open>heap_inv H T\<close> says that every counter of \<open>H\<close> is exactly the sum of the bytes of the tokens
  it should count and that every ceiling holds. A hold is dropped at most once because Rust
  moves it; in the model an operation takes a token out of the multiset and puts back the
  token of what it returns. The lemmas show that each operation keeps the invariant and that
  none of the ledger's fail-stop panics is reachable.
\<close>

section \<open>Tokens and sums\<close>

datatype hold_kind = Reservation | Charge | Transfer

record token =
  tkind :: hold_kind
  town :: "nat option"
  tclass :: heap_class
  tbytes :: nat

definition tok :: "hold_kind \<Rightarrow> nat option \<Rightarrow> heap_class \<Rightarrow> nat \<Rightarrow> token" where
  "tok k ow c b = \<lparr>tkind = k, town = ow, tclass = c, tbytes = b\<rparr>"

lemma tok_simps [simp]:
  "tkind (tok k ow c b) = k" "town (tok k ow c b) = ow"
  "tclass (tok k ow c b) = c" "tbytes (tok k ow c b) = b"
  by (simp_all add: tok_def)

definition tsum :: "(token \<Rightarrow> bool) \<Rightarrow> token multiset \<Rightarrow> nat" where
  "tsum P T = (\<Sum>t\<in>#T. if P t then tbytes t else 0)"

lemma tsum_simps [simp]:
  "tsum P {#} = 0"
  "tsum P (add_mset t T) = (if P t then tbytes t else 0) + tsum P T"
  "tsum P (T + U) = tsum P T + tsum P U"
  by (simp_all add: tsum_def)

lemma tsum_cong:
  "(\<And>t. t \<in># T \<Longrightarrow> P t = Q t) \<Longrightarrow> tsum P T = tsum Q T"
  unfolding tsum_def by (rule arg_cong [of _ _ sum_mset]) (auto intro: image_mset_cong)

lemma tsum_mono: "(\<And>t. P t \<Longrightarrow> Q t) \<Longrightarrow> tsum P T \<le> tsum Q T"
  by (induction T) auto

lemma tsum_False: "(\<And>t. t \<in># T \<Longrightarrow> \<not> P t) \<Longrightarrow> tsum P T = 0"
  by (induction T) auto

section \<open>One budget domain\<close>

definition domain_limits :: "budget_domain \<Rightarrow> nat \<times> nat \<times> nat" where
  "domain_limits d =
     (budget_limit (total_budget d), budget_limit (non_exec d), budget_limit (blocking_io d))"

lemma try_charge_limit: "try_charge n b = (n', r) \<Longrightarrow> budget_limit n' = budget_limit n"
  by (auto simp: try_charge_def split: if_splits option.splits)

lemma budget_release_limit: "budget_release n b = Some n' \<Longrightarrow> budget_limit n' = budget_limit n"
  by (auto simp: budget_release_def split: if_splits)

lemma domain_release_total_limits:
  "domain_release_total d c b = Some d' \<Longrightarrow> domain_limits d' = domain_limits d"
  by (auto simp: domain_release_total_def domain_limits_def
      dest: budget_release_limit split: option.splits if_splits)

lemma domain_release_limits:
  "domain_release d c b = Some d' \<Longrightarrow> domain_limits d' = domain_limits d"
  by (auto simp: domain_release_def domain_limits_def
      dest!: domain_release_total_limits dest: budget_release_limit
      split: option.splits if_splits sum.splits)

lemma domain_reserve_limits:
  "domain_reserve d c b lim e1 e2 e3 = Some (d', r) \<Longrightarrow> domain_limits d' = domain_limits d"
  by (auto simp: domain_reserve_def domain_limits_def Let_def
      dest!: domain_release_total_limits budget_release_limit try_charge_limit
      split: option.splits if_splits sum.splits prod.splits)

definition dom_inv ::
  "nat \<times> nat \<times> nat \<Rightarrow> (heap_class \<Rightarrow> nat) \<Rightarrow> budget_domain \<Rightarrow> (token \<Rightarrow> bool) \<Rightarrow>
   token multiset \<Rightarrow> bool" where
  "dom_inv L lim d P T \<longleftrightarrow>
     domain_limits d = L \<and> (\<forall>c. tsum (\<lambda>t. P t \<and> tclass t = c) T \<le> lim c) \<and>
     domain_ok d (tsum P T) (tsum (\<lambda>t. P t \<and> tclass t \<noteq> Exec) T)
       (tsum (\<lambda>t. P t \<and> tclass t = BlockingIo) T) (\<lambda>c. tsum (\<lambda>t. P t \<and> tclass t = c) T)"

lemma dom_inv_skip: "\<not> P t \<Longrightarrow> dom_inv L lim d P (add_mset t T) = dom_inv L lim d P T"
  by (simp add: dom_inv_def)

lemma dom_inv_cong:
  assumes "\<And>t. t \<in># T \<Longrightarrow> P t = Q t"
  shows "dom_inv L lim d P T = dom_inv L lim d Q T"
proof -
  have "tsum (\<lambda>t. P t \<and> R t) T = tsum (\<lambda>t. Q t \<and> R t) T" for R
    using assms by (auto intro: tsum_cong)
  moreover have "tsum P T = tsum Q T" using assms by (rule tsum_cong)
  ultimately show ?thesis by (simp add: dom_inv_def)
qed

lemma dom_inv_total: "dom_inv (l, m, q) lim d P T \<Longrightarrow> tsum P T \<le> l"
  by (auto simp: dom_inv_def domain_ok_def budget_ok_def domain_limits_def)

lemma dom_inv_release:
  assumes "dom_inv L lim d P (add_mset t T)" and "P t"
  obtains d' where "domain_release d (tclass t) (tbytes t) = Some d'" "dom_inv L lim d' P T"
proof -
  let ?c = "tclass t" and ?b = "tbytes t"
  let ?T = "add_mset t T"
  have ok: "domain_ok d (tsum P ?T) (tsum (\<lambda>t. P t \<and> tclass t \<noteq> Exec) ?T)
      (tsum (\<lambda>t. P t \<and> tclass t = BlockingIo) ?T) (\<lambda>c. tsum (\<lambda>t. P t \<and> tclass t = c) ?T)"
    and lim: "\<And>c. tsum (\<lambda>t. P t \<and> tclass t = c) T \<le> lim c" and L: "domain_limits d = L"
    using assms(1) by (auto simp: dom_inv_def dest: add_leD2)
  obtain d' where d': "domain_release d ?c ?b = Some d'"
    and "domain_ok d' (tsum P ?T - ?b)
      (if ?c = Exec then tsum (\<lambda>t. P t \<and> tclass t \<noteq> Exec) ?T
       else tsum (\<lambda>t. P t \<and> tclass t \<noteq> Exec) ?T - ?b)
      (if ?c = BlockingIo then tsum (\<lambda>t. P t \<and> tclass t = BlockingIo) ?T - ?b
       else tsum (\<lambda>t. P t \<and> tclass t = BlockingIo) ?T)
      ((\<lambda>c. tsum (\<lambda>t. P t \<and> tclass t = c) ?T)(?c := tsum (\<lambda>t. P t \<and> tclass t = ?c) ?T - ?b))"
    using domain_release_ok [OF ok, of ?b ?c] \<open>P t\<close> by auto
  moreover have "((\<lambda>c. tsum (\<lambda>t. P t \<and> tclass t = c) ?T)(?c := tsum (\<lambda>t. P t \<and> tclass t = ?c) ?T - ?b))
      = (\<lambda>c. tsum (\<lambda>t. P t \<and> tclass t = c) T)"
    using \<open>P t\<close> by (auto simp: fun_eq_iff)
  ultimately have "domain_ok d' (tsum P T) (tsum (\<lambda>t. P t \<and> tclass t \<noteq> Exec) T)
      (tsum (\<lambda>t. P t \<and> tclass t = BlockingIo) T) (\<lambda>c. tsum (\<lambda>t. P t \<and> tclass t = c) T)"
    using \<open>P t\<close> by (auto split: if_splits)
  with d' L lim domain_release_limits [OF d'] show ?thesis
    by (intro that [of d']) (simp_all add: dom_inv_def)
qed

lemma dom_inv_reserve:
  assumes inv: "dom_inv L lim d P T" and t: "P t" "tclass t = c" "tbytes t = b"
    and b: "b \<le> usize_max"
  obtains (Ok) d' where "domain_reserve d c b (lim c) e1 e2 e3 = Some (d', Ok ())"
      "dom_inv L lim d' P (add_mset t T)"
    | (Err) d' e where "domain_reserve d c b (lim c) e1 e2 e3 = Some (d', Err e)"
      "dom_inv L lim d' P T" "e \<in> {e1, e2, e3}"
proof -
  have ok: "domain_ok d (tsum P T) (tsum (\<lambda>t. P t \<and> tclass t \<noteq> Exec) T)
      (tsum (\<lambda>t. P t \<and> tclass t = BlockingIo) T) (\<lambda>c. tsum (\<lambda>t. P t \<and> tclass t = c) T)"
    and lim: "\<And>c. tsum (\<lambda>t. P t \<and> tclass t = c) T \<le> lim c" and L: "domain_limits d = L"
    using inv by (auto simp: dom_inv_def)
  show ?thesis
  proof (cases rule: domain_reserve_ok [OF ok b, of c "lim c" e1 e2 e3])
    case (1 d')
    have "((\<lambda>c. tsum (\<lambda>t. P t \<and> tclass t = c) T)(c := tsum (\<lambda>t. P t \<and> tclass t = c) T + b))
        = (\<lambda>c. tsum (\<lambda>t. P t \<and> tclass t = c) (add_mset t T))"
      using t by (auto simp: fun_eq_iff)
    with 1(2) have "domain_ok d' (tsum P (add_mset t T))
        (tsum (\<lambda>t. P t \<and> tclass t \<noteq> Exec) (add_mset t T))
        (tsum (\<lambda>t. P t \<and> tclass t = BlockingIo) (add_mset t T))
        (\<lambda>c. tsum (\<lambda>t. P t \<and> tclass t = c) (add_mset t T))"
      using t by (auto simp: add.commute split: if_splits)
    moreover have "tsum (\<lambda>t. P t \<and> tclass t = c') (add_mset t T) \<le> lim c'" for c'
      using lim [of c'] 1(3) t by auto
    ultimately show ?thesis
      using L domain_reserve_limits [OF 1(1)] by (intro Ok [OF 1(1)]) (auto simp: dom_inv_def)
  next
    case (2 d' e)
    with L lim domain_reserve_limits [OF 2(1)] show ?thesis
      by (intro Err [OF 2(1)]) (auto simp: dom_inv_def)
  qed
qed

lemma dom_inv_reserve_ex:
  assumes "dom_inv L lim d P T" "P t" "tclass t = c" "tbytes t = b" "b \<le> usize_max"
  shows "(\<exists>d' e. domain_reserve d c b (lim c) e1 e2 e3 = Some (d', Err e) \<and> dom_inv L lim d' P T) \<or>
    (\<exists>d'. domain_reserve d c b (lim c) e1 e2 e3 = Some (d', Ok ()) \<and>
       dom_inv L lim d' P (add_mset t T))"
  by (rule dom_inv_reserve [OF assms, of e1 e2 e3]) blast+

section \<open>The global and class cells\<close>

definition cell_ok :: "u64 \<Rightarrow> nat \<Rightarrow> nat \<Rightarrow> nat \<Rightarrow> bool" where
  "cell_ok s lim com res \<longleftrightarrow>
     committed_of s = com \<and> reserved_of s = res \<and> com + res \<le> lim \<and> lim < 2 ^ 32"

lemma cell_ok_add:
  "add_reserved s b lim = Inr s' \<Longrightarrow> cell_ok s lim com res \<Longrightarrow> cell_ok s' lim com (b + res)"
  by (auto simp: cell_ok_def cell_Ok)

lemma cell_ok_add_fails:
  "add_reserved s b lim = Inl e \<Longrightarrow> cell_ok s lim com res \<Longrightarrow> lim < com + res + b"
  using add_reserved_succeeds [of s b lim] by (fastforce simp: cell_ok_def)

lemma cell_ok_sub_reserved:
  assumes "cell_ok s lim com (b + res)"
  obtains s' where "subtract_reserved s b = Inr s'" "cell_ok s' lim com res"
  using subtract_reserved_succeeds [of b s] assms by (auto simp: cell_ok_def cell_Ok)

lemma cell_ok_sub_committed:
  assumes "cell_ok s lim (b + com) res"
  obtains s' where "subtract_committed s b = Inr s'" "cell_ok s' lim com res"
  using subtract_committed_succeeds [of b s] assms by (auto simp: cell_ok_def cell_Ok)

lemma cell_ok_commit:
  assumes "cell_ok s lim com (b + res)"
  obtains s' where "commit_reserved s b = Inr s'" "cell_ok s' lim (b + com) res"
proof -
  have "b \<le> reserved_of s" "committed_of s + b < 2 ^ 32" using assms by (auto simp: cell_ok_def)
  then obtain s' where "commit_reserved s b = Inr s'" using commit_reserved_succeeds by blast
  with assms that [of s'] show ?thesis by (auto simp: cell_ok_def cell_Ok)
qed

lemma heap_limit_u32: "ADMITTED_HEAP_BYTES < 2 ^ 32" "limit_bytes c < 2 ^ 32"
  using limit_bytes_bound [of c] by (auto simp: ADMITTED_HEAP_BYTES_value)

definition cells_inv :: "heap_state \<Rightarrow> token multiset \<Rightarrow> bool" where
  "cells_inv H T \<longleftrightarrow>
     cell_ok (GLOBAL_STATE H) ADMITTED_HEAP_BYTES
       (tsum (\<lambda>t. tkind t = Charge) T) (tsum (\<lambda>t. tkind t = Reservation) T) \<and>
     (\<forall>c. cell_ok (CLASS_STATES H c) (limit_bytes c)
       (tsum (\<lambda>t. tkind t = Charge \<and> tclass t = c) T)
       (tsum (\<lambda>t. tkind t = Reservation \<and> tclass t = c) T))"

definition dom_part ::
  "heap_state \<Rightarrow> (nat \<Rightarrow> budget_domain) \<times> (u32 \<times> usize) option list \<times> (nat \<rightharpoonup> heap_owner)" where
  "dom_part H = (BUDGETS H, IDENTITIES H, OWNERS H)"

definition cell_part :: "heap_state \<Rightarrow> u64 \<times> (heap_class \<Rightarrow> u64)" where
  "cell_part H = (GLOBAL_STATE H, CLASS_STATES H)"

lemma cells_inv_cong: "cell_part H = cell_part H' \<Longrightarrow> cells_inv H T = cells_inv H' T"
  by (simp add: cells_inv_def cell_part_def)

lemmas part_defs = dom_part_def cell_part_def

lemma set_class_simps [simp]:
  "GLOBAL_STATE (set_class c k H) = GLOBAL_STATE H"
  "CLASS_STATES (set_class c k H) = (CLASS_STATES H)(c := k)"
  "dom_part (set_class c k H) = dom_part H"
  "PUBLISHED (set_class c k H) = PUBLISHED H"
  by (simp_all add: set_class_def dom_part_def)

lemma dom_part_GLOBAL [simp]: "dom_part (H\<lparr>GLOBAL_STATE := g\<rparr>) = dom_part H"
  by (simp add: dom_part_def)

text \<open>A token of bytes \<open>0\<close> weighs nothing, so the early return of the pair operations agrees with
  the general case.\<close>

lemma cells_inv_zero: "tbytes t = 0 \<Longrightarrow> cells_inv H (add_mset t T) = cells_inv H T"
  by (simp add: cells_inv_def)

lemma cells_inv_transfer: "tkind t = Transfer \<Longrightarrow> cells_inv H (add_mset t T) = cells_inv H T"
  by (simp add: cells_inv_def)

lemma cells_inv_set:
  assumes "cells_inv H T"
    and "cell_ok g ADMITTED_HEAP_BYTES
       (tsum (\<lambda>t. tkind t = Charge) U) (tsum (\<lambda>t. tkind t = Reservation) U)"
    and "cell_ok k (limit_bytes c)
       (tsum (\<lambda>t. tkind t = Charge \<and> tclass t = c) U)
       (tsum (\<lambda>t. tkind t = Reservation \<and> tclass t = c) U)"
    and "\<And>k c'. c' \<noteq> c \<Longrightarrow>
       tsum (\<lambda>t. tkind t = k \<and> tclass t = c') U = tsum (\<lambda>t. tkind t = k \<and> tclass t = c') T"
  shows "cells_inv (set_class c k (H\<lparr>GLOBAL_STATE := g\<rparr>)) U"
    and "cells_inv ((set_class c k H)\<lparr>GLOBAL_STATE := g\<rparr>) U"
  using assms by (auto simp: cells_inv_def)

lemma tsum_committed_reserved:
  "tsum (\<lambda>t. tkind t = Charge) T + tsum (\<lambda>t. tkind t = Reservation) T
     = tsum (\<lambda>t. tkind t \<noteq> Transfer) T"
proof (induction T)
  case (add t T)
  then show ?case by (cases "tkind t") auto
qed simp

lemma tsum_class_committed_reserved:
  "tsum (\<lambda>t. tkind t = Charge \<and> tclass t = c) T + tsum (\<lambda>t. tkind t = Reservation \<and> tclass t = c) T
     = tsum (\<lambda>t. tkind t \<noteq> Transfer \<and> tclass t = c) T"
proof (induction T)
  case (add t T)
  then show ?case by (cases "tkind t") auto
qed simp

lemma cells_invD:
  assumes "cells_inv H T"
  shows "cell_ok (GLOBAL_STATE H) ADMITTED_HEAP_BYTES
       (tsum (\<lambda>t. tkind t = Charge) T) (tsum (\<lambda>t. tkind t = Reservation) T)"
    and "cell_ok (CLASS_STATES H c) (limit_bytes c)
       (tsum (\<lambda>t. tkind t = Charge \<and> tclass t = c) T)
       (tsum (\<lambda>t. tkind t = Reservation \<and> tclass t = c) T)"
  using assms by (auto simp: cells_inv_def)

lemma reserve_pair_ok:
  assumes inv: "cells_inv H T"
  obtains (Ok) H' where "reserve_pair c b H = Some (H', Ok ())" "dom_part H' = dom_part H"
      "PUBLISHED H' = PUBLISHED H"
      "\<And>ow. cells_inv H' (add_mset (tok Reservation ow c b) T)"
    | (Err) e where "reserve_pair c b H = Some (H, Err e)"
      "ADMITTED_HEAP_BYTES < tsum (\<lambda>t. tkind t \<noteq> Transfer) T + b \<or>
       limit_bytes c < tsum (\<lambda>t. tkind t \<noteq> Transfer \<and> tclass t = c) T + b"
proof (cases "b = 0")
  case True
  with inv show ?thesis by (intro Ok [of H]) (auto simp: reserve_pair_def cells_inv_zero)
next
  case False
  let ?g = "GLOBAL_STATE H" and ?k = "CLASS_STATES H c"
  note ok = cells_invD [OF inv]
  show ?thesis
  proof (cases "add_reserved ?g b ADMITTED_HEAP_BYTES")
    case (Inl e)
    with cell_ok_add_fails [OF Inl ok(1)] False show ?thesis
      by (intro Err [of e]) (simp_all add: reserve_pair_def tsum_committed_reserved)
  next
    case g: (Inr g)
    note g_ok = cell_ok_add [OF g ok(1)]
    show ?thesis
    proof (cases "add_reserved ?k b (limit_bytes c)")
      case (Inl e)
      obtain g' where g': "subtract_reserved g b = Inr g'"
        using cell_ok_sub_reserved [OF g_ok] .
      with g have "g' = ?g" by (intro cell_eqI) (simp_all add: cell_Ok)
      with Inl g g' False
      have "reserve_pair c b H = Some (H, Inl (if e = GlobalLimit then ClassLimit else e))"
        by (simp add: reserve_pair_def Let_def)
      moreover have "limit_bytes c < tsum (\<lambda>t. tkind t \<noteq> Transfer \<and> tclass t = c) T + b"
        using cell_ok_add_fails [OF Inl ok(2)] tsum_class_committed_reserved [of c T] by simp
      ultimately show ?thesis by (rule Err [OF _ disjI2])
    next
      case (Inr k)
      then have "reserve_pair c b H = Some (set_class c k (H\<lparr>GLOBAL_STATE := g\<rparr>), Inr ())"
        using g False by (simp add: reserve_pair_def Let_def)
      then show ?thesis
        by (rule Ok)
          (use g_ok cell_ok_add [OF Inr ok(2)] in \<open>auto intro!: cells_inv_set(1) [OF inv]\<close>)
    qed
  qed
qed

lemma release_reserved_pair_ok:
  assumes inv: "cells_inv H (add_mset (tok Reservation ow c b) T)"
  obtains H' where "release_reserved_pair c b H = Some H'" "dom_part H' = dom_part H"
    "PUBLISHED H' = PUBLISHED H" "cells_inv H' T"
proof (cases "b = 0")
  case True
  with inv that [of H] show ?thesis by (simp add: release_reserved_pair_def cells_inv_zero)
next
  case False
  have ok: "cell_ok (CLASS_STATES H c) (limit_bytes c)
      (tsum (\<lambda>t. tkind t = Charge \<and> tclass t = c) T)
      (b + tsum (\<lambda>t. tkind t = Reservation \<and> tclass t = c) T)"
    "cell_ok (GLOBAL_STATE H) ADMITTED_HEAP_BYTES (tsum (\<lambda>t. tkind t = Charge) T)
      (b + tsum (\<lambda>t. tkind t = Reservation) T)"
    using cells_invD(1) [OF inv] cells_invD(2) [OF inv, of c] by simp_all
  obtain k where k: "subtract_reserved (CLASS_STATES H c) b = Inr k" and k_ok: "cell_ok k (limit_bytes c)
      (tsum (\<lambda>t. tkind t = Charge \<and> tclass t = c) T)
      (tsum (\<lambda>t. tkind t = Reservation \<and> tclass t = c) T)"
    using cell_ok_sub_reserved [OF ok(1)] .
  obtain g where g: "subtract_reserved (GLOBAL_STATE H) b = Inr g" and g_ok:
      "cell_ok g ADMITTED_HEAP_BYTES (tsum (\<lambda>t. tkind t = Charge) T)
        (tsum (\<lambda>t. tkind t = Reservation) T)"
    using cell_ok_sub_reserved [OF ok(2)] .
  from k g False have "release_reserved_pair c b H = Some ((set_class c k H)\<lparr>GLOBAL_STATE := g\<rparr>)"
    by (simp add: release_reserved_pair_def Let_def)
  then show ?thesis
    by (rule that) (use cells_inv_set(2) [OF inv g_ok k_ok] in \<open>auto simp: dom_part_def set_class_def\<close>)
qed

lemma release_committed_pair_ok:
  assumes inv: "cells_inv H (add_mset (tok Charge ow c b) T)"
  obtains H' where "release_committed_pair c b H = Some H'" "dom_part H' = dom_part H"
    "PUBLISHED H' = PUBLISHED H" "cells_inv H' T"
proof (cases "b = 0")
  case True
  with inv that [of H] show ?thesis by (simp add: release_committed_pair_def cells_inv_zero)
next
  case False
  have ok: "cell_ok (CLASS_STATES H c) (limit_bytes c)
      (b + tsum (\<lambda>t. tkind t = Charge \<and> tclass t = c) T)
      (tsum (\<lambda>t. tkind t = Reservation \<and> tclass t = c) T)"
    "cell_ok (GLOBAL_STATE H) ADMITTED_HEAP_BYTES (b + tsum (\<lambda>t. tkind t = Charge) T)
      (tsum (\<lambda>t. tkind t = Reservation) T)"
    using cells_invD(1) [OF inv] cells_invD(2) [OF inv, of c] by simp_all
  obtain k where k: "subtract_committed (CLASS_STATES H c) b = Inr k" and k_ok: "cell_ok k (limit_bytes c)
      (tsum (\<lambda>t. tkind t = Charge \<and> tclass t = c) T)
      (tsum (\<lambda>t. tkind t = Reservation \<and> tclass t = c) T)"
    using cell_ok_sub_committed [OF ok(1)] .
  obtain g where g: "subtract_committed (GLOBAL_STATE H) b = Inr g" and g_ok:
      "cell_ok g ADMITTED_HEAP_BYTES (tsum (\<lambda>t. tkind t = Charge) T)
        (tsum (\<lambda>t. tkind t = Reservation) T)"
    using cell_ok_sub_committed [OF ok(2)] .
  from k g False have "release_committed_pair c b H = Some ((set_class c k H)\<lparr>GLOBAL_STATE := g\<rparr>)"
    by (simp add: release_committed_pair_def Let_def)
  then show ?thesis
    by (rule that) (use cells_inv_set(2) [OF inv g_ok k_ok] in \<open>auto simp: dom_part_def set_class_def\<close>)
qed

lemma commit_pair_ok:
  assumes inv: "cells_inv H (add_mset (tok Reservation ow c b) T)"
  obtains H' where "commit_pair c b H = (H', Ok ())" "dom_part H' = dom_part H"
    "PUBLISHED H' = PUBLISHED H" "cells_inv H' (add_mset (tok Charge ow c b) T)"
proof (cases "b = 0")
  case True
  with inv that [of H] show ?thesis by (simp add: commit_pair_def cells_inv_zero)
next
  case False
  have ok: "cell_ok (CLASS_STATES H c) (limit_bytes c)
      (tsum (\<lambda>t. tkind t = Charge \<and> tclass t = c) T)
      (b + tsum (\<lambda>t. tkind t = Reservation \<and> tclass t = c) T)"
    "cell_ok (GLOBAL_STATE H) ADMITTED_HEAP_BYTES (tsum (\<lambda>t. tkind t = Charge) T)
      (b + tsum (\<lambda>t. tkind t = Reservation) T)"
    using cells_invD(1) [OF inv] cells_invD(2) [OF inv, of c] by simp_all
  obtain k where k: "commit_reserved (CLASS_STATES H c) b = Inr k" and k_ok: "cell_ok k (limit_bytes c)
      (b + tsum (\<lambda>t. tkind t = Charge \<and> tclass t = c) T)
      (tsum (\<lambda>t. tkind t = Reservation \<and> tclass t = c) T)"
    using cell_ok_commit [OF ok(1)] .
  obtain g where g: "commit_reserved (GLOBAL_STATE H) b = Inr g" and g_ok:
      "cell_ok g ADMITTED_HEAP_BYTES (b + tsum (\<lambda>t. tkind t = Charge) T)
        (tsum (\<lambda>t. tkind t = Reservation) T)"
    using cell_ok_commit [OF ok(2)] .
  from k g False have "commit_pair c b H = (set_class c k (H\<lparr>GLOBAL_STATE := g\<rparr>), Inr ())"
    by (simp add: commit_pair_def Let_def)
  then show ?thesis
    by (rule that) (use g_ok k_ok in \<open>auto intro!: cells_inv_set(1) [OF inv]\<close>)
qed

section \<open>Owners and host UIDs\<close>

definition owner_ids :: "heap_state \<Rightarrow> nat \<rightharpoonup> (usize \<times> u32) option \<times> heap_charge" where
  "owner_ids H ow = map_option (\<lambda>r. (owner_uid r, allocation_charge r)) (OWNERS H ow)"

definition frame ::
  "heap_state \<Rightarrow> bool \<times> (u32 \<times> usize) option list \<times> (nat \<rightharpoonup> (usize \<times> u32) option \<times> heap_charge)" where
  "frame H = (PUBLISHED H, IDENTITIES H, owner_ids H)"

definition uid_slot :: "heap_state \<Rightarrow> nat option \<Rightarrow> usize option" where
  "uid_slot H own =
     Option.bind own (\<lambda>ow. Option.bind (owner_ids H ow) (\<lambda>i. map_option fst (fst i)))"

definition owner_class_limit :: "heap_class \<Rightarrow> nat" where
  "owner_class_limit c = (if c = Exec then limit_bytes c else limit_bytes c div 4 * 3)"

definition uid_class_limit :: "heap_class \<Rightarrow> nat" where
  "uid_class_limit c = (if c = Exec then limit_bytes c else limit_bytes c div 8 * 7)"

abbreviation owner_dom_inv :: "budget_domain \<Rightarrow> (token \<Rightarrow> bool) \<Rightarrow> token multiset \<Rightarrow> bool" where
  "owner_dom_inv \<equiv>
     dom_inv (OWNER_HEAP_BYTES, OWNER_NON_EXEC_BYTES, OWNER_BLOCKING_IO_BYTES) owner_class_limit"

abbreviation uid_dom_inv :: "budget_domain \<Rightarrow> (token \<Rightarrow> bool) \<Rightarrow> token multiset \<Rightarrow> bool" where
  "uid_dom_inv \<equiv>
     dom_inv (UID_HEAP_BYTES, UID_NON_EXEC_BYTES, UID_BLOCKING_IO_BYTES) uid_class_limit"

definition domains_inv :: "heap_state \<Rightarrow> token multiset \<Rightarrow> bool" where
  "domains_inv H T \<longleftrightarrow>
     (\<forall>ow r. OWNERS H ow = Some r \<longrightarrow> owner_dom_inv (owner_budget r) (\<lambda>t. town t = Some ow) T) \<and>
     (\<forall>s. uid_dom_inv (BUDGETS H s) (\<lambda>t. uid_slot H (town t) = Some s) T) \<and>
     (\<forall>t\<in>#T. \<forall>ow. town t = Some ow \<longrightarrow> OWNERS H ow \<noteq> None)"

lemma uid_slot_None [simp]: "uid_slot H None = None"
  by (simp add: uid_slot_def)

lemma frame_uid_slot: "frame H' = frame H \<Longrightarrow> uid_slot H' = uid_slot H"
  by (rule ext) (simp add: frame_def uid_slot_def)

lemma frame_dom_part: "dom_part H' = dom_part H \<Longrightarrow> PUBLISHED H' = PUBLISHED H \<Longrightarrow> frame H' = frame H"
  by (simp add: frame_def dom_part_def owner_ids_def fun_eq_iff)

lemma domains_inv_dom_part:
  assumes "dom_part H' = dom_part H"
  shows "domains_inv H' T = domains_inv H T"
proof -
  have "owner_ids H' = owner_ids H"
    using assms by (intro ext) (simp add: dom_part_def owner_ids_def)
  then have "uid_slot H' = uid_slot H" by (intro ext) (simp add: uid_slot_def)
  with assms show ?thesis by (simp add: domains_inv_def dom_part_def)
qed

lemma set_budget_simps [simp]:
  "cell_part (set_owner_budget ow d H) = cell_part H"
  "cell_part (set_uid_budget s d H) = cell_part H"
  "frame (set_uid_budget s d H) = frame H"
  "frame (set_owner_budget ow d H) = frame H"
  "OWNERS (set_uid_budget s d H) = OWNERS H"
  "BUDGETS (set_uid_budget s d H) = (BUDGETS H)(s := d)"
  "BUDGETS (set_owner_budget ow d H) = BUDGETS H"
  "OWNERS (set_owner_budget ow d H) =
     (OWNERS H)(ow := map_option (\<lambda>r. r\<lparr>owner_budget := d\<rparr>) (OWNERS H ow))"
  by (auto simp: set_owner_budget_def set_uid_budget_def cell_part_def frame_def owner_ids_def
      fun_eq_iff option.map_comp comp_def)

lemma uid_slot_set_budget [simp]:
  "uid_slot (set_uid_budget s d H) = uid_slot H" "uid_slot (set_owner_budget ow d H) = uid_slot H"
  by (rule frame_uid_slot, simp)+

lemma uid_slot_Some:
  "OWNERS H ow = Some r \<Longrightarrow> uid_slot H (Some ow) = map_option fst (owner_uid r)"
  by (auto simp: uid_slot_def owner_ids_def split: option.splits)

lemma domains_inv_unowned:
  "town t = None \<Longrightarrow> domains_inv H (add_mset t T) = domains_inv H T"
  by (simp add: domains_inv_def dom_inv_skip)

lemma domains_inv_owned:
  assumes "OWNERS H ow = Some r" "town t = Some ow"
  shows "domains_inv H (add_mset t T) \<longleftrightarrow>
     owner_dom_inv (owner_budget r) (\<lambda>t. town t = Some ow) (add_mset t T) \<and>
     (\<forall>ow' r'. ow' \<noteq> ow \<longrightarrow> OWNERS H ow' = Some r' \<longrightarrow>
        owner_dom_inv (owner_budget r') (\<lambda>t. town t = Some ow') T) \<and>
     (\<forall>s. uid_dom_inv (BUDGETS H s) (\<lambda>t. uid_slot H (town t) = Some s)
        (if uid_slot H (Some ow) = Some s then add_mset t T else T)) \<and>
     (\<forall>t\<in>#T. \<forall>ow. town t = Some ow \<longrightarrow> OWNERS H ow \<noteq> None)"
proof -
  have other: "owner_dom_inv d (\<lambda>t. town t = Some ow') (add_mset t T) =
      owner_dom_inv d (\<lambda>t. town t = Some ow') T" if "ow' \<noteq> ow" for d ow'
    using assms that by (simp add: dom_inv_skip)
  then have owners: "(\<forall>ow' r'. OWNERS H ow' = Some r' \<longrightarrow>
        owner_dom_inv (owner_budget r') (\<lambda>t. town t = Some ow') (add_mset t T)) \<longleftrightarrow>
      owner_dom_inv (owner_budget r) (\<lambda>t. town t = Some ow) (add_mset t T) \<and>
      (\<forall>ow' r'. ow' \<noteq> ow \<longrightarrow> OWNERS H ow' = Some r' \<longrightarrow>
        owner_dom_inv (owner_budget r') (\<lambda>t. town t = Some ow') T)"
    using assms(1) by (metis option.inject)
  have uids: "uid_dom_inv (BUDGETS H s) (\<lambda>t. uid_slot H (town t) = Some s) (add_mset t T) =
      uid_dom_inv (BUDGETS H s) (\<lambda>t. uid_slot H (town t) = Some s)
        (if uid_slot H (Some ow) = Some s then add_mset t T else T)" for s
    using assms(2) by (simp add: dom_inv_skip)
  have toks: "(\<forall>u\<in>#add_mset t T. \<forall>ow. town u = Some ow \<longrightarrow> OWNERS H ow \<noteq> None) \<longleftrightarrow>
      (\<forall>u\<in>#T. \<forall>ow. town u = Some ow \<longrightarrow> OWNERS H ow \<noteq> None)"
    using assms by auto
  have "domains_inv H (add_mset t T) \<longleftrightarrow>
      (\<forall>ow' r'. OWNERS H ow' = Some r' \<longrightarrow>
        owner_dom_inv (owner_budget r') (\<lambda>t. town t = Some ow') (add_mset t T)) \<and>
      (\<forall>s. uid_dom_inv (BUDGETS H s) (\<lambda>t. uid_slot H (town t) = Some s)
        (if uid_slot H (Some ow) = Some s then add_mset t T else T)) \<and>
      (\<forall>u\<in>#T. \<forall>ow. town u = Some ow \<longrightarrow> OWNERS H ow \<noteq> None)"
    unfolding domains_inv_def toks by (subst uids) (rule refl)
  then show ?thesis unfolding owners conj_assoc .
qed

text \<open>The domains see a token only through its owner, class and bytes.\<close>

lemma dom_inv_weight:
  assumes "\<And>R. tsum (\<lambda>t. P t \<and> R (tclass t)) T = tsum (\<lambda>t. P t \<and> R (tclass t)) U"
  shows "dom_inv L lim d P T = dom_inv L lim d P U"
  using assms [of "\<lambda>_. True"] assms [of "\<lambda>c. c \<noteq> Exec"] assms [of "\<lambda>c. c = BlockingIo"]
    assms [of "\<lambda>c. c = x" for x]
  unfolding dom_inv_def by simp

lemma domains_inv_weight:
  assumes "\<And>Q R. tsum (\<lambda>t. Q (town t) \<and> R (tclass t)) T = tsum (\<lambda>t. Q (town t) \<and> R (tclass t)) U"
    and "town ` set_mset T = town ` set_mset U"
  shows "domains_inv H T = domains_inv H U"
proof -
  have eq: "dom_inv L lim d (\<lambda>t. Q (town t)) T = dom_inv L lim d (\<lambda>t. Q (town t)) U" for L lim d Q
    by (rule dom_inv_weight) (rule assms(1))
  have toks: "(\<forall>t\<in>#T. \<forall>ow. town t = Some ow \<longrightarrow> OWNERS H ow \<noteq> None) \<longleftrightarrow>
      (\<forall>t\<in>#U. \<forall>ow. town t = Some ow \<longrightarrow> OWNERS H ow \<noteq> None)"
    using assms(2) by (metis (no_types, lifting) image_iff)
  show ?thesis
    unfolding domains_inv_def toks
    using eq [of _ _ _ "\<lambda>own. own = Some x" for x] eq [of _ _ _ "\<lambda>own. uid_slot H own = Some x" for x]
    by simp
qed

lemma domains_inv_same_weight:
  "town t = town t' \<Longrightarrow> tclass t = tclass t' \<Longrightarrow> tbytes t = tbytes t' \<Longrightarrow>
     domains_inv H (add_mset t T) = domains_inv H (add_mset t' T)"
  by (rule domains_inv_weight) simp_all

lemma domains_inv_split:
  "domains_inv H (add_mset (tok k ow c (a + b)) T) =
     domains_inv H (add_mset (tok k ow c a) (add_mset (tok k ow c b) T))"
  by (rule domains_inv_weight) auto

lemma cells_inv_split:
  "cells_inv H (add_mset (tok k ow c (a + b)) T) =
     cells_inv H (add_mset (tok k ow c a) (add_mset (tok k ow c b) T))"
  by (simp add: cells_inv_def add.assoc)

lemma owner_release_ok:
  assumes inv: "domains_inv H (add_mset (tok k (Some ow) c b) T)"
  obtains H' where "owner_release ow c b H = Some H'" "cell_part H' = cell_part H"
    "frame H' = frame H" "domains_inv H' T"
proof -
  let ?t = "tok k (Some ow) c b"
  obtain r where r: "OWNERS H ow = Some r" using inv by (auto simp: domains_inv_def)
  note parts = inv [unfolded domains_inv_owned [OF r tok_simps(2)]]
  obtain d where d: "domain_release (owner_budget r) c b = Some d"
    "owner_dom_inv d (\<lambda>t. town t = Some ow) T"
    by (rule dom_inv_release [OF conjunct1 [OF parts]]) (auto intro: that)
  show ?thesis
  proof (cases "owner_uid r")
    case None
    then have "owner_release ow c b H = Some (set_owner_budget ow d H)"
      using r d by (simp add: owner_release_def)
    moreover have "domains_inv (set_owner_budget ow d H) T"
      using parts d r None by (auto simp: domains_inv_def uid_slot_Some)
    ultimately show ?thesis by (intro that) auto
  next
    case (Some l)
    obtain s u where l: "l = (s, u)" by fastforce
    have slot: "uid_slot H (Some ow) = Some s" using r Some l by (simp add: uid_slot_Some)
    have u_inv: "uid_dom_inv (BUDGETS H s) (\<lambda>t. uid_slot H (town t) = Some s) (add_mset ?t T)"
      using inv by (auto simp: domains_inv_def)
    obtain d' where d': "domain_release (BUDGETS H s) c b = Some d'"
      "uid_dom_inv d' (\<lambda>t. uid_slot H (town t) = Some s) T"
      by (rule dom_inv_release [OF u_inv]) (use slot that in auto)
    have "owner_release ow c b H = Some (set_uid_budget s d' (set_owner_budget ow d H))"
      using r d d' Some l by (simp add: owner_release_def)
    moreover have "domains_inv (set_uid_budget s d' (set_owner_budget ow d H)) T"
      using parts d d' r slot by (auto simp: domains_inv_def split: if_splits)
    ultimately show ?thesis by (intro that) auto
  qed
qed

lemma domains_inv_set_owner:
  assumes "domains_inv H T" "OWNERS H ow = Some r" "owner_dom_inv d (\<lambda>t. town t = Some ow) T"
  shows "domains_inv (set_owner_budget ow d H) T"
  using assms unfolding domains_inv_def by simp

lemma domains_inv_set_uid:
  assumes "domains_inv H T" "uid_dom_inv d (\<lambda>t. uid_slot H (town t) = Some s) T"
  shows "domains_inv (set_uid_budget s d H) T"
  using assms unfolding domains_inv_def by simp

lemma domains_inv_add_owned:
  assumes "domains_inv H T" "OWNERS H ow = Some r" "town t = Some ow"
    and "owner_dom_inv d (\<lambda>t. town t = Some ow) (add_mset t T)"
  shows "uid_slot H (Some ow) = None \<Longrightarrow> domains_inv (set_owner_budget ow d H) (add_mset t T)"
    and "uid_slot H (Some ow) = Some s \<Longrightarrow>
      uid_dom_inv d' (\<lambda>t. uid_slot H (town t) = Some s) (add_mset t T) \<Longrightarrow>
      domains_inv (set_uid_budget s d' (set_owner_budget ow d H)) (add_mset t T)"
proof -
  let ?r = "r\<lparr>owner_budget := d\<rparr>"
  have o1: "OWNERS (set_owner_budget ow d H) ow = Some ?r" using assms(2) by simp
  have o2: "OWNERS (set_uid_budget s d' (set_owner_budget ow d H)) ow = Some ?r"
    using assms(2) by simp
  have own: "\<forall>ow' r'. ow' \<noteq> ow \<longrightarrow> OWNERS H ow' = Some r' \<longrightarrow>
        owner_dom_inv (owner_budget r') (\<lambda>t. town t = Some ow') T"
    and uid: "uid_dom_inv (BUDGETS H s) (\<lambda>t. uid_slot H (town t) = Some s) T"
    and toks: "\<forall>t\<in>#T. \<forall>ow. town t = Some ow \<longrightarrow> OWNERS H ow \<noteq> None" for s
    using assms(1) unfolding domains_inv_def by blast+
  show "domains_inv (set_owner_budget ow d H) (add_mset t T)" if "uid_slot H (Some ow) = None"
    unfolding domains_inv_owned [OF o1 assms(3)] using own uid toks assms(4) that by simp
  show "domains_inv (set_uid_budget s d' (set_owner_budget ow d H)) (add_mset t T)"
    if "uid_slot H (Some ow) = Some s" "uid_dom_inv d' (\<lambda>t. uid_slot H (town t) = Some s) (add_mset t T)"
    unfolding domains_inv_owned [OF o2 assms(3)] using own uid toks assms(4) that by simp
qed

lemma owner_reserve_ok:
  assumes inv: "domains_inv H T" and r: "OWNERS H ow = Some r" and b: "b \<le> usize_max"
  obtains (Ok) H' where "owner_reserve ow c b H = Some (H', Ok ())" "cell_part H' = cell_part H"
      "frame H' = frame H" "\<And>k. domains_inv H' (add_mset (tok k (Some ow) c b) T)"
    | (Err) H' e where "owner_reserve ow c b H = Some (H', Err e)" "cell_part H' = cell_part H"
      "frame H' = frame H" "domains_inv H' T"
proof -
  let ?t = "tok Charge (Some ow) c b"
  have own: "owner_dom_inv (owner_budget r) (\<lambda>t. town t = Some ow) T"
    and uid: "uid_dom_inv (BUDGETS H s) (\<lambda>t. uid_slot H (town t) = Some s) T" for s
    using inv r unfolding domains_inv_def by blast+
  have any_kind: "domains_inv H' (add_mset (tok k (Some ow) c b) T)"
    if "domains_inv H' (add_mset ?t T)" for H' k
    using that domains_inv_same_weight [of ?t "tok k (Some ow) c b"] by simp
  have local_eq: "owner_local_reserve d c b =
      domain_reserve d c b (owner_class_limit c) OwnerLimit OwnerClassLimit BlockingIoOwnerLimit" for d
    by (simp add: owner_local_reserve_def owner_class_limit_def)
  have uid_eq: "uid_reserve d c b =
      domain_reserve d c b (uid_class_limit c) UidLimit UidClassLimit BlockingIoUidLimit" for d
    by (simp add: uid_reserve_def uid_class_limit_def)
  consider (fail) d e where "owner_local_reserve (owner_budget r) c b = Some (d, Err e)"
      "owner_dom_inv d (\<lambda>t. town t = Some ow) T"
    | (charged) d where "owner_local_reserve (owner_budget r) c b = Some (d, Ok ())"
      "owner_dom_inv d (\<lambda>t. town t = Some ow) (add_mset ?t T)"
    using dom_inv_reserve_ex [OF own _ _ _ b, of ?t c OwnerLimit OwnerClassLimit BlockingIoOwnerLimit]
    unfolding local_eq by (simp only: tok_simps) blast
  then show ?thesis
  proof cases
    case fail
    show ?thesis
      by (rule Err [of "set_owner_budget ow d H" e])
        (use fail r domains_inv_set_owner [OF inv r fail(2)] in \<open>simp_all add: owner_reserve_def\<close>)
  next
    case charged
    show ?thesis
    proof (cases "owner_uid r")
      case None
      with r have "uid_slot H (Some ow) = None" by (simp add: uid_slot_Some)
      from any_kind [OF domains_inv_add_owned(1) [OF inv r tok_simps(2) charged(2) this]]
      show ?thesis
        by (intro Ok [of "set_owner_budget ow d H"])
          (use charged r None in \<open>simp_all add: owner_reserve_def\<close>)
    next
      case (Some l)
      obtain s u where l: "l = (s, u)" by fastforce
      have slot: "uid_slot H (Some ow) = Some s" using r Some l by (simp add: uid_slot_Some)
      consider (fail) d' e where "uid_reserve (BUDGETS H s) c b = Some (d', Err e)"
          "uid_dom_inv d' (\<lambda>t. uid_slot H (town t) = Some s) T"
        | (charged) d' where "uid_reserve (BUDGETS H s) c b = Some (d', Ok ())"
          "uid_dom_inv d' (\<lambda>t. uid_slot H (town t) = Some s) (add_mset ?t T)"
        using slot dom_inv_reserve_ex [OF uid [of s] _ _ _ b, of ?t c UidLimit UidClassLimit BlockingIoUidLimit]
        unfolding uid_eq by (simp only: tok_simps) blast
      then show ?thesis
      proof cases
        case (fail d' e)
        obtain d2 where d2: "domain_release d c b = Some d2"
          "owner_dom_inv d2 (\<lambda>t. town t = Some ow) T"
          by (rule dom_inv_release [OF charged(2)]) (auto intro: that)
        have "domains_inv (set_uid_budget s d' (set_owner_budget ow d2 H)) T"
          by (rule domains_inv_set_uid [OF domains_inv_set_owner [OF inv r d2(2)]])
            (use fail in simp)
        then show ?thesis
          by (intro Err [of "set_uid_budget s d' (set_owner_budget ow d2 H)" e])
            (use charged fail d2 r Some l in \<open>simp_all add: owner_reserve_def\<close>)
      next
        case u: (charged d')
        from any_kind [OF domains_inv_add_owned(2) [OF inv r tok_simps(2) charged(2) slot u(2)]]
        show ?thesis
          by (intro Ok [of "set_uid_budget s d' (set_owner_budget ow d H)"])
            (use charged u r Some l in \<open>simp_all add: owner_reserve_def\<close>)
      qed
    qed
  qed
qed

end
