(* ===== verification/HeapAccounting.thy ===== *)
theory HeapAccounting
  imports HeapInvariant
begin

text \<open>
  The whole-ledger invariant and its preservation by every operation of
  \<^verbatim>\<open>heap_admission.rs\<close> and \<^verbatim>\<open>heap_uid.rs\<close>, including owner creation and destruction with the
  UID lease registry. \<open>heap_invp H T P\<close> is the invariant with the live tokens \<open>T\<close> and the
  leases \<open>P\<close> that are acquired but not yet stored in an owner; outside an operation \<open>P\<close> is empty.
\<close>

section \<open>The UID registry\<close>

text \<open>
  \<open>A\<close> is the multiset of live leases: each occupied slot counts exactly its leases, every lease
  sits at an occupied slot of its own UID, and a UID occupies at most one slot.
\<close>

definition ids_inv :: "(u32 \<times> usize) option list \<Rightarrow> (usize \<times> u32) multiset \<Rightarrow> bool" where
  "ids_inv ids A \<longleftrightarrow>
     length ids = MAX_UID_DOMAINS \<and>
     (\<forall>s u. (s, u) \<in># A \<longrightarrow> s < MAX_UID_DOMAINS \<and> (\<exists>n. ids ! s = Some (u, n))) \<and>
     (\<forall>s<MAX_UID_DOMAINS. \<forall>u n. ids ! s = Some (u, n) \<longrightarrow> n = count A (s, u) \<and> n \<noteq> 0) \<and>
     (\<forall>s<MAX_UID_DOMAINS. \<forall>s'<MAX_UID_DOMAINS. \<forall>u n n'.
        ids ! s = Some (u, n) \<longrightarrow> ids ! s' = Some (u, n') \<longrightarrow> s = s')"

lemma position_Some: "position P xs = Some i \<Longrightarrow> i < length xs \<and> P (xs ! i)"
  by (induction xs arbitrary: i) (auto split: if_splits)

lemma position_None: "position P xs = None \<longleftrightarrow> (\<forall>x\<in>set xs. \<not> P x)"
  by (induction xs) auto

lemma uid_slot_for_Some:
  assumes "uid_slot_for u ids = Some s"
  shows "s < length ids"
    and "ids ! s = None \<and> (\<forall>n. Some (u, n) \<notin> set ids) \<or> (\<exists>n. ids ! s = Some (u, n))"
  using assms
  by (auto simp: uid_slot_for_def position_None dest!: position_Some split: option.splits)

lemma ids_invD:
  assumes "ids_inv ids A"
  shows "length ids = MAX_UID_DOMAINS"
    and "(s, u) \<in># A \<Longrightarrow> s < MAX_UID_DOMAINS \<and> (\<exists>n. ids ! s = Some (u, n))"
    and "s < MAX_UID_DOMAINS \<Longrightarrow> ids ! s = Some (u, n) \<Longrightarrow> n = count A (s, u) \<and> n \<noteq> 0"
    and "s < MAX_UID_DOMAINS \<Longrightarrow> s' < MAX_UID_DOMAINS \<Longrightarrow> ids ! s = Some (u, n) \<Longrightarrow>
      ids ! s' = Some (u, n') \<Longrightarrow> s = s'"
  using assms unfolding ids_inv_def by blast+

lemma ids_invI:
  assumes "length ids = MAX_UID_DOMAINS"
    and "\<And>s u. (s, u) \<in># A \<Longrightarrow> s < MAX_UID_DOMAINS \<and> (\<exists>n. ids ! s = Some (u, n))"
    and "\<And>s u n. s < MAX_UID_DOMAINS \<Longrightarrow> ids ! s = Some (u, n) \<Longrightarrow> n = count A (s, u) \<and> n \<noteq> 0"
    and "\<And>s s' u n n'. s < MAX_UID_DOMAINS \<Longrightarrow> s' < MAX_UID_DOMAINS \<Longrightarrow>
      ids ! s = Some (u, n) \<Longrightarrow> ids ! s' = Some (u, n') \<Longrightarrow> s = s'"
  shows "ids_inv ids A"
  using assms unfolding ids_inv_def by blast

lemma ids_inv_lease_unique:
  "ids_inv ids A \<Longrightarrow> (s, u) \<in># A \<Longrightarrow> (s, v) \<in># A \<Longrightarrow> u = v"
  using ids_invD(2) [of ids A s u] ids_invD(2) [of ids A s v] by auto

lemma ids_inv_acquire:
  assumes inv: "ids_inv ids A" and slot: "uid_slot_for u ids = Some s"
    and n: "n = (case ids ! s of None \<Rightarrow> 0 | Some (_, live) \<Rightarrow> live)"
  shows "ids_inv (ids[s := Some (u, n + 1)]) (add_mset (s, u) A)"
proof -
  note D = ids_invD [OF inv]
  have s: "s < MAX_UID_DOMAINS" using D(1) uid_slot_for_Some(1) [OF slot] by simp
  have old_or_empty: "n = count A (s, u) \<and> (\<forall>v. (s, v) \<in># A \<longrightarrow> v = u) \<and>
      (\<forall>s' m. s' < MAX_UID_DOMAINS \<longrightarrow> ids ! s' = Some (u, m) \<longrightarrow> s' = s)"
    using uid_slot_for_Some(2) [OF slot]
  proof (elim disjE conjE exE)
    assume empty: "ids ! s = None" and no: "\<forall>m. Some (u, m) \<notin> set ids"
    have none: "(s, v) \<notin># A" for v using D(2) [of s v] empty by auto
    then have "count A (s, u) = 0" by (simp add: not_in_iff)
    moreover have "ids ! s' \<noteq> Some (u, m)" if "s' < MAX_UID_DOMAINS" for s' m
      using no that D(1) by (metis nth_mem)
    ultimately show ?thesis using n empty none by simp
  next
    fix m assume old: "ids ! s = Some (u, m)"
    have "v = u" if "(s, v) \<in># A" for v using D(2) [OF that] old by auto
    moreover have "s' = s" if "s' < MAX_UID_DOMAINS" "ids ! s' = Some (u, m')" for s' m'
      using D(4) [OF that(1) s that(2) old] .
    moreover have "n = count A (s, u)" using n old D(3) [OF s old] by simp
    ultimately show ?thesis by blast
  qed
  have here: "n = count A (s, u)" and only: "(s, v) \<in># A \<Longrightarrow> v = u"
    and uniq: "s' < MAX_UID_DOMAINS \<Longrightarrow> ids ! s' = Some (u, m) \<Longrightarrow> s' = s" for v s' m
    using old_or_empty by blast+
  show ?thesis
  proof (rule ids_invI)
    show "length (ids[s := Some (u, n + 1)]) = MAX_UID_DOMAINS" using D(1) by simp
  next
    fix s' v assume "(s', v) \<in># add_mset (s, u) A"
    then show "s' < MAX_UID_DOMAINS \<and> (\<exists>m. ids[s := Some (u, n + 1)] ! s' = Some (v, m))"
      using D(1) D(2) [of s' v] only [of v] s by (auto simp: nth_list_update)
  next
    fix s' v m assume "s' < MAX_UID_DOMAINS" "ids[s := Some (u, n + 1)] ! s' = Some (v, m)"
    then show "m = count (add_mset (s, u) A) (s', v) \<and> m \<noteq> 0"
      using D(1) D(3) [of s' v m] here s by (auto simp: nth_list_update split: if_splits)
  next
    fix s1 s2 v m m'
    assume "s1 < MAX_UID_DOMAINS" "s2 < MAX_UID_DOMAINS"
      "ids[s := Some (u, n + 1)] ! s1 = Some (v, m)" "ids[s := Some (u, n + 1)] ! s2 = Some (v, m')"
    then show "s1 = s2"
      using D(1) D(4) [of s1 s2 v m m'] uniq [of s1 m] uniq [of s2 m'] s
      by (auto simp: nth_list_update split: if_splits)
  qed
qed

lemma ids_inv_drop:
  assumes inv: "ids_inv ids (add_mset (s, u) A)"
  defines "n \<equiv> Suc (count A (s, u))"
  shows "ids ! s = Some (u, n)" and "s < MAX_UID_DOMAINS"
    and "(s, v) \<in># A \<Longrightarrow> n \<noteq> 1"
    and "ids_inv (ids[s := if n = 1 then None else Some (u, n - 1)]) A"
proof -
  note D = ids_invD [OF inv]
  show s: "s < MAX_UID_DOMAINS" and slot: "ids ! s = Some (u, n)"
    using D(2) [of s u] D(3) [of s u] by (auto simp: n_def)
  have only: "v = u" if "(s, v) \<in># A" for v
    using ids_inv_lease_unique [OF inv, of s u v] that by simp
  have pos: "n \<noteq> 1" if "(s, v) \<in># A" for v
    using only [OF that] that by (auto simp: n_def)
  show "(s, v) \<in># A \<Longrightarrow> n \<noteq> 1" by (rule pos)
  let ?ids = "ids[s := if n = 1 then None else Some (u, n - 1)]"
  show "ids_inv ?ids A"
  proof (rule ids_invI)
    show "length ?ids = MAX_UID_DOMAINS" using D(1) by simp
  next
    fix s' v assume "(s', v) \<in># A"
    then show "s' < MAX_UID_DOMAINS \<and> (\<exists>m. ?ids ! s' = Some (v, m))"
      using D(1) D(2) [of s' v] only [of v] pos [of v] s by (auto simp: nth_list_update)
  next
    fix s' v m assume "s' < MAX_UID_DOMAINS" "?ids ! s' = Some (v, m)"
    then show "m = count A (s', v) \<and> m \<noteq> 0"
      using D(1) D(3) [of s' v m] s by (auto simp: nth_list_update n_def split: if_splits)
  next
    fix s1 s2 v m m'
    assume "s1 < MAX_UID_DOMAINS" "s2 < MAX_UID_DOMAINS"
      "?ids ! s1 = Some (v, m)" "?ids ! s2 = Some (v, m')"
    then show "s1 = s2"
      using D(1) D(4) [of s1 s2 v m m'] D(4) [of s s2 v n m'] D(4) [of s1 s v m n] s slot
      by (auto simp: nth_list_update split: if_splits)
  qed
qed

section \<open>The whole invariant\<close>

definition owner_leases :: "heap_state \<Rightarrow> (usize \<times> u32) multiset" where
  "owner_leases H =
     {#the (fst (the (owner_ids H ow))).
        ow \<in># mset_set {ow. \<exists>l k. owner_ids H ow = Some (Some l, k)}#}"

definition heap_invp :: "heap_state \<Rightarrow> token multiset \<Rightarrow> (usize \<times> u32) multiset \<Rightarrow> bool" where
  "heap_invp H T P \<longleftrightarrow>
     cells_inv H T \<and> domains_inv H T \<and> finite (dom (OWNERS H)) \<and>
     ids_inv (IDENTITIES H) (owner_leases H + P)"

abbreviation heap_inv :: "heap_state \<Rightarrow> token multiset \<Rightarrow> bool" where
  "heap_inv H T \<equiv> heap_invp H T {#}"

lemma dom_owner_ids: "dom (owner_ids H) = dom (OWNERS H)"
  by (auto simp: owner_ids_def)

lemma heap_invp_frame:
  assumes "heap_invp H T P" "frame H' = frame H" "cells_inv H' U" "domains_inv H' U"
  shows "heap_invp H' U P"
proof -
  have ids: "owner_ids H' = owner_ids H" "IDENTITIES H' = IDENTITIES H"
    using assms(2) by (simp_all add: frame_def)
  then have "owner_leases H' = owner_leases H" "dom (OWNERS H') = dom (OWNERS H)"
    by (simp_all add: owner_leases_def flip: dom_owner_ids)
  with assms ids show ?thesis by (simp add: heap_invp_def)
qed

lemma heap_inv_boot: "heap_inv heap_boot {#}"
proof -
  have "domains_inv heap_boot {#}"
    using domain_ok_new
    by (simp add: domains_inv_def heap_boot_def dom_inv_def domain_limits_def uid_budget_new_def
        ns_byte_budget_new_def)
  moreover have "owner_leases heap_boot = {#}"
    by (simp add: owner_leases_def owner_ids_def heap_boot_def)
  moreover have "cells_inv heap_boot {#}"
    using heap_limit_u32 by (simp add: cells_inv_def cell_ok_def heap_boot_def)
  moreover have "ids_inv (IDENTITIES heap_boot) {#}"
    by (simp add: ids_inv_def heap_boot_def)
  ultimately show ?thesis by (simp add: heap_invp_def) (simp add: heap_boot_def)
qed

section \<open>Every operation keeps the invariant\<close>

definition owner_live :: "heap_state \<Rightarrow> nat option \<Rightarrow> bool" where
  "owner_live H own \<longleftrightarrow> (\<forall>ow. own = Some ow \<longrightarrow> OWNERS H ow \<noteq> None)"

definition hold_tok :: "hold_kind \<Rightarrow> heap_hold \<Rightarrow> token" where
  "hold_tok k h = tok k (hold_owner h) (hold_class h) (hold_bytes h)"

text \<open>The token an operation hands back: one on success, none on error.\<close>

fun ok_toks :: "token \<Rightarrow> 'e + 'a \<Rightarrow> token multiset" where
  "ok_toks t (Inl _) = {#}"
| "ok_toks t (Inr _) = {#t#}"

lemma heap_invp_owner_live:
  "heap_invp H (add_mset t T) P \<Longrightarrow> owner_live H (town t)"
  by (auto simp: heap_invp_def domains_inv_def owner_live_def)

lemma release_opt_ok:
  assumes "domains_inv H (add_mset (tok k own c b) T)"
  shows "\<exists>H'. release_opt own c b H = Some H' \<and> cell_part H' = cell_part H \<and>
    frame H' = frame H \<and> domains_inv H' T"
proof (cases own)
  case None
  with assms show ?thesis by (simp add: release_opt_def domains_inv_unowned)
next
  case (Some ow)
  with assms obtain H' where "owner_release ow c b H = Some H'" "cell_part H' = cell_part H"
    "frame H' = frame H" "domains_inv H' T" using owner_release_ok by blast
  with Some show ?thesis by (simp add: release_opt_def)
qed

lemma owner_charge_opt_ok:
  assumes "domains_inv H T" "owner_live H own" "b \<le> usize_max"
  shows "\<exists>H' r. (case own of None \<Rightarrow> Some (H, Ok ()) | Some ow \<Rightarrow> owner_reserve ow c b H) = Some (H', r) \<and>
    cell_part H' = cell_part H \<and> frame H' = frame H \<and>
    (\<forall>k. domains_inv H' (ok_toks (tok k own c b) r + T))"
proof (cases own)
  case None
  with assms show ?thesis by (simp add: domains_inv_unowned)
next
  case (Some ow)
  with assms obtain r where r: "OWNERS H ow = Some r" by (auto simp: owner_live_def)
  show ?thesis
  proof (rule owner_reserve_ok [OF assms(1) r assms(3), of c])
    fix H' assume "owner_reserve ow c b H = Some (H', Inr ())" "cell_part H' = cell_part H"
      "frame H' = frame H" "\<And>k. domains_inv H' (add_mset (tok k (Some ow) c b) T)"
    with Some show ?thesis by simp
  next
    fix H' e assume "owner_reserve ow c b H = Some (H', Inl e)" "cell_part H' = cell_part H"
      "frame H' = frame H" "domains_inv H' T"
    with Some show ?thesis by simp
  qed
qed

lemma reserve_owned_pair_ok:
  assumes inv: "heap_invp H T P" and own: "owner_live H own" and b: "b \<le> usize_max"
  shows "\<exists>H' r. reserve_owned_pair c b own H = Some (H', r) \<and> frame H' = frame H \<and>
    heap_invp H' (ok_toks (tok Reservation own c b) r + T) P"
proof -
  have cells: "cells_inv H T" and doms: "domains_inv H T" using inv by (auto simp: heap_invp_def)
  obtain H1 r1 where 1: "(case own of None \<Rightarrow> Some (H, Ok ()) | Some ow \<Rightarrow> owner_reserve ow c b H)
      = Some (H1, r1)" "cell_part H1 = cell_part H" "frame H1 = frame H"
    "\<And>k. domains_inv H1 (ok_toks (tok k own c b) r1 + T)"
    using owner_charge_opt_ok [OF doms own b, of c] by blast
  have cells1: "cells_inv H1 T" using cells cells_inv_cong [OF 1(2)] by simp
  show ?thesis
  proof (cases r1)
    case (Inl e)
    with 1 cells1 heap_invp_frame [OF inv 1(3) cells1] show ?thesis
      by (auto simp: reserve_owned_pair_def)
  next
    case (Inr u)
    with 1(4) have doms1: "domains_inv H1 (add_mset (tok Reservation own c b) T)" by simp
    show ?thesis
    proof (rule reserve_pair_ok [OF cells1, of c b])
      fix H2 assume 2: "reserve_pair c b H1 = Some (H2, Inr ())" "dom_part H2 = dom_part H1"
        "PUBLISHED H2 = PUBLISHED H1" "\<And>ow. cells_inv H2 (add_mset (tok Reservation ow c b) T)"
      have "frame H2 = frame H" using frame_dom_part [OF 2(2,3)] 1(3) by simp
      with heap_invp_frame [OF inv this 2(4)] doms1 domains_inv_dom_part [OF 2(2)] 1(1) 2(1) Inr
      show ?thesis by (auto simp: reserve_owned_pair_def)
    next
      fix e assume 2: "reserve_pair c b H1 = Some (H1, Inl e)"
      obtain H3 where 3: "release_opt own c b H1 = Some H3" "cell_part H3 = cell_part H1"
        "frame H3 = frame H1" "domains_inv H3 T"
        using release_opt_ok [OF doms1] by blast
      have "cells_inv H3 T" using cells1 cells_inv_cong [OF 3(2)] by simp
      with heap_invp_frame [OF inv _ this 3(4)] 3 1 2 Inr show ?thesis
        by (auto simp: reserve_owned_pair_def)
    qed
  qed
qed

lemma try_reserve_owned_ok:
  assumes "heap_invp H T P" "owner_live H own" "b \<le> usize_max"
  shows "\<exists>H' r. try_reserve_owned c b own H = Some (H', r) \<and> frame H' = frame H \<and>
    heap_invp H' (ok_toks (tok Reservation own c b) r + T) P \<and>
    (\<forall>h. r = Ok h \<longrightarrow> h = \<lparr>hold_owner = own, hold_class = c, hold_bytes = b, armed = True\<rparr>)"
proof -
  obtain H' r where "reserve_owned_pair c b own H = Some (H', r)" "frame H' = frame H"
    "heap_invp H' (ok_toks (tok Reservation own c b) r + T) P"
    using reserve_owned_pair_ok [OF assms] by blast
  with assms(1) show ?thesis by (cases r) (auto simp: try_reserve_owned_def)
qed

text \<open>Releasing a reservation or a charge: the cells first, then the owner and its UID.\<close>

lemma release_hold_ok:
  assumes inv: "heap_invp H (add_mset (tok k own c b) T) P"
    and rel: "release = (case k of Reservation \<Rightarrow> release_reserved_pair | _ \<Rightarrow> release_committed_pair)"
    and k: "k \<noteq> Transfer"
  shows "\<exists>H1 H'. release c b H = Some H1 \<and> release_opt own c b H1 = Some H' \<and>
    frame H' = frame H \<and> heap_invp H' T P"
proof -
  have cells: "cells_inv H (add_mset (tok k own c b) T)"
    and doms: "domains_inv H (add_mset (tok k own c b) T)" using inv by (auto simp: heap_invp_def)
  have "\<exists>H1. release c b H = Some H1 \<and> dom_part H1 = dom_part H \<and> PUBLISHED H1 = PUBLISHED H \<and>
      cells_inv H1 T"
  proof (cases k)
    case Reservation
    from cells [unfolded this] show ?thesis
      unfolding rel Reservation hold_kind.case by (rule release_reserved_pair_ok) blast
  next
    case Charge
    from cells [unfolded this] show ?thesis
      unfolding rel Charge hold_kind.case by (rule release_committed_pair_ok) blast
  qed (use k in simp)
  then obtain H1 where 1: "release c b H = Some H1" "dom_part H1 = dom_part H"
    "PUBLISHED H1 = PUBLISHED H" "cells_inv H1 T" by blast
  have "domains_inv H1 (add_mset (tok k own c b) T)"
    using doms domains_inv_dom_part [OF 1(2)] by simp
  from release_opt_ok [OF this] obtain H2 where 2: "release_opt own c b H1 = Some H2"
    "cell_part H2 = cell_part H1" "frame H2 = frame H1" "domains_inv H2 T" by blast
  have "frame H2 = frame H" using 2(3) frame_dom_part [OF 1(2,3)] by simp
  moreover have "cells_inv H2 T" using 1(4) cells_inv_cong [OF 2(2)] by simp
  ultimately show ?thesis using heap_invp_frame [OF inv _ _ 2(4)] 1(1) 2(1) by blast
qed

lemma drop_reservation_ok:
  assumes "heap_invp H (add_mset (hold_tok Reservation r) T) P" "armed r"
  shows "\<exists>H'. drop_reservation r H = Some H' \<and> frame H' = frame H \<and> heap_invp H' T P"
  using release_hold_ok [of H Reservation "hold_owner r" "hold_class r" "hold_bytes r" T P
      release_reserved_pair] assms
  by (auto simp: drop_reservation_def hold_tok_def)

lemma drop_charge_ok:
  assumes "heap_invp H (add_mset (hold_tok Charge k) T) P" "armed k"
  shows "\<exists>H'. drop_charge k H = Some H' \<and> frame H' = frame H \<and> heap_invp H' T P"
  using release_hold_ok [of H Charge "hold_owner k" "hold_class k" "hold_bytes k" T P
      release_committed_pair] assms
  by (auto simp: drop_charge_def hold_tok_def)

text \<open>Committing an armed reservation cannot fail.\<close>

lemma reservation_commit_ok:
  assumes inv: "heap_invp H (add_mset (hold_tok Reservation r) T) P"
  shows "\<exists>H'. reservation_commit r H = Some (H', Ok (r\<lparr>armed := True\<rparr>)) \<and> frame H' = frame H \<and>
    heap_invp H' (add_mset (hold_tok Charge r) T) P"
proof -
  have cells: "cells_inv H (add_mset (tok Reservation (hold_owner r) (hold_class r) (hold_bytes r)) T)"
    using inv by (simp add: heap_invp_def hold_tok_def)
  obtain H' where H': "commit_pair (hold_class r) (hold_bytes r) H = (H', Inr ())"
    "dom_part H' = dom_part H" "PUBLISHED H' = PUBLISHED H"
    "cells_inv H' (add_mset (hold_tok Charge r) T)"
    using commit_pair_ok [OF cells] unfolding hold_tok_def by blast
  have "domains_inv H' (add_mset (hold_tok Charge r) T)"
    using inv domains_inv_dom_part [OF H'(2)]
      domains_inv_same_weight [of "hold_tok Charge r" "hold_tok Reservation r"]
    by (simp add: heap_invp_def hold_tok_def)
  with heap_invp_frame [OF inv frame_dom_part [OF H'(2,3)] H'(4)] H'(1) frame_dom_part [OF H'(2,3)]
  show ?thesis by (cases r) (auto simp: reservation_commit_def)
qed

lemma heap_invp_split:
  "heap_invp H (add_mset (tok k ow c (a + b)) T) P =
     heap_invp H (add_mset (tok k ow c a) (add_mset (tok k ow c b) T)) P"
  by (simp only: heap_invp_def cells_inv_split domains_inv_split)

lemma reservation_resize_ok:
  assumes inv: "heap_invp H (add_mset (hold_tok Reservation r) T) P" and "armed r" and n: "n \<le> usize_max"
  shows "\<exists>H' r' res. reservation_resize r n H = Some (H', r', res) \<and> frame H' = frame H \<and>
    heap_invp H' (add_mset (hold_tok Reservation r') T) P \<and>
    r' = (case res of Inl _ \<Rightarrow> r | Inr _ \<Rightarrow> r\<lparr>hold_bytes := n\<rparr>)"
proof -
  let ?b = "hold_bytes r" and ?t = "tok Reservation (hold_owner r) (hold_class r)"
  have inv': "heap_invp H (add_mset (?t ?b) T) P" using inv by (simp add: hold_tok_def)
  consider "n = ?b" | (up) "?b < n" | (down) "n < ?b" by linarith
  then show ?thesis
  proof cases
    case 1
    with assms show ?thesis by (simp add: reservation_resize_def)
  next
    case up
    have live: "owner_live H (hold_owner r)" using heap_invp_owner_live [OF inv'] by simp
    have "n - ?b \<le> usize_max" using n by simp
    from reserve_owned_pair_ok [OF inv' live this, of "hold_class r"]
    obtain H' res where 1: "reserve_owned_pair (hold_class r) (n - ?b) (hold_owner r) H = Some (H', res)"
      "frame H' = frame H" "heap_invp H' (ok_toks (?t (n - ?b)) res + add_mset (?t ?b) T) P"
      by blast
    show ?thesis
    proof (cases res)
      case (Inl e)
      with 1 up \<open>armed r\<close> show ?thesis by (simp add: reservation_resize_def hold_tok_def)
    next
      case (Inr u)
      with 1(3) heap_invp_split [of H' Reservation "hold_owner r" "hold_class r" ?b "n - ?b" T P] up
      have "heap_invp H' (add_mset (?t n) T) P" by simp
      with Inr 1 up \<open>armed r\<close> show ?thesis by (simp add: reservation_resize_def hold_tok_def)
    qed
  next
    case down
    then have "heap_invp H (add_mset (?t (?b - n)) (add_mset (?t n) T)) P"
      using inv' heap_invp_split [of H Reservation "hold_owner r" "hold_class r" "?b - n" n T P] by simp
    from release_hold_ok [OF this, of release_reserved_pair] obtain H1 H'
      where "release_reserved_pair (hold_class r) (?b - n) H = Some H1"
        "release_opt (hold_owner r) (hold_class r) (?b - n) H1 = Some H'"
        "frame H' = frame H" "heap_invp H' (add_mset (?t n) T) P" by auto
    with down \<open>armed r\<close> show ?thesis by (simp add: reservation_resize_def hold_tok_def)
  qed
qed

lemma charge_absorb_ok:
  assumes inv: "heap_invp H (add_mset (hold_tok Reservation r) (add_mset (hold_tok Charge k) T)) P"
    and "armed r" "armed k"
  shows "\<exists>H' k' res. charge_absorb k r H = Some (H', k', res) \<and> frame H' = frame H \<and>
    heap_invp H' (add_mset (hold_tok Charge k') T) P \<and>
    k' = (case res of Inl _ \<Rightarrow> k | Inr _ \<Rightarrow> k\<lparr>hold_bytes := hold_bytes k + hold_bytes r\<rparr>)"
proof -
  obtain H1 where drop: "drop_reservation r H = Some H1" "frame H1 = frame H"
    "heap_invp H1 (add_mset (hold_tok Charge k) T) P"
    using drop_reservation_ok [OF inv \<open>armed r\<close>] by blast
  obtain H2 where com: "reservation_commit r H = Some (H2, Ok (r\<lparr>armed := True\<rparr>))" "frame H2 = frame H"
    "heap_invp H2 (add_mset (hold_tok Charge r) (add_mset (hold_tok Charge k) T)) P"
    using reservation_commit_ok [OF inv] by blast
  show ?thesis
  proof (cases "hold_class r \<noteq> hold_class k \<or> hold_owner k \<noteq> hold_owner r")
    case True
    with drop \<open>armed k\<close> show ?thesis by (auto simp: charge_absorb_def)
  next
    case same: False
    show ?thesis
    proof (cases "checked_add_usize (hold_bytes k) (hold_bytes r)")
      case None
      with drop same \<open>armed k\<close> show ?thesis by (auto simp: charge_absorb_def)
    next
      case (Some n)
      then have "n = hold_bytes k + hold_bytes r" by (simp add: checked)
      moreover from com(3) same
      have "heap_invp H2 (add_mset (tok Charge (hold_owner k) (hold_class k)
          (hold_bytes k + hold_bytes r)) T) P"
        unfolding heap_invp_split by (simp add: hold_tok_def add_mset_commute)
      ultimately show ?thesis
        using com(1,2) same Some \<open>armed k\<close> by (simp add: charge_absorb_def hold_tok_def)
    qed
  qed
qed

lemma release_after_deallocation_ok:
  assumes inv: "heap_invp H (add_mset (hold_tok Charge k) T) P" and "armed k"
  shows "\<exists>H' k' res. release_after_deallocation k b H = Some (H', k', res) \<and> frame H' = frame H \<and>
    heap_invp H' (add_mset (hold_tok Charge k') T) P \<and> armed k' \<and>
    ((\<exists>u. res = Ok u) \<longleftrightarrow> b \<le> hold_bytes k)"
proof (cases "b \<le> hold_bytes k")
  case True
  let ?t = "tok Charge (hold_owner k) (hold_class k)"
  have "heap_invp H (add_mset (?t b) (add_mset (?t (hold_bytes k - b)) T)) P"
    using inv True heap_invp_split [of H Charge "hold_owner k" "hold_class k" b "hold_bytes k - b" T P]
    by (simp add: hold_tok_def)
  from release_hold_ok [OF this, of release_committed_pair] obtain H1 H'
    where "release_committed_pair (hold_class k) b H = Some H1"
      "release_opt (hold_owner k) (hold_class k) b H1 = Some H'"
      "frame H' = frame H" "heap_invp H' (add_mset (?t (hold_bytes k - b)) T) P" by auto
  with True \<open>armed k\<close> show ?thesis by (simp add: release_after_deallocation_def hold_tok_def)
next
  case False
  with assms show ?thesis by (simp add: release_after_deallocation_def)
qed

text \<open>
  An owner transfer charges the destination before it releases the source, and touches neither
  the global nor the class cells.
\<close>

definition xfer_toks :: "heap_owner_transfer \<Rightarrow> token multiset" where
  "xfer_toks x =
     (if xfer_armed x then {#tok Transfer (xfer_owner x) (xfer_class x) (xfer_bytes x)#} else {#})"

lemma cells_inv_xfer: "cells_inv H (xfer_toks x + T) = cells_inv H T"
  by (simp add: xfer_toks_def cells_inv_transfer)

lemma prepare_owner_transfer_ok:
  assumes inv: "heap_invp H (add_mset (hold_tok Charge k) T) P" and "armed k" and own: "owner_live H own"
    and b: "hold_bytes k \<le> usize_max"
  shows "\<exists>H' res. prepare_owner_transfer k own H = Some (H', res) \<and> frame H' = frame H \<and>
    cell_part H' = cell_part H \<and>
    (case res of
       Inl _ \<Rightarrow> heap_invp H' (add_mset (hold_tok Charge k) T) P
     | Inr x \<Rightarrow> heap_invp H' (xfer_toks x + add_mset (hold_tok Charge k) T) P \<and>
         xfer_previous x = hold_owner k \<and> xfer_owner x = own \<and> xfer_class x = hold_class k \<and>
         xfer_bytes x = hold_bytes k)"
proof (cases "(hold_owner k \<noteq> None \<and> own = None) \<or> hold_owner k = own")
  case True
  with inv \<open>armed k\<close> show ?thesis by (auto simp: prepare_owner_transfer_def Let_def xfer_toks_def)
next
  case False
  then obtain ow where ow: "own = Some ow" "hold_owner k \<noteq> Some ow" by (cases own) auto
  then obtain r where r: "OWNERS H ow = Some r" using own by (auto simp: owner_live_def)
  let ?T = "add_mset (hold_tok Charge k) T"
  have doms: "domains_inv H ?T" and cells: "cells_inv H ?T" using inv by (auto simp: heap_invp_def)
  show ?thesis
  proof (rule owner_reserve_ok [OF doms r b, of "hold_class k"])
    fix H' assume 1: "owner_reserve ow (hold_class k) (hold_bytes k) H = Some (H', Inr ())"
      "cell_part H' = cell_part H" "frame H' = frame H"
      "\<And>kd. domains_inv H' (add_mset (tok kd (Some ow) (hold_class k) (hold_bytes k)) ?T)"
    have "cells_inv H' (add_mset (tok Transfer (Some ow) (hold_class k) (hold_bytes k)) ?T)"
      using cells cells_inv_cong [OF 1(2)] by (simp add: cells_inv_transfer)
    from heap_invp_frame [OF inv 1(3) this 1(4)] 1(1-3) ow \<open>armed k\<close> show ?thesis
      by (simp add: prepare_owner_transfer_def Let_def xfer_toks_def add_mset_commute)
  next
    fix H' e assume 1: "owner_reserve ow (hold_class k) (hold_bytes k) H = Some (H', Inl e)"
      "cell_part H' = cell_part H" "frame H' = frame H" "domains_inv H' ?T"
    have "cells_inv H' ?T" using cells cells_inv_cong [OF 1(2)] by simp
    from heap_invp_frame [OF inv 1(3) this 1(4)] 1(1-3) ow \<open>armed k\<close> show ?thesis
      by (simp add: prepare_owner_transfer_def Let_def)
  qed
qed

lemma drop_transfer_ok:
  assumes inv: "heap_invp H (xfer_toks x + T) P"
  shows "\<exists>H'. drop_transfer x H = Some H' \<and> frame H' = frame H \<and> heap_invp H' T P"
proof (cases "xfer_armed x")
  case True
  then have "domains_inv H (add_mset (tok Transfer (xfer_owner x) (xfer_class x) (xfer_bytes x)) T)"
    and cells: "cells_inv H T"
    using inv cells_inv_xfer [of H x T] by (auto simp: heap_invp_def xfer_toks_def)
  from release_opt_ok [OF this(1)] obtain H'
    where 1: "release_opt (xfer_owner x) (xfer_class x) (xfer_bytes x) H = Some H'"
      "cell_part H' = cell_part H" "frame H' = frame H" "domains_inv H' T" by blast
  have "cells_inv H' T" using cells cells_inv_cong [OF 1(2)] by simp
  from heap_invp_frame [OF inv 1(3) this 1(4)] 1(1,3) True show ?thesis
    by (simp add: drop_transfer_def)
next
  case False
  with inv show ?thesis by (simp add: drop_transfer_def xfer_toks_def)
qed

lemma cells_inv_owner:
  "cells_inv H (add_mset (tok k ow c b) T) = cells_inv H (add_mset (tok k ow' c b) T)"
  by (simp add: cells_inv_def)

lemma transfer_commit_ok:
  assumes inv: "heap_invp H (xfer_toks x + add_mset (hold_tok Charge k) T) P" and "armed k"
  shows "\<exists>H' k' res. transfer_commit x k H = Some (H', k', res) \<and> frame H' = frame H \<and>
    heap_invp H' (add_mset (hold_tok Charge k') T) P \<and> armed k'"
proof (cases "xfer_class x \<noteq> hold_class k \<or> xfer_bytes x \<noteq> hold_bytes k \<or>
    xfer_previous x \<noteq> hold_owner k \<or> \<not> xfer_armed x")
  case True
  obtain H1 where drop: "drop_transfer x H = Some H1" "frame H1 = frame H"
    "heap_invp H1 (add_mset (hold_tok Charge k) T) P"
    using drop_transfer_ok [OF inv] by blast
  have keep: "heap_invp H (add_mset (hold_tok Charge k) T) P" if "\<not> xfer_armed x"
    using inv that by (simp add: xfer_toks_def)
  show ?thesis
  proof (cases "xfer_class x \<noteq> hold_class k \<or> xfer_bytes x \<noteq> hold_bytes k \<or> xfer_previous x \<noteq> hold_owner k")
    case True
    with drop \<open>armed k\<close> show ?thesis by (simp add: transfer_commit_def)
  next
    case same: False
    with True have "\<not> xfer_armed x" by simp
    with same keep \<open>armed k\<close> show ?thesis by (simp add: transfer_commit_def)
  qed
next
  case False
  let ?k = "k\<lparr>hold_owner := xfer_owner x\<rparr>"
  let ?x = "tok Transfer (xfer_owner x) (hold_class k) (hold_bytes k)"
  have x: "xfer_toks x = {#?x#}" using False by (simp add: xfer_toks_def)
  have cells: "cells_inv H (add_mset (hold_tok Charge k) T)"
    using inv unfolding heap_invp_def cells_inv_xfer by blast
  have "domains_inv H (xfer_toks x + add_mset (hold_tok Charge k) T)"
    using inv unfolding heap_invp_def by blast
  then have "domains_inv H (add_mset (hold_tok Charge k) (add_mset ?x T))"
    unfolding x by (simp add: add_mset_commute)
  from release_opt_ok [OF this [unfolded hold_tok_def]] obtain H'
    where 1: "release_opt (hold_owner k) (hold_class k) (hold_bytes k) H = Some H'"
      "cell_part H' = cell_part H" "frame H' = frame H" "domains_inv H' (add_mset ?x T)" by blast
  have "domains_inv H' (add_mset (hold_tok Charge ?k) T)"
    using 1(4) domains_inv_same_weight [of "hold_tok Charge ?k" ?x H' T] by (simp add: hold_tok_def)
  moreover have "cells_inv H' (add_mset (hold_tok Charge ?k) T)"
    using cells cells_inv_cong [OF 1(2)]
      cells_inv_owner [of H Charge "hold_owner k" _ _ T "xfer_owner x"] by (simp add: hold_tok_def)
  ultimately have "heap_invp H' (add_mset (hold_tok Charge ?k) T) P"
    using heap_invp_frame [OF inv 1(3)] by blast
  with 1(1,3) False \<open>armed k\<close> show ?thesis by (simp add: transfer_commit_def)
qed

end
