(* ===== verification/HeapOwners.thy ===== *)
theory HeapOwners
  imports HeapAccounting
begin

text \<open>
  Owner lifetime: creating a \<open>HeapOwner\<close> (lease, control-block charge, allocation) and dropping
  its last reference. The registry's assertion that a released UID slot has no live charge is
  shown to hold, because every live charge pins its owner and the owner pins the lease.
\<close>

definition lease_ms :: "(usize \<times> u32) option \<Rightarrow> (usize \<times> u32) multiset" where
  "lease_ms l = (case l of None \<Rightarrow> {#} | Some x \<Rightarrow> {#x#})"

lemma lease_ms_simps [simp]: "lease_ms None = {#}" "lease_ms (Some x) = {#x#}"
  by (simp_all add: lease_ms_def)

lemma owner_lease_mem:
  assumes "finite (dom (OWNERS H))" "owner_ids H ow = Some (Some l, k)"
  shows "l \<in># owner_leases H"
proof -
  have fin: "finite {ow. \<exists>l k. owner_ids H ow = Some (Some l, k)}"
    by (rule finite_subset [OF _ assms(1)]) (auto simp: owner_ids_def)
  show ?thesis
    unfolding owner_leases_def
    using assms(2) fin by (auto intro!: image_eqI [of _ _ ow])
qed

lemma used_zero: "budget_ok n 0 \<Longrightarrow> used_bytes n = 0"
  by (simp add: budget_ok_def used_of_def unat_eq_zero)

lemma uid_unused:
  assumes inv: "heap_invp H T P" and none: "\<And>v. (s, v) \<notin># owner_leases H"
  shows "used_bytes (total_budget (BUDGETS H s)) = 0"
proof -
  have "uid_slot H (town t) \<noteq> Some s" for t :: token
  proof
    assume "uid_slot H (town t) = Some s"
    then obtain ow v k where "owner_ids H ow = Some (Some (s, v), k)"
      by (auto simp: uid_slot_def bind_eq_Some_conv)
    with inv none owner_lease_mem show False by (metis heap_invp_def)
  qed
  then have "tsum (\<lambda>t. uid_slot H (town t) = Some s) T = 0" by (intro tsum_False) simp
  moreover have "uid_dom_inv (BUDGETS H s) (\<lambda>t. uid_slot H (town t) = Some s) T"
    using inv unfolding heap_invp_def domains_inv_def by blast
  ultimately show ?thesis by (simp add: dom_inv_def domain_ok_def used_zero)
qed

lemma heap_invp_identities:
  assumes "heap_invp H T P" "ids_inv ids (owner_leases H + Q)"
  shows "heap_invp (H\<lparr>IDENTITIES := ids\<rparr>) T Q"
proof -
  let ?H = "H\<lparr>IDENTITIES := ids\<rparr>"
  have ids: "owner_ids ?H = owner_ids H" by (rule ext) (simp add: owner_ids_def)
  then have "uid_slot ?H = uid_slot H" by (intro ext) (simp add: uid_slot_def)
  then have "domains_inv ?H T = domains_inv H T" by (simp add: domains_inv_def)
  moreover have "cells_inv ?H T = cells_inv H T" by (simp add: cells_inv_def)
  ultimately show ?thesis using assms ids by (simp add: heap_invp_def owner_leases_def)
qed

definition ids_frame :: "heap_state \<Rightarrow> bool \<times> (nat \<rightharpoonup> heap_owner)" where
  "ids_frame H = (PUBLISHED H, OWNERS H)"

lemma drop_lease_opt_ok:
  assumes inv: "heap_invp H T (lease_ms l + P)"
  shows "\<exists>H'. drop_lease_opt l H = Some H' \<and> ids_frame H' = ids_frame H \<and> heap_invp H' T P"
proof (cases l)
  case None
  with inv show ?thesis by (simp add: drop_lease_opt_def)
next
  case (Some x)
  obtain s u where x: "x = (s, u)" by fastforce
  let ?A = "owner_leases H + P"
  obtain n where n: "n = Suc (count ?A (s, u))" by blast
  have ids: "ids_inv (IDENTITIES H) (add_mset (s, u) ?A)"
    using inv Some x by (simp add: heap_invp_def)
  note D = ids_inv_drop [OF ids, folded n]
  let ?ids = "(IDENTITIES H)[s := if n = 1 then None else Some (u, n - 1)]"
  have "used_bytes (total_budget (BUDGETS H s)) = 0" if "n = 1"
  proof (rule uid_unused [OF inv])
    show "(s, v) \<notin># owner_leases H" for v
    proof
      assume "(s, v) \<in># owner_leases H"
      then have "(s, v) \<in># ?A" by simp
      from D(3) [OF this] that show False by contradiction
    qed
  qed
  then have "drop_lease_opt l H = Some (H\<lparr>IDENTITIES := ?ids\<rparr>)"
    using D(1) Some x zero_less_Suc [of "count ?A (s, u)", folded n]
    by (auto simp: drop_lease_opt_def uid_lease_drop_def)
  with heap_invp_identities [OF inv D(4)] show ?thesis by (auto simp: ids_frame_def)
qed

lemma uid_acquire_ok:
  assumes inv: "heap_invp H T P"
  shows "\<exists>H' r. uid_acquire u H = (H', r) \<and> ids_frame H' = ids_frame H \<and>
    heap_invp H' T (lease_ms (case r of Inl _ \<Rightarrow> None | Inr l \<Rightarrow> Some l) + P) \<and>
    (\<forall>l. r = Ok l \<longrightarrow> snd l = u)"
proof (cases "uid_slot_for u (IDENTITIES H)")
  case None
  with inv show ?thesis by (simp add: uid_acquire_def)
next
  case (Some s)
  let ?n = "case IDENTITIES H ! s of None \<Rightarrow> 0 | Some (_, live) \<Rightarrow> live"
  show ?thesis
  proof (cases "checked_add_usize ?n 1")
    case None
    with Some inv show ?thesis by (simp add: uid_acquire_def)
  next
    case n: (Some n)
    then have n': "n = ?n + 1" by (simp add: checked)
    have "ids_inv (IDENTITIES H) (owner_leases H + P)" using inv by (simp add: heap_invp_def)
    from ids_inv_acquire [OF this Some refl] n'
    have "heap_invp (H\<lparr>IDENTITIES := (IDENTITIES H)[s := Some (u, n)]\<rparr>) T (add_mset (s, u) P)"
      by (intro heap_invp_identities [OF inv]) simp
    with Some n show ?thesis by (simp add: uid_acquire_def ids_frame_def)
  qed
qed

section \<open>Adding and removing an owner\<close>

lemma owner_leases_upd:
  assumes fin: "finite (dom (OWNERS H))" and "OWNERS H ow = None" "OWNERS H' = (OWNERS H)(ow \<mapsto> r)"
  shows "owner_leases H' = lease_ms (owner_uid r) + owner_leases H"
proof -
  let ?S = "{ow. \<exists>l k. owner_ids H ow = Some (Some l, k)}"
  have fin': "finite ?S" by (rule finite_subset [OF _ fin]) (auto simp: owner_ids_def)
  have ow: "ow \<notin> ?S" using assms by (auto simp: owner_ids_def)
  have same: "owner_ids H' ow' = owner_ids H ow'" if "ow' \<noteq> ow" for ow'
    using assms that by (simp add: owner_ids_def)
  have here: "owner_ids H' ow = Some (owner_uid r, allocation_charge r)"
    using assms by (simp add: owner_ids_def)
  have img: "{#the (fst (the (owner_ids H' x))). x \<in># mset_set ?S#} = owner_leases H"
    unfolding owner_leases_def
  proof (rule image_mset_cong)
    fix x assume "x \<in># mset_set ?S"
    with ow fin' have "x \<noteq> ow" by auto
    then show "the (fst (the (owner_ids H' x))) = the (fst (the (owner_ids H x)))" using same by simp
  qed
  show ?thesis
  proof (cases "owner_uid r")
    case None
    then have "{ow. \<exists>l k. owner_ids H' ow = Some (Some l, k)} = ?S"
      by (intro set_eqI, case_tac "x = ow") (use same here ow None in auto)
    with None img show ?thesis by (simp add: owner_leases_def)
  next
    case (Some l)
    then have "{ow. \<exists>l k. owner_ids H' ow = Some (Some l, k)} = insert ow ?S"
      by (intro set_eqI, case_tac "x = ow") (use same here Some in auto)
    with Some img here ow fin' show ?thesis by (simp add: owner_leases_def)
  qed
qed

lemma dom_inv_none:
  assumes "\<And>t. t \<in># T \<Longrightarrow> \<not> P t"
  shows "dom_inv L lim d P T = dom_inv L lim d P {#}"
  by (rule dom_inv_weight) (use assms in \<open>auto intro!: tsum_False\<close>)

lemma owner_dom_inv_new: "owner_dom_inv owner_budget_new P {#}"
  using domain_ok_new(1)
  by (simp add: dom_inv_def domain_limits_def owner_budget_new_def ns_byte_budget_new_def)

lemma uid_slot_upd_other:
  assumes "\<And>ow'. ow' \<noteq> ow \<Longrightarrow> OWNERS H' ow' = OWNERS H ow'" "own \<noteq> Some ow"
  shows "uid_slot H' own = uid_slot H own"
  using assms by (cases own) (auto simp: uid_slot_def owner_ids_def)

lemma add_owner_inv:
  assumes inv: "heap_invp H T (lease_ms l + P)" and fresh: "OWNERS H ow = None"
    and H'_def: "H' = H\<lparr>OWNERS := (OWNERS H)(ow \<mapsto>
      \<lparr>owner_uid = l, owner_budget = owner_budget_new, allocation_charge = k\<rparr>)\<rparr>"
  shows "heap_invp H' T P"
proof -
  let ?r = "\<lparr>owner_uid = l, owner_budget = owner_budget_new, allocation_charge = k\<rparr>"
  have fin: "finite (dom (OWNERS H))" and doms: "domains_inv H T" and cells: "cells_inv H T"
    and ids: "ids_inv (IDENTITIES H) (owner_leases H + (lease_ms l + P))"
    using inv by (simp_all add: heap_invp_def)
  have toks: "town t \<noteq> Some ow" if "t \<in># T" for t
    using doms fresh that unfolding domains_inv_def by blast
  have "owner_leases H' = lease_ms l + owner_leases H"
    using owner_leases_upd [OF fin fresh, of H' ?r] by (simp add: H'_def)
  moreover have "uid_slot H' (town t) = uid_slot H (town t)" if "t \<in># T" for t
    by (rule uid_slot_upd_other [of ow]) (use toks that in \<open>auto simp: H'_def\<close>)
  then have "uid_dom_inv d (\<lambda>t. uid_slot H' (town t) = Some s) T =
      uid_dom_inv d (\<lambda>t. uid_slot H (town t) = Some s) T" for d s
    by (intro dom_inv_cong) simp
  moreover have "owner_dom_inv owner_budget_new (\<lambda>t. town t = Some ow) T"
    using dom_inv_none [of T "\<lambda>t. town t = Some ow"] toks owner_dom_inv_new by simp
  ultimately have "domains_inv H' T" and "owner_leases H' + P = owner_leases H + (lease_ms l + P)"
    using doms by (auto simp: domains_inv_def H'_def)
  moreover have "cells_inv H' T" using cells by (simp add: cells_inv_def H'_def)
  ultimately show ?thesis using fin ids by (simp add: heap_invp_def) (simp add: H'_def add.assoc)
qed

lemma remove_owner_inv:
  assumes inv: "heap_invp H T P" and r: "OWNERS H ow = Some r"
    and toks: "\<And>t. t \<in># T \<Longrightarrow> town t \<noteq> Some ow"
    and H'_def: "H' = H\<lparr>OWNERS := (OWNERS H)(ow := None)\<rparr>"
  shows "heap_invp H' T (lease_ms (owner_uid r) + P)"
proof -
  have fin: "finite (dom (OWNERS H))" and doms: "domains_inv H T" and cells: "cells_inv H T"
    and ids: "ids_inv (IDENTITIES H) (owner_leases H + P)"
    using inv by (simp_all add: heap_invp_def)
  have fin': "finite (dom (OWNERS H'))" using fin by (simp add: H'_def)
  have "owner_leases H = lease_ms (owner_uid r) + owner_leases H'"
    by (rule owner_leases_upd [OF fin']) (use r in \<open>auto simp: H'_def\<close>)
  moreover have "uid_slot H' (town t) = uid_slot H (town t)" if "t \<in># T" for t
    by (rule uid_slot_upd_other [of ow]) (use toks that in \<open>auto simp: H'_def\<close>)
  then have "uid_dom_inv d (\<lambda>t. uid_slot H' (town t) = Some s) T =
      uid_dom_inv d (\<lambda>t. uid_slot H (town t) = Some s) T" for d s
    by (intro dom_inv_cong) simp
  then have "domains_inv H' T"
    using doms toks by (auto simp: domains_inv_def H'_def split: if_splits)
  moreover have "cells_inv H' T" using cells by (simp add: cells_inv_def H'_def)
  ultimately show ?thesis using fin' ids
    by (simp add: heap_invp_def ac_simps) (simp add: H'_def ac_simps)
qed

section \<open>Creating and dropping owners\<close>

lemma owner_ids_None: "owner_ids H ow = None \<longleftrightarrow> OWNERS H ow = None"
  by (simp add: owner_ids_def)

lemma frame_owner_ids: "frame H' = frame H \<Longrightarrow> owner_ids H' = owner_ids H"
  by (simp add: frame_def)

lemma ids_frame_owner_ids: "ids_frame H' = ids_frame H \<Longrightarrow> owner_ids H' = owner_ids H"
  by (rule ext) (simp add: ids_frame_def owner_ids_def)

lemma owner_ids_add:
  "owner_ids (H\<lparr>OWNERS := (OWNERS H)(ow \<mapsto> r)\<rparr>) =
     (owner_ids H)(ow \<mapsto> (owner_uid r, allocation_charge r))"
  by (rule ext) (simp add: owner_ids_def)

lemma owner_ids_remove:
  "owner_ids (H\<lparr>OWNERS := (OWNERS H)(ow := None)\<rparr>) = (owner_ids H)(ow := None)"
  by (rule ext) (simp add: owner_ids_def)

text \<open>
  A failed construction leaves the invariant with the same tokens and no pending lease; a
  successful one adds the owner and the token of its control-block charge.
\<close>

lemma try_new_with_uid_ok:
  assumes inv: "heap_invp H T (lease_ms l + P)" and fresh: "OWNERS H ow = None"
    and bytes: "\<And>n. bytes = Ok n \<Longrightarrow> n \<le> usize_max"
  shows "\<exists>H' r. try_new_with_uid l bytes arc_ok ow H = Some (H', r) \<and>
    (case r of
       Inl _ \<Rightarrow> heap_invp H' T P \<and> owner_ids H' = owner_ids H
     | Inr ow' \<Rightarrow> ow' = ow \<and> (\<exists>k. owner_ids H' = (owner_ids H)(ow \<mapsto> (l, k)) \<and>
         armed k \<and> hold_owner k = None \<and> heap_invp H' (add_mset (hold_tok Charge k) T) P))"
proof -
  have fail: "\<exists>H'. drop_lease_opt l H1 = Some H' \<and> heap_invp H' T1 P \<and> owner_ids H' = owner_ids H"
    if inv1: "heap_invp H1 T1 (lease_ms l + P)" and fr1: "frame H1 = frame H" for H1 T1
  proof -
    obtain H' where "drop_lease_opt l H1 = Some H'" "ids_frame H' = ids_frame H1" "heap_invp H' T1 P"
      using drop_lease_opt_ok [OF inv1] by blast
    with ids_frame_owner_ids [of H' H1] frame_owner_ids [OF fr1] show ?thesis by simp
  qed
  show ?thesis
  proof (cases bytes)
    case (Inl e)
    with fail [OF inv refl] show ?thesis by (auto simp: try_new_with_uid_def Let_def)
  next
    case (Inr n)
    have "owner_live H None" by (simp add: owner_live_def)
    from try_reserve_owned_ok [OF inv this bytes [OF Inr], of CoreProcess]
    obtain H1 r1 where 1: "try_reserve_owned CoreProcess n None H = Some (H1, r1)" "frame H1 = frame H"
      "heap_invp H1 (ok_toks (tok Reservation None CoreProcess n) r1 + T) (lease_ms l + P)"
      and r1: "\<And>h. r1 = Ok h \<Longrightarrow>
        h = \<lparr>hold_owner = None, hold_class = CoreProcess, hold_bytes = n, armed = True\<rparr>" by blast
    show ?thesis
    proof (cases r1)
      case (Inl e)
      with 1 fail [of H1 T] show ?thesis
        using \<open>bytes = Inr n\<close> by (auto simp: try_new_with_uid_def Let_def)
    next
      case h: (Inr h)
      note h' = r1 [OF h]
      have "heap_invp H1 (add_mset (hold_tok Reservation h) T) (lease_ms l + P)"
        using 1(3) h h' by (simp add: hold_tok_def)
      from reservation_commit_ok [OF this] obtain H2
        where 2: "reservation_commit h H1 = Some (H2, Ok h)" "frame H2 = frame H1"
          "heap_invp H2 (add_mset (hold_tok Charge h) T) (lease_ms l + P)" using h' by auto
      have ids2: "owner_ids H2 = owner_ids H" using frame_owner_ids [of H2 H] 1(2) 2(2) by simp
      then have fresh2: "OWNERS H2 ow = None" using fresh by (metis owner_ids_None)
      show ?thesis
      proof (cases arc_ok)
        case True
        let ?H = "H2\<lparr>OWNERS := (OWNERS H2)(ow \<mapsto>
            \<lparr>owner_uid = l, owner_budget = owner_budget_new, allocation_charge = h\<rparr>)\<rparr>"
        have "owner_ids ?H = (owner_ids H)(ow \<mapsto> (l, h))" by (simp add: owner_ids_add ids2)
        moreover have "armed h" "hold_owner h = None" using h' by simp_all
        moreover have "heap_invp ?H (add_mset (hold_tok Charge h) T) P"
          by (rule add_owner_inv [OF 2(3) fresh2 refl])
        moreover have "try_new_with_uid l bytes arc_ok ow H = Some (?H, Ok ow)"
          using True Inr 1(1) h 2(1) by (simp add: try_new_with_uid_def Let_def)
        ultimately show ?thesis by (intro exI [of _ ?H] exI [of _ "Ok ow"]) auto
      next
        case False
        obtain H3 where 3: "drop_lease_opt l H2 = Some H3" "ids_frame H3 = ids_frame H2"
          "heap_invp H3 (add_mset (hold_tok Charge h) T) P" using drop_lease_opt_ok [OF 2(3)] by blast
        from drop_charge_ok [OF 3(3)] h' obtain H4 where 4: "drop_charge h H3 = Some H4"
          "frame H4 = frame H3" "heap_invp H4 T P" by auto
        have "owner_ids H4 = owner_ids H"
          using frame_owner_ids [OF 4(2)] ids_frame_owner_ids [OF 3(2)] ids2 by simp
        then show ?thesis
          using False Inr 1(1) h 2(1) 3(1) 4(1,3) by (simp add: try_new_with_uid_def Let_def)
      qed
    qed
  qed
qed

lemma try_new_for_uid_ok:
  assumes inv: "heap_inv H T" and fresh: "OWNERS H ow = None"
    and bytes: "\<And>n. bytes = Ok n \<Longrightarrow> n \<le> usize_max"
  shows "\<exists>H' r. try_new_for_uid u bytes arc_ok ow H = Some (H', r) \<and>
    (case r of
       Inl _ \<Rightarrow> heap_inv H' T \<and> owner_ids H' = owner_ids H
     | Inr ow' \<Rightarrow> ow' = ow \<and> (\<exists>s k. owner_ids H' = (owner_ids H)(ow \<mapsto> (Some (s, u), k)) \<and>
         armed k \<and> hold_owner k = None \<and> heap_inv H' (add_mset (hold_tok Charge k) T)))"
proof -
  obtain H1 r where 1: "uid_acquire u H = (H1, r)" "ids_frame H1 = ids_frame H"
    "heap_invp H1 T (lease_ms (case r of Inl _ \<Rightarrow> None | Inr l \<Rightarrow> Some l) + {#})"
    "\<And>l. r = Ok l \<Longrightarrow> snd l = u" using uid_acquire_ok [OF inv, of u] by blast
  note ids = ids_frame_owner_ids [OF 1(2)]
  show ?thesis
  proof (cases r)
    case (Inl e)
    with 1 ids show ?thesis by (simp add: try_new_for_uid_def)
  next
    case (Inr l)
    have "OWNERS H1 ow = None" using 1(2) fresh by (simp add: ids_frame_def)
    from try_new_with_uid_ok [OF 1(3) [unfolded Inr sum.case] this bytes, where arc_ok = arc_ok]
    obtain H' r' where 2: "try_new_with_uid (Some l) bytes arc_ok ow H1 = Some (H', r')"
      "case r' of Inl _ \<Rightarrow> heap_inv H' T \<and> owner_ids H' = owner_ids H1
       | Inr ow' \<Rightarrow> ow' = ow \<and> (\<exists>k. owner_ids H' = (owner_ids H1)(ow \<mapsto> (Some l, k)) \<and>
         armed k \<and> hold_owner k = None \<and> heap_inv H' (add_mset (hold_tok Charge k) T))" by blast
    obtain s where "l = (s, u)" using 1(4) [OF Inr] by (cases l) auto
    with 1(1) Inr 2 ids show ?thesis by (cases r') (auto simp: try_new_for_uid_def)
  qed
qed

lemma drop_owner_ok:
  assumes inv: "heap_inv H (add_mset (hold_tok Charge (allocation_charge r)) T)"
    and r: "OWNERS H ow = Some r" "armed (allocation_charge r)"
    and toks: "\<And>t. t \<in># add_mset (hold_tok Charge (allocation_charge r)) T \<Longrightarrow> town t \<noteq> Some ow"
  shows "\<exists>H'. drop_owner ow H = Some H' \<and> heap_inv H' T \<and> owner_ids H' = (owner_ids H)(ow := None)"
proof -
  let ?H = "H\<lparr>OWNERS := (OWNERS H)(ow := None)\<rparr>"
  have "heap_invp ?H (add_mset (hold_tok Charge (allocation_charge r)) T) (lease_ms (owner_uid r) + {#})"
    by (rule remove_owner_inv [OF inv r(1) toks refl])
  from drop_lease_opt_ok [OF this] obtain H1 where 1: "drop_lease_opt (owner_uid r) ?H = Some H1"
    "heap_inv H1 (add_mset (hold_tok Charge (allocation_charge r)) T)" "ids_frame H1 = ids_frame ?H"
    by blast
  obtain H2 where "drop_charge (allocation_charge r) H1 = Some H2" "frame H2 = frame H1" "heap_inv H2 T"
    using drop_charge_ok [OF 1(2) r(2)] by blast
  with 1(1) r(1) frame_owner_ids [of H2 H1] ids_frame_owner_ids [OF 1(3)] show ?thesis
    by (simp add: drop_owner_def owner_ids_remove)
qed

end
