(* ===== verification/HeapSystem.thy ===== *)
theory HeapSystem
  imports HeapOwners
begin

text \<open>
  The heap ledger as a transition system. A state is the ledger together with the multiset of
  RAII values the rest of the kernel holds; an operation is one call into
  \<^verbatim>\<open>heap_admission.rs\<close>, enabled when Rust's ownership lets the caller make it: a value is
  consumed or borrowed only if it is held, an owner is named only while it is alive, and its
  destructor runs only when no held value refers to it. \<open>heap_exec\<close> runs the operation; \<open>None\<close> is a
  panic. The theorems range over every reachable state.
\<close>

datatype raii =
    LiveReservation heap_reservation
  | LiveCharge heap_charge
  | LiveTransfer heap_owner_transfer

type_synonym heap_sys = "heap_state \<times> raii multiset"

datatype heap_op =
    OpPublish
  | OpReserve heap_class usize "nat option"
  | OpResize heap_reservation usize
  | OpCommit heap_reservation
  | OpDropReservation heap_reservation
  | OpDropCharge heap_charge
  | OpAbsorb heap_charge heap_reservation
  | OpRelease heap_charge usize
  | OpPrepareTransfer heap_charge "nat option"
  | OpCommitTransfer heap_owner_transfer heap_charge
  | OpDropTransfer heap_owner_transfer
  | OpNewOwner u32 "heap_admission_error + usize" bool nat
  | OpDropOwner nat

fun raii_owners :: "raii \<Rightarrow> nat option set" where
  "raii_owners (LiveReservation r) = {hold_owner r}"
| "raii_owners (LiveCharge k) = {hold_owner k}"
| "raii_owners (LiveTransfer x) = {xfer_owner x, xfer_previous x}"

fun heap_enabled :: "heap_op \<Rightarrow> heap_sys \<Rightarrow> bool" where
  "heap_enabled OpPublish (H, L) \<longleftrightarrow> True"
| "heap_enabled (OpReserve c b own) (H, L) \<longleftrightarrow> b \<le> usize_max \<and> owner_live H own"
| "heap_enabled (OpResize r n) (H, L) \<longleftrightarrow> LiveReservation r \<in># L \<and> n \<le> usize_max"
| "heap_enabled (OpCommit r) (H, L) \<longleftrightarrow> LiveReservation r \<in># L"
| "heap_enabled (OpDropReservation r) (H, L) \<longleftrightarrow> LiveReservation r \<in># L"
| "heap_enabled (OpDropCharge k) (H, L) \<longleftrightarrow> LiveCharge k \<in># L"
| "heap_enabled (OpAbsorb k r) (H, L) \<longleftrightarrow> LiveCharge k \<in># L \<and> LiveReservation r \<in># L"
| "heap_enabled (OpRelease k b) (H, L) \<longleftrightarrow> LiveCharge k \<in># L"
| "heap_enabled (OpPrepareTransfer k own) (H, L) \<longleftrightarrow> LiveCharge k \<in># L \<and> owner_live H own"
| "heap_enabled (OpCommitTransfer x k) (H, L) \<longleftrightarrow> LiveTransfer x \<in># L \<and> LiveCharge k \<in># L"
| "heap_enabled (OpDropTransfer x) (H, L) \<longleftrightarrow> LiveTransfer x \<in># L"
| "heap_enabled (OpNewOwner u bytes ok ow) (H, L) \<longleftrightarrow>
     OWNERS H ow = None \<and> (\<forall>x\<in>#L. Some ow \<notin> raii_owners x) \<and>
     (case bytes of Inl _ \<Rightarrow> True | Inr n \<Rightarrow> n \<le> usize_max)"
| "heap_enabled (OpDropOwner ow) (H, L) \<longleftrightarrow>
     OWNERS H ow \<noteq> None \<and> (\<forall>x\<in>#L. Some ow \<notin> raii_owners x)"

fun heap_held :: "('a \<Rightarrow> raii) \<Rightarrow> 'e + 'a \<Rightarrow> raii multiset" where
  "heap_held f (Inl _) = {#}"
| "heap_held f (Inr x) = {#f x#}"

fun heap_exec :: "heap_op \<Rightarrow> heap_sys \<Rightarrow> heap_sys option" where
  "heap_exec OpPublish (H, L) = map_option (\<lambda>H'. (H', L)) (publish H)"
| "heap_exec (OpReserve c b own) (H, L) =
     map_option (\<lambda>(H', r). (H', heap_held LiveReservation r + L)) (try_reserve_owned c b own H)"
| "heap_exec (OpResize r n) (H, L) =
     map_option (\<lambda>(H', r', _). (H', add_mset (LiveReservation r') (L - {#LiveReservation r#})))
       (reservation_resize r n H)"
| "heap_exec (OpCommit r) (H, L) =
     map_option (\<lambda>(H', k). (H', heap_held LiveCharge k + (L - {#LiveReservation r#})))
       (reservation_commit r H)"
| "heap_exec (OpDropReservation r) (H, L) =
     map_option (\<lambda>H'. (H', L - {#LiveReservation r#})) (drop_reservation r H)"
| "heap_exec (OpDropCharge k) (H, L) =
     map_option (\<lambda>H'. (H', L - {#LiveCharge k#})) (drop_charge k H)"
| "heap_exec (OpAbsorb k r) (H, L) =
     map_option (\<lambda>(H', k', _).
         (H', add_mset (LiveCharge k') (L - {#LiveCharge k#} - {#LiveReservation r#})))
       (charge_absorb k r H)"
| "heap_exec (OpRelease k b) (H, L) =
     map_option (\<lambda>(H', k', _). (H', add_mset (LiveCharge k') (L - {#LiveCharge k#})))
       (release_after_deallocation k b H)"
| "heap_exec (OpPrepareTransfer k own) (H, L) =
     map_option (\<lambda>(H', x). (H', heap_held LiveTransfer x + L)) (prepare_owner_transfer k own H)"
| "heap_exec (OpCommitTransfer x k) (H, L) =
     map_option (\<lambda>(H', k', _).
         (H', add_mset (LiveCharge k') (L - {#LiveTransfer x#} - {#LiveCharge k#})))
       (transfer_commit x k H)"
| "heap_exec (OpDropTransfer x) (H, L) =
     map_option (\<lambda>H'. (H', L - {#LiveTransfer x#})) (drop_transfer x H)"
| "heap_exec (OpNewOwner u bytes ok ow) (H, L) =
     map_option (\<lambda>(H', _). (H', L)) (try_new_for_uid u bytes ok ow H)"
| "heap_exec (OpDropOwner ow) (H, L) = map_option (\<lambda>H'. (H', L)) (drop_owner ow H)"

inductive heap_reachable :: "heap_sys \<Rightarrow> bool" where
  boot: "heap_reachable (heap_boot, {#})"
| step: "heap_reachable s \<Longrightarrow> heap_enabled op s \<Longrightarrow> heap_exec op s = Some s' \<Longrightarrow> heap_reachable s'"

section \<open>The system invariant\<close>

fun raii_toks :: "raii \<Rightarrow> token multiset" where
  "raii_toks (LiveReservation r) = {#hold_tok Reservation r#}"
| "raii_toks (LiveCharge k) = {#hold_tok Charge k#}"
| "raii_toks (LiveTransfer x) = xfer_toks x"

fun raii_armed :: "raii \<Rightarrow> bool" where
  "raii_armed (LiveReservation r) = armed r"
| "raii_armed (LiveCharge k) = armed k"
| "raii_armed (LiveTransfer x) = True"

definition live_toks :: "raii multiset \<Rightarrow> token multiset" where
  "live_toks L = (\<Sum>x\<in>#L. raii_toks x)"

definition owner_toks :: "heap_state \<Rightarrow> token multiset" where
  "owner_toks H =
     {#hold_tok Charge (snd (the (owner_ids H ow))). ow \<in># mset_set (dom (owner_ids H))#}"

definition sys_inv :: "heap_sys \<Rightarrow> bool" where
  "sys_inv s \<longleftrightarrow>
     (case s of (H, L) \<Rightarrow>
        heap_inv H (live_toks L + owner_toks H) \<and>
        (\<forall>x\<in>#L. raii_armed x) \<and>
        (\<forall>ow l k. owner_ids H ow = Some (l, k) \<longrightarrow> armed k \<and> hold_owner k = None))"

lemma live_toks_simps [simp]:
  "live_toks {#} = {#}" "live_toks (add_mset x L) = raii_toks x + live_toks L"
  "live_toks (L + M) = live_toks L + live_toks M"
  by (simp_all add: live_toks_def)

lemma owner_toks_frame: "frame H' = frame H \<Longrightarrow> owner_toks H' = owner_toks H"
  by (simp add: owner_toks_def frame_def)

lemma owner_toks_ids: "owner_ids H' = owner_ids H \<Longrightarrow> owner_toks H' = owner_toks H"
  by (simp add: owner_toks_def)

lemma sys_inv_frame:
  assumes "sys_inv (H, L)" "frame H' = frame H" "heap_inv H' (live_toks L' + owner_toks H)"
    and "\<forall>x\<in>#L'. raii_armed x"
  shows "sys_inv (H', L')"
  using assms owner_toks_frame [OF assms(2)] by (simp add: sys_inv_def frame_def)

lemma sys_inv_heap_inv: "sys_inv (H, L) \<Longrightarrow> heap_inv H (live_toks L + owner_toks H)"
  by (simp add: sys_inv_def)

lemma heap_inv_bytes_le:
  assumes "heap_inv H (add_mset t T)" "tkind t = Charge"
  shows "tbytes t \<le> usize_max"
proof -
  have "tbytes t \<le> ADMITTED_HEAP_BYTES"
    using assms by (auto simp: heap_invp_def cells_inv_def cell_ok_def)
  then show ?thesis by (simp add: ADMITTED_HEAP_BYTES_value usize_max_def)
qed

lemma owner_toks_upd:
  assumes fin: "finite (dom (OWNERS H))" and new: "owner_ids H ow = None"
    and upd: "owner_ids H' = (owner_ids H)(ow \<mapsto> (l, k))"
  shows "owner_toks H' = add_mset (hold_tok Charge k) (owner_toks H)"
proof -
  let ?S = "dom (owner_ids H)"
  have fin': "finite ?S" using fin by (simp add: dom_owner_ids)
  have ow: "ow \<notin> ?S" using new by auto
  have "{#hold_tok Charge (snd (the (owner_ids H' x))). x \<in># mset_set ?S#} = owner_toks H"
    unfolding owner_toks_def
  proof (rule image_mset_cong)
    fix x assume "x \<in># mset_set ?S"
    with ow fin' have "x \<noteq> ow" by auto
    then show "hold_tok Charge (snd (the (owner_ids H' x))) = hold_tok Charge (snd (the (owner_ids H x)))"
      by (simp add: upd)
  qed
  with ow fin' show ?thesis by (simp add: owner_toks_def upd)
qed

lemma live_member:
  assumes "x \<in># L"
  shows "live_toks L + T = raii_toks x + (live_toks (L - {#x#}) + T)"
  using assms by (metis add.assoc insert_DiffM live_toks_simps(2))

lemma armed_member: "sys_inv (H, L) \<Longrightarrow> x \<in># L \<Longrightarrow> raii_armed x"
  by (auto simp: sys_inv_def)

lemma armed_rest: "sys_inv (H, L) \<Longrightarrow> \<forall>x\<in>#L - M. raii_armed x"
  by (auto simp: sys_inv_def dest: in_diffD)

lemma sys_inv_boot: "sys_inv (heap_boot, {#})"
proof -
  have "owner_ids heap_boot = Map.empty" by (rule ext) (simp add: owner_ids_def heap_boot_def)
  then show ?thesis using heap_inv_boot by (simp add: sys_inv_def owner_toks_def)
qed

section \<open>One operation at a time\<close>

lemma exec_publish:
  assumes "sys_inv (H, L)"
  shows "\<exists>s'. heap_exec OpPublish (H, L) = Some s' \<and> sys_inv s'"
proof -
  let ?H = "H\<lparr>PUBLISHED := True\<rparr>"
  have ids: "owner_ids ?H = owner_ids H" by (rule ext) (simp add: owner_ids_def)
  have dp: "dom_part ?H = dom_part H" "cell_part ?H = cell_part H" by (simp_all add: part_defs)
  have "heap_inv ?H (live_toks L + owner_toks H)"
    using sys_inv_heap_inv [OF assms] cells_inv_cong [OF dp(2)] domains_inv_dom_part [OF dp(1)] ids
    by (simp add: heap_invp_def owner_leases_def)
  then have "sys_inv (?H, L)" using assms owner_toks_ids [OF ids] ids by (simp add: sys_inv_def)
  then show ?thesis by (simp add: publish_def heap_partition_defs)
qed

lemma exec_reserve:
  assumes inv: "sys_inv (H, L)" and "b \<le> usize_max" "owner_live H own"
  shows "\<exists>s'. heap_exec (OpReserve c b own) (H, L) = Some s' \<and> sys_inv s'"
proof -
  obtain H' r where 1: "try_reserve_owned c b own H = Some (H', r)" "frame H' = frame H"
    "heap_inv H' (ok_toks (tok Reservation own c b) r + (live_toks L + owner_toks H))"
    "\<forall>h. r = Ok h \<longrightarrow> h = \<lparr>hold_owner = own, hold_class = c, hold_bytes = b, armed = True\<rparr>"
    using try_reserve_owned_ok [OF sys_inv_heap_inv [OF inv] assms(3,2), of c] by blast
  have "sys_inv (H', heap_held LiveReservation r + L)"
    by (rule sys_inv_frame [OF inv 1(2)])
      (use 1(3,4) inv in \<open>cases r; simp add: sys_inv_def hold_tok_def\<close>)+
  with 1(1) show ?thesis by simp
qed

lemma exec_resize:
  assumes inv: "sys_inv (H, L)" and r: "LiveReservation r \<in># L" and n: "n \<le> usize_max"
  shows "\<exists>s'. heap_exec (OpResize r n) (H, L) = Some s' \<and> sys_inv s'"
proof -
  let ?L = "L - {#LiveReservation r#}"
  have "armed r" using armed_member [OF inv r] by simp
  obtain H' r' res where 1: "reservation_resize r n H = Some (H', r', res)" "frame H' = frame H"
    "heap_inv H' (add_mset (hold_tok Reservation r') (live_toks ?L + owner_toks H))"
    "r' = (case res of Inl _ \<Rightarrow> r | Inr _ \<Rightarrow> r\<lparr>hold_bytes := n\<rparr>)"
    using reservation_resize_ok [OF _ \<open>armed r\<close> n, of H "live_toks ?L + owner_toks H" "{#}"]
      sys_inv_heap_inv [OF inv] live_member [OF r, of "owner_toks H"] by auto
  have "armed r'" using 1(4) \<open>armed r\<close> by (cases res) auto
  then have "sys_inv (H', add_mset (LiveReservation r') ?L)"
    by (intro sys_inv_frame [OF inv 1(2)]) (use 1(3) armed_rest [OF inv] in auto)
  with 1(1) show ?thesis by simp
qed

lemma exec_commit:
  assumes inv: "sys_inv (H, L)" and r: "LiveReservation r \<in># L"
  shows "\<exists>s'. heap_exec (OpCommit r) (H, L) = Some s' \<and> sys_inv s'"
proof -
  let ?L = "L - {#LiveReservation r#}"
  obtain H' where 1: "reservation_commit r H = Some (H', Ok (r\<lparr>armed := True\<rparr>))" "frame H' = frame H"
    "heap_inv H' (add_mset (hold_tok Charge r) (live_toks ?L + owner_toks H))"
    using reservation_commit_ok [of H r "live_toks ?L + owner_toks H" "{#}"]
      sys_inv_heap_inv [OF inv] live_member [OF r, of "owner_toks H"] by auto
  have "sys_inv (H', add_mset (LiveCharge (r\<lparr>armed := True\<rparr>)) ?L)"
    by (rule sys_inv_frame [OF inv 1(2)])
      (use 1(3) armed_rest [OF inv] in \<open>auto simp: hold_tok_def\<close>)
  with 1(1) show ?thesis by simp
qed

lemma exec_drop_reservation:
  assumes inv: "sys_inv (H, L)" and r: "LiveReservation r \<in># L"
  shows "\<exists>s'. heap_exec (OpDropReservation r) (H, L) = Some s' \<and> sys_inv s'"
proof -
  let ?L = "L - {#LiveReservation r#}"
  obtain H' where 1: "drop_reservation r H = Some H'" "frame H' = frame H"
    "heap_inv H' (live_toks ?L + owner_toks H)"
    using drop_reservation_ok [of H r "live_toks ?L + owner_toks H" "{#}"] armed_member [OF inv r]
      sys_inv_heap_inv [OF inv] live_member [OF r, of "owner_toks H"] by auto
  have "sys_inv (H', ?L)" by (rule sys_inv_frame [OF inv 1(2,3) armed_rest [OF inv]])
  with 1(1) show ?thesis by simp
qed

lemma exec_drop_charge:
  assumes inv: "sys_inv (H, L)" and k: "LiveCharge k \<in># L"
  shows "\<exists>s'. heap_exec (OpDropCharge k) (H, L) = Some s' \<and> sys_inv s'"
proof -
  let ?L = "L - {#LiveCharge k#}"
  obtain H' where 1: "drop_charge k H = Some H'" "frame H' = frame H"
    "heap_inv H' (live_toks ?L + owner_toks H)"
    using drop_charge_ok [of H k "live_toks ?L + owner_toks H" "{#}"] armed_member [OF inv k]
      sys_inv_heap_inv [OF inv] live_member [OF k, of "owner_toks H"] by auto
  have "sys_inv (H', ?L)" by (rule sys_inv_frame [OF inv 1(2,3) armed_rest [OF inv]])
  with 1(1) show ?thesis by simp
qed

lemma exec_absorb:
  assumes inv: "sys_inv (H, L)" and k: "LiveCharge k \<in># L" and r: "LiveReservation r \<in># L"
  shows "\<exists>s'. heap_exec (OpAbsorb k r) (H, L) = Some s' \<and> sys_inv s'"
proof -
  let ?L = "L - {#LiveCharge k#} - {#LiveReservation r#}"
  have r': "LiveReservation r \<in># L - {#LiveCharge k#}" using r by (simp add: in_diff_count)
  have toks: "live_toks L + owner_toks H =
      add_mset (hold_tok Reservation r) (add_mset (hold_tok Charge k) (live_toks ?L + owner_toks H))"
    using live_member [OF k, of "owner_toks H"] live_member [OF r', of "owner_toks H"]
    by (simp add: add_mset_commute)
  have "armed r" "armed k" using armed_member [OF inv r] armed_member [OF inv k] by simp_all
  then obtain H' k' res where 1: "charge_absorb k r H = Some (H', k', res)" "frame H' = frame H"
    "heap_inv H' (add_mset (hold_tok Charge k') (live_toks ?L + owner_toks H))"
    "k' = (case res of Inl _ \<Rightarrow> k | Inr _ \<Rightarrow> k\<lparr>hold_bytes := hold_bytes k + hold_bytes r\<rparr>)"
    using charge_absorb_ok [OF sys_inv_heap_inv [OF inv, unfolded toks]] by blast
  have "armed k'" using 1(4) \<open>armed k\<close> by (cases res) auto
  then have "sys_inv (H', add_mset (LiveCharge k') ?L)"
    by (intro sys_inv_frame [OF inv 1(2)])
      (use 1(3) armed_rest [OF inv, of "{#LiveCharge k#} + {#LiveReservation r#}"] in \<open>auto simp: add_mset_commute\<close>)
  with 1(1) show ?thesis by simp
qed

lemma exec_release:
  assumes inv: "sys_inv (H, L)" and k: "LiveCharge k \<in># L"
  shows "\<exists>s'. heap_exec (OpRelease k b) (H, L) = Some s' \<and> sys_inv s'"
proof -
  let ?L = "L - {#LiveCharge k#}"
  obtain H' k' res where 1: "release_after_deallocation k b H = Some (H', k', res)" "frame H' = frame H"
    "heap_inv H' (add_mset (hold_tok Charge k') (live_toks ?L + owner_toks H))" "armed k'"
    using release_after_deallocation_ok [of H k "live_toks ?L + owner_toks H" "{#}" b]
      armed_member [OF inv k] sys_inv_heap_inv [OF inv] live_member [OF k, of "owner_toks H"] by auto
  then have "sys_inv (H', add_mset (LiveCharge k') ?L)"
    by (intro sys_inv_frame [OF inv 1(2)]) (use 1(3) armed_rest [OF inv] in auto)
  with 1(1) show ?thesis by simp
qed

lemma exec_prepare_transfer:
  assumes inv: "sys_inv (H, L)" and k: "LiveCharge k \<in># L" and own: "owner_live H own"
  shows "\<exists>s'. heap_exec (OpPrepareTransfer k own) (H, L) = Some s' \<and> sys_inv s'"
proof -
  let ?L = "L - {#LiveCharge k#}"
  have toks: "live_toks L + owner_toks H = add_mset (hold_tok Charge k) (live_toks ?L + owner_toks H)"
    using live_member [OF k, of "owner_toks H"] by simp
  note hinv = sys_inv_heap_inv [OF inv, unfolded toks]
  have "armed k" using armed_member [OF inv k] by simp
  moreover have "hold_bytes k \<le> usize_max" using heap_inv_bytes_le [OF hinv] by (simp add: hold_tok_def)
  ultimately obtain H' res where 1: "prepare_owner_transfer k own H = Some (H', res)"
    "frame H' = frame H"
    "case res of
       Inl _ \<Rightarrow> heap_inv H' (add_mset (hold_tok Charge k) (live_toks ?L + owner_toks H))
     | Inr x \<Rightarrow> heap_inv H' (xfer_toks x + add_mset (hold_tok Charge k) (live_toks ?L + owner_toks H))"
    using prepare_owner_transfer_ok [OF hinv _ own] by (fastforce split: sum.splits)
  have "sys_inv (H', heap_held LiveTransfer res + L)"
    by (rule sys_inv_frame [OF inv 1(2)])
      (use 1(3) inv in \<open>cases res; simp add: sys_inv_def add.assoc flip: toks\<close>)+
  with 1(1) show ?thesis by simp
qed

lemma exec_commit_transfer:
  assumes inv: "sys_inv (H, L)" and x: "LiveTransfer x \<in># L" and k: "LiveCharge k \<in># L"
  shows "\<exists>s'. heap_exec (OpCommitTransfer x k) (H, L) = Some s' \<and> sys_inv s'"
proof -
  let ?L = "L - {#LiveTransfer x#} - {#LiveCharge k#}"
  have k': "LiveCharge k \<in># L - {#LiveTransfer x#}" using k by (simp add: in_diff_count)
  have toks: "live_toks L + owner_toks H =
      xfer_toks x + add_mset (hold_tok Charge k) (live_toks ?L + owner_toks H)"
    using live_member [OF x, of "owner_toks H"] live_member [OF k', of "owner_toks H"]
    by (simp add: add_mset_commute)
  have "armed k" using armed_member [OF inv k] by simp
  from transfer_commit_ok [OF sys_inv_heap_inv [OF inv, unfolded toks] this]
  obtain H' c res where 1: "transfer_commit x k H = Some (H', c, res)" "frame H' = frame H"
    "heap_inv H' (add_mset (hold_tok Charge c) (live_toks ?L + owner_toks H))" "armed c" by blast
  have "sys_inv (H', add_mset (LiveCharge c) ?L)"
    by (rule sys_inv_frame [OF inv 1(2)])
      (use 1(3,4) armed_rest [OF inv, of "{#LiveTransfer x#} + {#LiveCharge k#}"] in \<open>auto simp: add_mset_commute\<close>)
  with 1(1) show ?thesis by simp
qed

lemma exec_drop_transfer:
  assumes inv: "sys_inv (H, L)" and x: "LiveTransfer x \<in># L"
  shows "\<exists>s'. heap_exec (OpDropTransfer x) (H, L) = Some s' \<and> sys_inv s'"
proof -
  let ?L = "L - {#LiveTransfer x#}"
  obtain H' where 1: "drop_transfer x H = Some H'" "frame H' = frame H"
    "heap_inv H' (live_toks ?L + owner_toks H)"
    using drop_transfer_ok [of H x "live_toks ?L + owner_toks H" "{#}"]
      sys_inv_heap_inv [OF inv] live_member [OF x, of "owner_toks H"] by auto
  have "sys_inv (H', ?L)" by (rule sys_inv_frame [OF inv 1(2,3) armed_rest [OF inv]])
  with 1(1) show ?thesis by simp
qed

lemma sys_inv_finite: "sys_inv (H, L) \<Longrightarrow> finite (dom (OWNERS H))"
  by (simp add: sys_inv_def heap_invp_def)

lemma exec_new_owner:
  assumes inv: "sys_inv (H, L)" and fresh: "OWNERS H ow = None"
    and bytes: "case bytes of Inl _ \<Rightarrow> True | Inr n \<Rightarrow> n \<le> usize_max"
  shows "\<exists>s'. heap_exec (OpNewOwner u bytes arc_ok ow) (H, L) = Some s' \<and> sys_inv s'"
proof -
  let ?T = "live_toks L + owner_toks H"
  have b: "n \<le> usize_max" if "bytes = Inr n" for n using bytes that by simp
  obtain H' r where 1: "try_new_for_uid u bytes arc_ok ow H = Some (H', r)"
    and 2: "case r of
       Inl _ \<Rightarrow> heap_inv H' ?T \<and> owner_ids H' = owner_ids H
     | Inr ow' \<Rightarrow> ow' = ow \<and> (\<exists>s k. owner_ids H' = (owner_ids H)(ow \<mapsto> (Some (s, u), k)) \<and>
         armed k \<and> hold_owner k = None \<and> heap_inv H' (add_mset (hold_tok Charge k) ?T))"
    using try_new_for_uid_ok [OF sys_inv_heap_inv [OF inv] fresh b, where u = u and arc_ok = arc_ok] by blast
  have "sys_inv (H', L)"
  proof (cases r)
    case (Inl e)
    with 2 have "heap_inv H' ?T" and ids: "owner_ids H' = owner_ids H" by simp_all
    with inv owner_toks_ids [OF ids] show ?thesis by (simp add: sys_inv_def)
  next
    case (Inr ow')
    with 2 obtain s k where k: "owner_ids H' = (owner_ids H)(ow \<mapsto> (Some (s, u), k))"
      "armed k" "hold_owner k = None" "heap_inv H' (add_mset (hold_tok Charge k) ?T)" by auto
    have "owner_ids H ow = None" using fresh by (simp add: owner_ids_None)
    from owner_toks_upd [OF sys_inv_finite [OF inv] this k(1)] k inv show ?thesis
      by (auto simp: sys_inv_def split: if_splits)
  qed
  with 1 show ?thesis by simp
qed

lemma raii_tok_owner: "t \<in># raii_toks x \<Longrightarrow> town t \<in> raii_owners x"
  by (cases x) (auto simp: hold_tok_def xfer_toks_def split: if_splits)

lemma live_tok_owner:
  assumes "t \<in># live_toks L" "\<forall>x\<in>#L. own \<notin> raii_owners x"
  shows "town t \<noteq> own"
  using assms raii_tok_owner by (fastforce simp: live_toks_def)

lemma exec_drop_owner:
  assumes inv: "sys_inv (H, L)" and "OWNERS H ow \<noteq> None" and free: "\<forall>x\<in>#L. Some ow \<notin> raii_owners x"
  shows "\<exists>s'. heap_exec (OpDropOwner ow) (H, L) = Some s' \<and> sys_inv s'"
proof -
  obtain r where r: "OWNERS H ow = Some r" using assms(2) by auto
  let ?k = "allocation_charge r"
  let ?H = "H\<lparr>OWNERS := (OWNERS H)(ow := None)\<rparr>"
  have id: "owner_ids H ow = Some (owner_uid r, ?k)" using r by (simp add: owner_ids_def)
  have owners: "armed k \<and> hold_owner k = None" if "owner_ids H ow' = Some (l, k)" for ow' l k
    using inv that unfolding sys_inv_def by blast
  have fin: "finite (dom (OWNERS H))" by (rule sys_inv_finite [OF inv])
  have toks: "owner_toks H = add_mset (hold_tok Charge ?k) (owner_toks ?H)"
    by (rule owner_toks_upd [where ow = ow and l = "owner_uid r"])
      (use fin id in \<open>auto simp: owner_ids_remove\<close>)
  have "town t \<noteq> Some ow" if t: "t \<in># add_mset (hold_tok Charge ?k) (live_toks L + owner_toks ?H)" for t
  proof -
    consider "t \<in># live_toks L" | "t \<in># owner_toks H" using t toks by auto
    then show ?thesis
    proof cases
      case 1
      then show ?thesis using free by (rule live_tok_owner)
    next
      case 2
      then obtain ow' l k where "owner_ids H ow' = Some (l, k)" "t = hold_tok Charge k"
        using fin by (auto simp: owner_toks_def dom_owner_ids [symmetric])
      with owners show ?thesis by (simp add: hold_tok_def)
    qed
  qed
  moreover have "heap_inv H (add_mset (hold_tok Charge ?k) (live_toks L + owner_toks ?H))"
    using sys_inv_heap_inv [OF inv] toks by simp
  ultimately obtain H' where 1: "drop_owner ow H = Some H'" "heap_inv H' (live_toks L + owner_toks ?H)"
    "owner_ids H' = (owner_ids H)(ow := None)"
    using drop_owner_ok [of H r "live_toks L + owner_toks ?H" ow] r owners [OF id] by blast
  have "owner_toks H' = owner_toks ?H" by (rule owner_toks_ids) (simp add: 1(3) owner_ids_remove)
  with 1 inv have "sys_inv (H', L)" by (simp add: sys_inv_def)
  with 1(1) show ?thesis by simp
qed

lemma sys_inv_step:
  assumes "sys_inv s" "heap_enabled op s"
  shows "\<exists>s'. heap_exec op s = Some s' \<and> sys_inv s'"
proof -
  obtain H L where s: "s = (H, L)" by fastforce
  show ?thesis
  proof (cases op)
    case (OpDropOwner ow)
    from assms have "sys_inv (H, L)" "OWNERS H ow \<noteq> None" "\<forall>x\<in>#L. Some ow \<notin> raii_owners x"
      unfolding s OpDropOwner heap_enabled.simps by blast+
    then show ?thesis unfolding s OpDropOwner by (rule exec_drop_owner)
  qed (use assms s in \<open>simp_all only: heap_enabled.simps exec_publish exec_reserve exec_resize exec_commit
        exec_drop_reservation exec_drop_charge exec_absorb exec_release exec_prepare_transfer
        exec_commit_transfer exec_drop_transfer exec_new_owner\<close>)
qed

lemma reachable_sys_inv: "heap_reachable s \<Longrightarrow> sys_inv s"
proof (induction rule: heap_reachable.induct)
  case boot
  show ?case by (rule sys_inv_boot)
next
  case (step s op s')
  with sys_inv_step [OF step.IH step.hyps(2)] show ?case by simp
qed

section \<open>Sums over the held values\<close>

fun charged_bytes :: "(heap_class \<Rightarrow> bool) \<Rightarrow> raii \<Rightarrow> nat" where
  "charged_bytes C (LiveCharge k) = (if C (hold_class k) then hold_bytes k else 0)"
| "charged_bytes C _ = 0"

fun reserved_bytes :: "(heap_class \<Rightarrow> bool) \<Rightarrow> raii \<Rightarrow> nat" where
  "reserved_bytes C (LiveReservation r) = (if C (hold_class r) then hold_bytes r else 0)"
| "reserved_bytes C _ = 0"

definition owner_block_bytes :: "(heap_class \<Rightarrow> bool) \<Rightarrow> heap_state \<Rightarrow> nat" where
  "owner_block_bytes C H =
     (\<Sum>ow\<in>dom (OWNERS H). charged_bytes C (LiveCharge (allocation_charge (the (OWNERS H ow)))))"

text \<open>Bytes of the held values that count against an owner satisfying \<open>Q\<close>.\<close>

fun owned_bytes :: "(nat option \<Rightarrow> bool) \<Rightarrow> (heap_class \<Rightarrow> bool) \<Rightarrow> raii \<Rightarrow> nat" where
  "owned_bytes Q C (LiveReservation r) = (if Q (hold_owner r) \<and> C (hold_class r) then hold_bytes r else 0)"
| "owned_bytes Q C (LiveCharge k) = (if Q (hold_owner k) \<and> C (hold_class k) then hold_bytes k else 0)"
| "owned_bytes Q C (LiveTransfer x) =
     (if xfer_armed x \<and> Q (xfer_owner x) \<and> C (xfer_class x) then xfer_bytes x else 0)"

lemma tsum_live:
  "tsum (\<lambda>t. tkind t = Charge \<and> C (tclass t)) (live_toks L) = (\<Sum>x\<in>#L. charged_bytes C x)"
  "tsum (\<lambda>t. tkind t = Reservation \<and> C (tclass t)) (live_toks L) = (\<Sum>x\<in>#L. reserved_bytes C x)"
  "tsum (\<lambda>t. Q (town t) \<and> C (tclass t)) (live_toks L) = (\<Sum>x\<in>#L. owned_bytes Q C x)"
proof (induction L)
  case (add x L)
  { case 1 with add show ?case by (cases x) (simp_all add: hold_tok_def xfer_toks_def) next
    case 2 with add show ?case by (cases x) (simp_all add: hold_tok_def xfer_toks_def) next
    case 3 with add show ?case by (cases x) (simp_all add: hold_tok_def xfer_toks_def) }
qed simp_all

lemma owner_toks_reserved: "tsum (\<lambda>t. tkind t = Reservation \<and> C (tclass t)) (owner_toks H) = 0"
  by (rule tsum_False) (auto simp: owner_toks_def hold_tok_def)

lemma owner_toks_charged:
  "tsum (\<lambda>t. tkind t = Charge \<and> C (tclass t)) (owner_toks H) = owner_block_bytes C H"
proof -
  have "charged_bytes C (LiveCharge (allocation_charge (the (OWNERS H ow)))) =
      (let t = hold_tok Charge (snd (the (owner_ids H ow)))
       in if tkind t = Charge \<and> C (tclass t) then tbytes t else 0)" if "ow \<in> dom (OWNERS H)" for ow
    using that by (auto simp: owner_ids_def hold_tok_def)
  then show ?thesis
    by (simp add: tsum_def owner_toks_def owner_block_bytes_def dom_owner_ids
        image_mset.compositionality comp_def sum_unfold_sum_mset cong: sum.cong)
      (simp add: Let_def sum_unfold_sum_mset [symmetric])
qed

definition uid_of :: "heap_state \<Rightarrow> nat option \<Rightarrow> u32 option" where
  "uid_of H own =
     Option.bind own (\<lambda>ow. Option.bind (OWNERS H ow) (\<lambda>r. map_option snd (owner_uid r)))"

lemma sys_cells:
  assumes "sys_inv (H, L)"
  shows "committed_of (GLOBAL_STATE H) = (\<Sum>x\<in>#L. charged_bytes (\<lambda>_. True) x) + owner_block_bytes (\<lambda>_. True) H"
    and "reserved_of (GLOBAL_STATE H) = (\<Sum>x\<in>#L. reserved_bytes (\<lambda>_. True) x)"
    and "committed_of (GLOBAL_STATE H) + reserved_of (GLOBAL_STATE H) \<le> ADMITTED_HEAP_BYTES"
    and "committed_of (CLASS_STATES H c) = (\<Sum>x\<in>#L. charged_bytes (\<lambda>d. d = c) x) + owner_block_bytes (\<lambda>d. d = c) H"
    and "reserved_of (CLASS_STATES H c) = (\<Sum>x\<in>#L. reserved_bytes (\<lambda>d. d = c) x)"
    and "committed_of (CLASS_STATES H c) + reserved_of (CLASS_STATES H c) \<le> limit_bytes c"
proof -
  have cells: "cells_inv H (live_toks L + owner_toks H)"
    using sys_inv_heap_inv [OF assms] by (simp add: heap_invp_def)
  show "committed_of (GLOBAL_STATE H) = (\<Sum>x\<in>#L. charged_bytes (\<lambda>_. True) x) + owner_block_bytes (\<lambda>_. True) H"
    and "reserved_of (GLOBAL_STATE H) = (\<Sum>x\<in>#L. reserved_bytes (\<lambda>_. True) x)"
    and "committed_of (GLOBAL_STATE H) + reserved_of (GLOBAL_STATE H) \<le> ADMITTED_HEAP_BYTES"
    using cells_invD(1) [OF cells] tsum_live(1,2) [of "\<lambda>_. True" L] owner_toks_reserved [of "\<lambda>_. True" H]
      owner_toks_charged [of "\<lambda>_. True" H]
    by (auto simp: cell_ok_def)
  show "committed_of (CLASS_STATES H c) = (\<Sum>x\<in>#L. charged_bytes (\<lambda>d. d = c) x) + owner_block_bytes (\<lambda>d. d = c) H"
    and "reserved_of (CLASS_STATES H c) = (\<Sum>x\<in>#L. reserved_bytes (\<lambda>d. d = c) x)"
    and "committed_of (CLASS_STATES H c) + reserved_of (CLASS_STATES H c) \<le> limit_bytes c"
    using cells_invD(2) [OF cells, of c] tsum_live(1,2) [of "\<lambda>d. d = c" L]
      owner_toks_reserved [of "\<lambda>d. d = c" H] owner_toks_charged [of "\<lambda>d. d = c" H]
    by (auto simp: cell_ok_def)
qed

lemma owner_toks_unowned:
  assumes "sys_inv (H, L)" "\<not> Q None"
  shows "tsum (\<lambda>t. Q (town t) \<and> C (tclass t)) (owner_toks H) = 0"
proof (rule tsum_False)
  fix t assume "t \<in># owner_toks H"
  then obtain ow l k where "owner_ids H ow = Some (l, k)" "t = hold_tok Charge k"
    using sys_inv_finite [OF assms(1)] by (auto simp: owner_toks_def dom_owner_ids [symmetric])
  then have "town t = None" using assms(1) by (auto simp: sys_inv_def hold_tok_def)
  with assms(2) show "\<not> (Q (town t) \<and> C (tclass t))" by simp
qed

lemma sys_owned_bytes:
  assumes "sys_inv (H, L)" "\<not> Q None"
  shows "(\<Sum>x\<in>#L. owned_bytes Q C x) = tsum (\<lambda>t. Q (town t) \<and> C (tclass t)) (live_toks L + owner_toks H)"
  using owner_toks_unowned [OF assms(1), of Q C] assms(2) by (simp add: tsum_live(3))

lemma dom_inv_ceilings:
  assumes "dom_inv (l, m, q) lim d P T"
  shows "tsum P T \<le> l" "tsum (\<lambda>t. P t \<and> tclass t \<noteq> Exec) T \<le> m"
    "tsum (\<lambda>t. P t \<and> tclass t = BlockingIo) T \<le> q" "tsum (\<lambda>t. P t \<and> tclass t = c) T \<le> lim c"
  using assms by (auto simp: dom_inv_def domain_ok_def budget_ok_def domain_limits_def)

lemma uid_of_owner_ids:
  "uid_of H own = Some u \<longleftrightarrow> (\<exists>ow s k. own = Some ow \<and> owner_ids H ow = Some (Some (s, u), k))"
  by (auto simp: uid_of_def owner_ids_def bind_eq_Some_conv)

lemma uid_slot_owner_ids:
  "owner_ids H ow = Some (Some (s, u), k) \<Longrightarrow> uid_slot H (Some ow) = Some s"
  by (simp add: uid_slot_def)

lemma uid_one_slot:
  assumes inv: "sys_inv (H, L)"
    and "owner_ids H ow = Some (Some (s, u), k)" "owner_ids H ow' = Some (Some (s', u), k')"
  shows "s = s'"
proof -
  have ids: "ids_inv (IDENTITIES H) (owner_leases H + {#})"
    using sys_inv_heap_inv [OF inv] by (simp add: heap_invp_def)
  have "(s, u) \<in># owner_leases H + {#}" "(s', u) \<in># owner_leases H + {#}"
    using owner_lease_mem [OF sys_inv_finite [OF inv]] assms(2,3) by auto
  from ids_invD(2) [OF ids this(1)] ids_invD(2) [OF ids this(2)] ids_invD(4) [OF ids]
  show ?thesis by blast
qed

lemma sys_uid_ceiling:
  assumes inv: "sys_inv (H, L)"
  shows "(\<Sum>x\<in>#L. owned_bytes (\<lambda>own. uid_of H own = Some u) (\<lambda>_. True) x) \<le> UID_HEAP_BYTES"
    and "(\<Sum>x\<in>#L. owned_bytes (\<lambda>own. uid_of H own = Some u) (\<lambda>c. c \<noteq> Exec) x) \<le> UID_NON_EXEC_BYTES"
proof -
  let ?Q = "\<lambda>own. uid_of H own = Some u" and ?T = "live_toks L + owner_toks H"
  have sum: "(\<Sum>x\<in>#L. owned_bytes ?Q C x) = tsum (\<lambda>t. ?Q (town t) \<and> C (tclass t)) ?T" for C
    by (rule sys_owned_bytes [OF inv]) (simp add: uid_of_def)
  have "tsum (\<lambda>t. ?Q (town t) \<and> True) ?T \<le> UID_HEAP_BYTES \<and>
      tsum (\<lambda>t. ?Q (town t) \<and> tclass t \<noteq> Exec) ?T \<le> UID_NON_EXEC_BYTES"
  proof (cases "\<exists>ow s k. owner_ids H ow = Some (Some (s, u), k)")
    case False
    then have "\<not> ?Q own" for own by (simp add: uid_of_owner_ids)
    then show ?thesis by (simp add: tsum_False)
  next
    case True
    then obtain ow s k where "owner_ids H ow = Some (Some (s, u), k)" by blast
    then have slot: "uid_slot H own = Some s" if "?Q own" for own
      using that uid_one_slot [OF inv] by (auto simp: uid_of_owner_ids intro: uid_slot_owner_ids)
    have "uid_dom_inv (BUDGETS H s) (\<lambda>t. uid_slot H (town t) = Some s) ?T"
      using sys_inv_heap_inv [OF inv] unfolding heap_invp_def domains_inv_def by blast
    note c = dom_inv_ceilings(1,2) [OF this]
    show ?thesis
      by (intro conjI order_trans [OF tsum_mono c(1)] order_trans [OF tsum_mono c(2)])
        (use slot in auto)
  qed
  then show "(\<Sum>x\<in>#L. owned_bytes ?Q (\<lambda>_. True) x) \<le> UID_HEAP_BYTES"
    and "(\<Sum>x\<in>#L. owned_bytes ?Q (\<lambda>c. c \<noteq> Exec) x) \<le> UID_NON_EXEC_BYTES"
    unfolding sum by simp_all
qed

lemma sys_owner_ceiling:
  assumes inv: "sys_inv (H, L)"
  shows "(\<Sum>x\<in>#L. owned_bytes (\<lambda>own. own = Some ow) (\<lambda>_. True) x) \<le> OWNER_HEAP_BYTES"
    and "(\<Sum>x\<in>#L. owned_bytes (\<lambda>own. own = Some ow) (\<lambda>c. c \<noteq> Exec) x) \<le> OWNER_NON_EXEC_BYTES"
proof -
  let ?T = "live_toks L + owner_toks H"
  have doms: "domains_inv H ?T"
    using sys_inv_heap_inv [OF inv] unfolding heap_invp_def by blast
  have sum: "(\<Sum>x\<in>#L. owned_bytes (\<lambda>own. own = Some ow) C x) =
      tsum (\<lambda>t. town t = Some ow \<and> C (tclass t)) ?T" for C
    by (rule sys_owned_bytes [OF inv]) simp
  have "tsum (\<lambda>t. town t = Some ow \<and> True) ?T \<le> OWNER_HEAP_BYTES \<and>
      tsum (\<lambda>t. town t = Some ow \<and> tclass t \<noteq> Exec) ?T \<le> OWNER_NON_EXEC_BYTES"
  proof (cases "OWNERS H ow")
    case None
    then have "town t \<noteq> Some ow" if "t \<in># ?T" for t
      using doms that unfolding domains_inv_def by blast
    then have none: "tsum (\<lambda>t. town t = Some ow \<and> C t) ?T = 0" for C by (intro tsum_False) blast
    show ?thesis unfolding none by simp
  next
    case (Some r)
    then have "owner_dom_inv (owner_budget r) (\<lambda>t. town t = Some ow) ?T"
      using doms unfolding domains_inv_def by blast
    from dom_inv_ceilings(1,2) [OF this] show ?thesis by simp
  qed
  then show "(\<Sum>x\<in>#L. owned_bytes (\<lambda>own. own = Some ow) (\<lambda>_. True) x) \<le> OWNER_HEAP_BYTES"
    and "(\<Sum>x\<in>#L. owned_bytes (\<lambda>own. own = Some ow) (\<lambda>c. c \<noteq> Exec) x) \<le> OWNER_NON_EXEC_BYTES"
    unfolding sum by simp_all
qed

lemma snapshot_fields:
  "snapshot_cell s cap = \<lparr>snap_committed = committed_of s, snap_reserved = reserved_of s, snap_capacity = cap\<rparr>"
  by (simp add: snapshot_cell_def committed_of_def reserved_of_def split: prod.split)

lemma dom_inv_same_used:
  "dom_inv L lim d P T \<Longrightarrow> dom_inv L lim d' P T \<Longrightarrow>
     used_bytes (total_budget d') = used_bytes (total_budget d)"
  by (simp add: dom_inv_def domain_ok_def budget_ok_def used_of_def word_unat_eq_iff)

lemma heap_inv_same_counters:
  assumes inv: "heap_inv H T" "heap_inv H' T" and fr: "frame H' = frame H"
  shows "GLOBAL_STATE H' = GLOBAL_STATE H" and "CLASS_STATES H' c = CLASS_STATES H c"
    and "used_bytes (total_budget (BUDGETS H' s)) = used_bytes (total_budget (BUDGETS H s))"
    and "OWNERS H ow = Some r \<Longrightarrow> OWNERS H' ow = Some r' \<Longrightarrow>
      used_bytes (total_budget (owner_budget r')) = used_bytes (total_budget (owner_budget r))"
proof -
  have cells: "cells_inv H T" "cells_inv H' T" and doms: "domains_inv H T" "domains_inv H' T"
    using inv by (simp_all add: heap_invp_def)
  show "GLOBAL_STATE H' = GLOBAL_STATE H"
    using cells_invD(1) [OF cells(1)] cells_invD(1) [OF cells(2)] by (auto simp: cell_ok_def intro: cell_eqI)
  show "CLASS_STATES H' c = CLASS_STATES H c"
    using cells_invD(2) [OF cells(1), of c] cells_invD(2) [OF cells(2), of c]
    by (auto simp: cell_ok_def intro: cell_eqI)
  have "uid_dom_inv (BUDGETS H s) (\<lambda>t. uid_slot H (town t) = Some s) T"
    "uid_dom_inv (BUDGETS H' s) (\<lambda>t. uid_slot H (town t) = Some s) T"
    using doms frame_uid_slot [OF fr] unfolding domains_inv_def by simp_all
  then show "used_bytes (total_budget (BUDGETS H' s)) = used_bytes (total_budget (BUDGETS H s))"
    by (rule dom_inv_same_used)
  show "used_bytes (total_budget (owner_budget r')) = used_bytes (total_budget (owner_budget r))"
    if "OWNERS H ow = Some r" "OWNERS H' ow = Some r'"
    by (rule dom_inv_same_used [of _ _ _ "\<lambda>t. town t = Some ow" T])
      (use doms that in \<open>auto simp: domains_inv_def\<close>)
qed

section \<open>Properties\<close>

text \<open>C6: no fail-stop of the heap ledger is reachable. In every state the kernel can reach by
  calls it is entitled to make, the next call returns: the rollback panics of \<open>reserve_pair\<close>,
  the release panics of both pair releases, the class \<open>expect\<close>s and the budget assertions of the
  owner and UID domains, and the registry assertions of \<open>UidLease::drop\<close> never fire.\<close>

theorem heap_never_panics:
  assumes "heap_reachable s" and "heap_enabled op s"
  shows "heap_exec op s \<noteq> None"
  using sys_inv_step [OF reachable_sys_inv [OF assms(1)] assms(2)] by auto

text \<open>C1: the ledger is exact. The committed bytes of the global snapshot are the bytes of the
  charges the kernel holds plus the control blocks of the live owners, its reserved bytes are
  the bytes of the reservations held, the same holds class by class, and neither the global
  capacity nor a class capacity is ever exceeded.\<close>

theorem heap_accounting_exact:
  assumes "heap_reachable (H, L)"
  shows "heap_snapshot H =
      \<lparr>snap_committed = (\<Sum>x\<in>#L. charged_bytes (\<lambda>_. True) x) + owner_block_bytes (\<lambda>_. True) H,
       snap_reserved = (\<Sum>x\<in>#L. reserved_bytes (\<lambda>_. True) x),
       snap_capacity = ADMITTED_HEAP_BYTES\<rparr> \<and>
    snap_committed (heap_snapshot H) + snap_reserved (heap_snapshot H) \<le> ADMITTED_HEAP_BYTES \<and>
    (\<forall>c. class_snapshot c H =
      \<lparr>snap_committed = (\<Sum>x\<in>#L. charged_bytes (\<lambda>d. d = c) x) + owner_block_bytes (\<lambda>d. d = c) H,
       snap_reserved = (\<Sum>x\<in>#L. reserved_bytes (\<lambda>d. d = c) x),
       snap_capacity = limit_bytes c\<rparr> \<and>
     snap_committed (class_snapshot c H) + snap_reserved (class_snapshot c H) \<le> limit_bytes c)"
  using sys_cells [OF reachable_sys_inv [OF assms]]
  by (simp add: snapshot_fields heap_snapshot_def class_snapshot_def)

text \<open>C11: fork cannot multiply a principal's share. In every reachable state the values that
  count against one thread-group owner stay within its total and non-exec ceilings, and the
  values of all owners of one host UID together stay within the UID's total and non-exec
  ceilings, however many owners the UID has.\<close>

theorem heap_principal_ceilings:
  assumes "heap_reachable (H, L)"
  shows "(\<Sum>x\<in>#L. owned_bytes (\<lambda>own. own = Some ow) (\<lambda>_. True) x) \<le> OWNER_HEAP_BYTES \<and>
    (\<Sum>x\<in>#L. owned_bytes (\<lambda>own. own = Some ow) (\<lambda>c. c \<noteq> Exec) x) \<le> OWNER_NON_EXEC_BYTES \<and>
    (\<Sum>x\<in>#L. owned_bytes (\<lambda>own. uid_of H own = Some u) (\<lambda>_. True) x) \<le> UID_HEAP_BYTES \<and>
    (\<Sum>x\<in>#L. owned_bytes (\<lambda>own. uid_of H own = Some u) (\<lambda>c. c \<noteq> Exec) x) \<le> UID_NON_EXEC_BYTES"
  using sys_owner_ceiling [OF reachable_sys_inv [OF assms]] sys_uid_ceiling [OF reachable_sys_inv [OF assms]]
  by blast

text \<open>C18: a rejected reservation is free of side effects on the accounting. Whatever gate rejects
  it, the global and class snapshots are those from before the call, and so is the usage of
  every owner and of every UID slot.\<close>

theorem heap_rejection_neutral:
  assumes "heap_reachable (H, L)" and "b \<le> usize_max" and "owner_live H own"
    and "try_reserve_owned c b own H = Some (H', Err e)"
  shows "heap_snapshot H' = heap_snapshot H \<and> (\<forall>d. class_snapshot d H' = class_snapshot d H) \<and>
    (\<forall>s. used_bytes (total_budget (BUDGETS H' s)) = used_bytes (total_budget (BUDGETS H s))) \<and>
    (\<forall>ow r r'. OWNERS H ow = Some r \<longrightarrow> OWNERS H' ow = Some r' \<longrightarrow>
      used_bytes (total_budget (owner_budget r')) = used_bytes (total_budget (owner_budget r)))"
proof -
  let ?T = "live_toks L + owner_toks H"
  have inv: "heap_inv H ?T" by (rule sys_inv_heap_inv [OF reachable_sys_inv [OF assms(1)]])
  have "heap_inv H' ?T" "frame H' = frame H"
    using try_reserve_owned_ok [OF inv assms(3,2), of c] assms(4) by auto
  from heap_inv_same_counters [OF inv this] show ?thesis
    by (simp add: heap_snapshot_def class_snapshot_def)
qed


section \<open>A run of the ledger\<close>

text \<open>
  Publish, reserve a page for a pipe, commit it and drop the charge, all evaluated. The states
  are the concrete inputs at which the properties above are exercised.
\<close>

definition demo_published :: heap_state where
  "demo_published = heap_boot\<lparr>PUBLISHED := True\<rparr>"

definition demo_reservation :: heap_reservation where
  "demo_reservation = \<lparr>hold_owner = None, hold_class = Pipe, hold_bytes = 4096, armed = True\<rparr>"

definition demo_reserved :: heap_state where
  "demo_reserved =
     demo_published\<lparr>GLOBAL_STATE := 4096, CLASS_STATES := (\<lambda>_. 0)(Pipe := 4096)\<rparr>"

definition demo_committed :: heap_state where
  "demo_committed =
     demo_published\<lparr>GLOBAL_STATE := 0x100000000000, CLASS_STATES := (\<lambda>_. 0)(Pipe := 0x100000000000)\<rparr>"

lemmas demo_defs = demo_published_def demo_reservation_def demo_reserved_def demo_committed_def

lemma demo_publish: "heap_exec OpPublish (heap_boot, {#}) = Some (demo_published, {#})"
  by (simp add: publish_def heap_partition_defs demo_defs)

lemmas cell_eval =
  cell_Ok committed_of_def reserved_of_def unpack_def ADMITTED_HEAP_BYTES_value

lemma demo_add: "add_reserved 0 4096 ADMITTED_HEAP_BYTES = Inr 4096"
  "add_reserved 0 4096 (limit_bytes Pipe) = Inr 4096"
  by (simp_all add: cell_eval)

lemma demo_commit_cell: "commit_reserved 4096 4096 = Inr 0x100000000000"
  by (simp add: cell_eval)

lemma demo_release_cell: "subtract_committed 0x100000000000 4096 = Inr 0"
  by (simp add: cell_eval)

lemma demo_reserve:
  "heap_exec (OpReserve Pipe 4096 None) (demo_published, {#}) =
     Some (demo_reserved, {#LiveReservation demo_reservation#})"
  using demo_add
  by (simp add: try_reserve_owned_def reserve_owned_pair_def reserve_pair_def Let_def set_class_def
      demo_defs heap_boot_def)

lemma demo_commit:
  "heap_exec (OpCommit demo_reservation) (demo_reserved, {#LiveReservation demo_reservation#}) =
     Some (demo_committed, {#LiveCharge demo_reservation#})"
  by (simp add: reservation_commit_def commit_pair_def Let_def set_class_def demo_commit_cell
      demo_defs heap_boot_def)

lemma demo_drop:
  "heap_exec (OpDropCharge demo_reservation) (demo_committed, {#LiveCharge demo_reservation#}) =
     Some (demo_published, {#})"
  by (simp add: drop_charge_def release_committed_pair_def release_opt_def Let_def set_class_def
      demo_release_cell demo_defs heap_boot_def fun_upd_idem)

lemma demo_reachable:
  "heap_reachable (demo_published, {#})"
  "heap_reachable (demo_reserved, {#LiveReservation demo_reservation#})"
  "heap_reachable (demo_committed, {#LiveCharge demo_reservation#})"
proof -
  show 1: "heap_reachable (demo_published, {#})"
    by (rule heap_reachable.step [OF heap_reachable.boot _ demo_publish]) simp
  show 2: "heap_reachable (demo_reserved, {#LiveReservation demo_reservation#})"
    by (rule heap_reachable.step [OF 1 _ demo_reserve]) (simp add: usize_max_def owner_live_def)
  show "heap_reachable (demo_committed, {#LiveCharge demo_reservation#})"
    by (rule heap_reachable.step [OF 2 _ demo_commit]) simp
qed

text \<open>The same with an owner: UID 1000 gets an owner at address 7, which then reserves the page.\<close>

definition demo_owner_charge :: heap_charge where
  "demo_owner_charge = \<lparr>hold_owner = None, hold_class = CoreProcess, hold_bytes = 512, armed = True\<rparr>"

definition demo_owned :: heap_state where
  "demo_owned =
     demo_published\<lparr>GLOBAL_STATE := 0x20000000000, CLASS_STATES := (\<lambda>_. 0)(CoreProcess := 0x20000000000),
       IDENTITIES := (replicate MAX_UID_DOMAINS None)[0 := Some (1000, 1)],
       OWNERS := [7 \<mapsto> \<lparr>owner_uid = Some (0, 1000), owner_budget = owner_budget_new,
                       allocation_charge = demo_owner_charge\<rparr>]\<rparr>"

definition demo_owned_reservation :: heap_reservation where
  "demo_owned_reservation = \<lparr>hold_owner = Some 7, hold_class = Pipe, hold_bytes = 4096, armed = True\<rparr>"

definition charged_domain :: "budget_domain \<Rightarrow> budget_domain" where
  "charged_domain d =
     d\<lparr>total_budget := (total_budget d)\<lparr>used_bytes := 4096\<rparr>,
       non_exec := (non_exec d)\<lparr>used_bytes := 4096\<rparr>, classes := (\<lambda>_. 0)(Pipe := 4096)\<rparr>"

definition demo_owned_reserved :: heap_state where
  "demo_owned_reserved =
     demo_owned\<lparr>GLOBAL_STATE := 0x20000001000,
       CLASS_STATES := (\<lambda>_. 0)(CoreProcess := 0x20000000000, Pipe := 4096),
       BUDGETS := (\<lambda>_. uid_budget_new)(0 := charged_domain uid_budget_new),
       OWNERS := [7 \<mapsto> \<lparr>owner_uid = Some (0, 1000), owner_budget = charged_domain owner_budget_new,
                       allocation_charge = demo_owner_charge\<rparr>]\<rparr>"

lemmas demo_owned_defs = demo_owned_def demo_owner_charge_def demo_owned_reservation_def
  demo_owned_reserved_def charged_domain_def

lemma position_replicate: "0 < n \<Longrightarrow> position P (replicate n x) = (if P x then Some 0 else None)"
  by (cases n) (auto simp: position_None)

lemma demo_uid_slot: "uid_slot_for u (replicate MAX_UID_DOMAINS None) = Some 0"
  by (simp add: uid_slot_for_def position_replicate MAX_UID_DOMAINS_def)

lemma demo_slot_empty: "replicate MAX_UID_DOMAINS None ! 0 = None"
  by (simp add: MAX_UID_DOMAINS_def)

lemma demo_owner_cells: "add_reserved 0 512 ADMITTED_HEAP_BYTES = Inr 512"
  "add_reserved 0 512 (limit_bytes CoreProcess) = Inr 512"
  "commit_reserved 512 512 = Inr 0x20000000000"
  "add_reserved 0x20000000000 4096 ADMITTED_HEAP_BYTES = Inr 0x20000001000"
  "add_reserved 0 4096 (limit_bytes Pipe div 4 * 3) = Inr 4096"
  "add_reserved 0 4096 (limit_bytes Pipe div 8 * 7) = Inr 4096"
  by (simp_all add: cell_eval)

lemma demo_new_owner:
  "heap_exec (OpNewOwner 1000 (Inr 512) True 7) (demo_published, {#}) = Some (demo_owned, {#})"
  using demo_owner_cells
  by (simp add: try_new_for_uid_def uid_acquire_def demo_uid_slot try_new_with_uid_def
      try_reserve_owned_def reserve_owned_pair_def reserve_pair_def reservation_commit_def
      commit_pair_def Let_def set_class_def checked_add_usize_def usize_max_def demo_slot_empty
      demo_defs demo_owned_defs heap_boot_def)

lemma demo_charge_new:
  "try_charge (ns_byte_budget_new OWNER_HEAP_BYTES) 4096 =
     ((ns_byte_budget_new OWNER_HEAP_BYTES)\<lparr>used_bytes := 4096\<rparr>, Inr ())"
  "try_charge (ns_byte_budget_new OWNER_NON_EXEC_BYTES) 4096 =
     ((ns_byte_budget_new OWNER_NON_EXEC_BYTES)\<lparr>used_bytes := 4096\<rparr>, Inr ())"
  "try_charge (ns_byte_budget_new UID_HEAP_BYTES) 4096 =
     ((ns_byte_budget_new UID_HEAP_BYTES)\<lparr>used_bytes := 4096\<rparr>, Inr ())"
  "try_charge (ns_byte_budget_new UID_NON_EXEC_BYTES) 4096 =
     ((ns_byte_budget_new UID_NON_EXEC_BYTES)\<lparr>used_bytes := 4096\<rparr>, Inr ())"
  by (simp_all add: try_charge_def ns_byte_budget_new_def checked_add_word_def OWNER_HEAP_BYTES_def
      EXEC_TRANSACTION_PEAK_BYTES_def OWNER_NON_EXEC_BYTES_def UID_HEAP_BYTES_def UID_NON_EXEC_BYTES_def)

lemma demo_owner_reserve:
  "owner_local_reserve owner_budget_new Pipe 4096 = Some (charged_domain owner_budget_new, Inr ())"
  "uid_reserve uid_budget_new Pipe 4096 = Some (charged_domain uid_budget_new, Inr ())"
  using demo_owner_cells
  by (simp_all add: owner_local_reserve_def uid_reserve_def domain_reserve_def Let_def demo_charge_new
      owner_budget_new_def uid_budget_new_def charged_domain_def)

lemma demo_owned_reserve:
  "heap_exec (OpReserve Pipe 4096 (Some 7)) (demo_owned, {#}) =
     Some (demo_owned_reserved, {#LiveReservation demo_owned_reservation#})"
  using demo_owner_cells(4) demo_add(2)
  by (simp add: try_reserve_owned_def reserve_owned_pair_def owner_reserve_def demo_owner_reserve
      reserve_pair_def Let_def set_class_def set_owner_budget_def set_uid_budget_def
      demo_defs demo_owned_defs heap_boot_def)

lemma demo_owned_reachable:
  "heap_reachable (demo_owned_reserved, {#LiveReservation demo_owned_reservation#})"
proof -
  have "heap_reachable (demo_owned, {#})"
    by (rule heap_reachable.step [OF demo_reachable(1) _ demo_new_owner])
      (simp add: usize_max_def demo_defs heap_boot_def)
  then show ?thesis
    by (rule heap_reachable.step [OF _ _ demo_owned_reserve])
      (simp add: usize_max_def owner_live_def demo_owned_defs)
qed

section \<open>The properties at these states\<close>

theorem heap_never_panics_witness:
  "heap_exec (OpCommit demo_owned_reservation)
     (demo_owned_reserved, {#LiveReservation demo_owned_reservation#}) \<noteq> None"
  by (rule heap_never_panics [OF demo_owned_reachable]) simp

theorem heap_accounting_exact_witness:
  "snap_committed (heap_snapshot demo_owned_reserved) = 512 \<and>
   snap_reserved (heap_snapshot demo_owned_reserved) = 4096 \<and>
   snap_reserved (class_snapshot Pipe demo_owned_reserved) = 4096"
  using heap_accounting_exact [OF demo_owned_reachable]
  by (simp add: owner_block_bytes_def demo_owned_defs)

theorem heap_principal_ceilings_witness:
  "uid_of demo_owned_reserved (Some 7) = Some 1000 \<and>
   (\<Sum>x\<in>#{#LiveReservation demo_owned_reservation#}.
      owned_bytes (\<lambda>own. uid_of demo_owned_reserved own = Some 1000) (\<lambda>_. True) x) \<le> UID_HEAP_BYTES \<and>
   (\<Sum>x\<in>#{#LiveReservation demo_owned_reservation#}.
      owned_bytes (\<lambda>own. own = Some 7) (\<lambda>_. True) x) \<le> OWNER_HEAP_BYTES"
proof -
  have "uid_of demo_owned_reserved (Some 7) = Some 1000" by (simp add: uid_of_def demo_owned_defs)
  with heap_principal_ceilings [OF demo_owned_reachable, of 7 1000] show ?thesis by blast
qed

theorem heap_rejection_neutral_witness:
  "\<exists>H'. try_reserve_owned Pipe 614400 (Some 7) demo_owned_reserved = Some (H', Err OwnerLimit) \<and>
     rejected (non_exec (owner_budget (the (OWNERS H' 7)))) = 1 \<and>
     heap_snapshot H' = heap_snapshot demo_owned_reserved \<and>
     used_bytes (total_budget (BUDGETS H' 0)) = 4096 \<and>
     used_bytes (total_budget (owner_budget (the (OWNERS H' 7)))) = 4096"
proof -
  let ?d = "charged_domain owner_budget_new"
  let ?d' = "?d\<lparr>non_exec := (non_exec ?d)\<lparr>rejected := 1\<rparr>\<rparr>"
  let ?H = "set_owner_budget 7 ?d' demo_owned_reserved"
  have "owner_local_reserve ?d Pipe 614400 = Some (?d', Err OwnerLimit)"
    by (simp add: owner_local_reserve_def domain_reserve_def try_charge_def budget_release_def
        checked_add_word_def charged_domain_def owner_budget_new_def ns_byte_budget_new_def Let_def
        OWNER_HEAP_BYTES_def EXEC_TRANSACTION_PEAK_BYTES_def OWNER_NON_EXEC_BYTES_def)
  then have rejected: "try_reserve_owned Pipe 614400 (Some 7) demo_owned_reserved = Some (?H, Err OwnerLimit)"
    by (simp add: try_reserve_owned_def reserve_owned_pair_def owner_reserve_def demo_defs
        demo_owned_reserved_def demo_owned_def)
  from heap_rejection_neutral [OF demo_owned_reachable _ _ this]
  have "heap_snapshot ?H = heap_snapshot demo_owned_reserved"
    and "used_bytes (total_budget (BUDGETS ?H 0)) = used_bytes (total_budget (BUDGETS demo_owned_reserved 0))"
    and "used_bytes (total_budget (owner_budget (the (OWNERS ?H 7)))) =
      used_bytes (total_budget (owner_budget (the (OWNERS demo_owned_reserved 7))))"
    by (auto simp: usize_max_def owner_live_def demo_owned_reserved_def)
  with rejected show ?thesis by (simp add: demo_owned_reserved_def charged_domain_def)
qed


end
