(* ===== verification/HeapClient.thy ===== *)
theory HeapClient
  imports HeapSystem "HOL-Library.Monad_Syntax"
begin

text \<open>
  The heap ledger as its clients see it: \<open>heap_calls\<close> is the set of calls a container makes
  (\<open>try_reserve\<close>, \<open>resize\<close>, \<open>commit\<close> and the two destructors), and the locale \<open>heap_client\<close> is
  their contract: every call returns, a reservation is handed out, resized, committed or
  dropped exactly once, and the commit of a held reservation succeeds. \<open>ledger_heap own\<close> is the
  ledger of \<open>HeapLedger\<close> for a task charged to \<open>own\<close>; the interpretation discharges the contract
  with reachability of the heap system as the invariant.
\<close>

record 'h heap_calls =
  reserve_heap :: "heap_class \<Rightarrow> usize \<Rightarrow> 'h \<Rightarrow> ('h \<times> (heap_admission_error + heap_reservation)) option"
  resize_heap :: "heap_reservation \<Rightarrow> usize \<Rightarrow> 'h \<Rightarrow>
    ('h \<times> heap_reservation \<times> (heap_admission_error + unit)) option"
  commit_heap :: "heap_reservation \<Rightarrow> 'h \<Rightarrow> ('h \<times> (heap_admission_error + heap_charge)) option"
  drop_heap_reservation :: "heap_reservation \<Rightarrow> 'h \<Rightarrow> 'h option"
  drop_heap_charge :: "heap_charge \<Rightarrow> 'h \<Rightarrow> 'h option"

definition drop_charge_opt :: "'h heap_calls \<Rightarrow> heap_charge option \<Rightarrow> 'h \<Rightarrow> 'h option" where
  "drop_charge_opt hp c h = (case c of None \<Rightarrow> Some h | Some k \<Rightarrow> drop_heap_charge hp k h)"

definition opt_ms :: "'a option \<Rightarrow> 'a multiset" where
  "opt_ms x = (case x of None \<Rightarrow> {#} | Some a \<Rightarrow> {#a#})"

lemma opt_ms_simps [simp]: "opt_ms None = {#}" "opt_ms (Some a) = {#a#}"
  by (simp_all add: opt_ms_def)

definition grants_ok :: "(usize \<Rightarrow> usize \<Rightarrow> usize option) \<Rightarrow> bool" where
  "grants_ok g \<longleftrightarrow> (\<forall>s n c. g s n = Some c \<longrightarrow> n \<le> c)"

lemma u64_le: "unat (x :: u64) \<le> usize_max"
  using u64_bound [of x] by (simp add: usize_max_def)

lemma charge_bytes_bound:
  "allocation_charge_bytes p a = Ok n \<Longrightarrow> n \<le> usize_max"
  "vec_charge_bytes s a c = Ok n \<Longrightarrow> n \<le> usize_max"
  "arc_charge_bytes s a = Ok n \<Longrightarrow> n \<le> usize_max"
proof -
  have 1: "n \<le> usize_max" if "checked_align_up v a = Ok n" for v a n
    using that u64_le by (auto simp: checked_align_up_def split: if_splits option.splits)
  show 2: "n \<le> usize_max" if "allocation_charge_bytes p a = Ok n" for p a n
    using that 1 by (auto simp: allocation_charge_bytes_def usize_max_def split: if_splits option.splits)
  show "vec_charge_bytes s a c = Ok n \<Longrightarrow> n \<le> usize_max"
    using 2 by (auto simp: vec_charge_bytes_def usize_max_def split: if_splits option.splits)
  show "arc_charge_bytes s a = Ok n \<Longrightarrow> n \<le> usize_max"
    using 2 by (auto simp: arc_charge_bytes_def split: option.splits)
qed

locale heap_client =
  fixes hp :: "'h heap_calls"
    and hinv :: "'h \<Rightarrow> heap_reservation multiset \<Rightarrow> heap_charge multiset \<Rightarrow> bool"
  assumes reserve: "hinv h R C \<Longrightarrow> b \<le> usize_max \<Longrightarrow>
      runs (reserve_heap hp cls b h)
        (\<lambda>(h', r). case r of Inl _ \<Rightarrow> hinv h' R C
           | Inr x \<Rightarrow> hold_class x = cls \<and> hold_bytes x = b \<and> hinv h' (add_mset x R) C)"
    and resize: "hinv h (add_mset x R) C \<Longrightarrow> b \<le> usize_max \<Longrightarrow>
      runs (resize_heap hp x b h) 
        (\<lambda>(h', x', r). hinv h' (add_mset x' R) C \<and>
           x' = (case r of Inl _ \<Rightarrow> x | Inr _ \<Rightarrow> x\<lparr>hold_bytes := b\<rparr>))"
    and commit: "hinv h (add_mset x R) C \<Longrightarrow>
      runs (commit_heap hp x h) (\<lambda>(h', r). \<exists>c. r = Ok c \<and> hold_class c = hold_class x \<and>
        hold_bytes c = hold_bytes x \<and> hinv h' R (add_mset c C))"
    and drop_res: "hinv h (add_mset x R) C \<Longrightarrow>
      runs (drop_heap_reservation hp x h) (\<lambda>h'. hinv h' R C)"
    and drop_chg: "hinv h R (add_mset c C) \<Longrightarrow> runs (drop_heap_charge hp c h) (\<lambda>h'. hinv h' R C)"
begin

lemma drop_opt: "hinv h R (opt_ms c + C) \<Longrightarrow> runs (drop_charge_opt hp c h) (\<lambda>h'. hinv h' R C)"
  using drop_chg by (cases c) (auto simp: drop_charge_opt_def)

end

definition ledger_heap :: "nat option \<Rightarrow> heap_state heap_calls" where
  "ledger_heap own =
     \<lparr>reserve_heap = (\<lambda>c b. try_reserve_owned c b own),
      resize_heap = reservation_resize,
      commit_heap = reservation_commit,
      drop_heap_reservation = drop_reservation,
      drop_heap_charge = drop_charge\<rparr>"

definition held :: "heap_reservation multiset \<Rightarrow> heap_charge multiset \<Rightarrow> raii multiset" where
  "held R C = image_mset LiveReservation R + image_mset LiveCharge C"

lemma held_simps [simp]:
  "held {#} {#} = {#}"
  "held (add_mset r R) C = add_mset (LiveReservation r) (held R C)"
  "held R (add_mset c C) = add_mset (LiveCharge c) (held R C)"
  by (simp_all add: held_def)

definition ledger_inv ::
  "nat option \<Rightarrow> raii multiset \<Rightarrow> heap_state \<Rightarrow> heap_reservation multiset \<Rightarrow> heap_charge multiset \<Rightarrow> bool" where
  "ledger_inv own L H R C \<longleftrightarrow> heap_reachable (H, held R C + L) \<and> owner_live H own"

lemma frame_owner_live: "frame H' = frame H \<Longrightarrow> owner_live H' own = owner_live H own"
  using frame_owner_ids [of H' H] by (auto simp: owner_live_def owner_ids_None [symmetric])

lemma ledger_step:
  assumes "ledger_inv own L H R C" "heap_enabled op (H, held R C + L)"
    and "heap_exec op (H, held R C + L) = Some (H', held R' C' + L)" "frame H' = frame H"
  shows "ledger_inv own L H' R' C'"
  using assms heap_reachable.step frame_owner_live unfolding ledger_inv_def by blast

lemma ledger_inv_sys: "ledger_inv own L H R C \<Longrightarrow> sys_inv (H, held R C + L)"
  by (simp add: ledger_inv_def reachable_sys_inv)

lemma ledger_inv_toks: "ledger_inv own L H R C \<Longrightarrow> heap_inv H (live_toks (held R C + L) + owner_toks H)"
  by (rule sys_inv_heap_inv [OF ledger_inv_sys])

lemma ledger_armed: "ledger_inv own L H R C \<Longrightarrow> x \<in># held R C + L \<Longrightarrow> raii_armed x"
  using ledger_inv_sys by (auto simp: sys_inv_def)

interpretation ledger_client: heap_client "ledger_heap own" "ledger_inv own L" for own L
proof
  fix H R C c and b :: usize
  assume inv: "ledger_inv own L H R C" and b: "b \<le> usize_max"
  then have live: "owner_live H own" by (simp add: ledger_inv_def)
  obtain H' r where 1: "try_reserve_owned c b own H = Some (H', r)" "frame H' = frame H"
    "\<forall>h. r = Ok h \<longrightarrow> h = \<lparr>hold_owner = own, hold_class = c, hold_bytes = b, armed = True\<rparr>"
    using try_reserve_owned_ok [OF ledger_inv_toks [OF inv] live b] by blast
  have "ledger_inv own L H' (case r of Inl _ \<Rightarrow> R | Inr x \<Rightarrow> add_mset x R) C"
    by (rule ledger_step [OF inv, of "OpReserve c b own"])
      (use 1(1,2) b live in \<open>auto split: sum.splits\<close>)
  with 1 show "runs (reserve_heap (ledger_heap own) c b H)
     (\<lambda>(h', r). case r of Inl _ \<Rightarrow> ledger_inv own L h' R C
        | Inr x \<Rightarrow> hold_class x = c \<and> hold_bytes x = b \<and> ledger_inv own L h' (add_mset x R) C)"
    by (cases r) (auto simp: ledger_heap_def)
next
  fix H x R C and b :: usize
  assume inv: "ledger_inv own L H (add_mset x R) C" and b: "b \<le> usize_max"
  have "armed x" using ledger_armed [OF inv, of "LiveReservation x"] by simp
  then obtain H' x' r where 1: "reservation_resize x b H = Some (H', x', r)" "frame H' = frame H"
    "x' = (case r of Inl _ \<Rightarrow> x | Inr _ \<Rightarrow> x\<lparr>hold_bytes := b\<rparr>)"
    using reservation_resize_ok [of H x "live_toks (held R C + L) + owner_toks H" "{#}" b]
      ledger_inv_toks [OF inv] b by auto
  have "ledger_inv own L H' (add_mset x' R) C"
    by (rule ledger_step [OF inv, of "OpResize x b"]) (use 1(1,2) b in simp_all)
  with 1 show "runs (resize_heap (ledger_heap own) x b H)
      (\<lambda>(h', x', r). ledger_inv own L h' (add_mset x' R) C \<and>
         x' = (case r of Inl _ \<Rightarrow> x | Inr _ \<Rightarrow> x\<lparr>hold_bytes := b\<rparr>))"
    by (simp add: ledger_heap_def)
next
  fix H x R C
  assume inv: "ledger_inv own L H (add_mset x R) C"
  obtain H' where 1: "reservation_commit x H = Some (H', Ok (x\<lparr>armed := True\<rparr>))" "frame H' = frame H"
    using reservation_commit_ok [of H x "live_toks (held R C + L) + owner_toks H" "{#}"]
      ledger_inv_toks [OF inv] by auto
  have "ledger_inv own L H' R (add_mset (x\<lparr>armed := True\<rparr>) C)"
    by (rule ledger_step [OF inv, of "OpCommit x"]) (use 1 in simp_all)
  with 1 show "runs (commit_heap (ledger_heap own) x H)
      (\<lambda>(h', r). \<exists>c. r = Ok c \<and> hold_class c = hold_class x \<and> hold_bytes c = hold_bytes x \<and>
         ledger_inv own L h' R (add_mset c C))"
    by (simp add: ledger_heap_def)
next
  fix H x R C
  assume inv: "ledger_inv own L H (add_mset x R) C"
  have "armed x" using ledger_armed [OF inv, of "LiveReservation x"] by simp
  then obtain H' where 1: "drop_reservation x H = Some H'" "frame H' = frame H"
    using drop_reservation_ok [of H x "live_toks (held R C + L) + owner_toks H" "{#}"]
      ledger_inv_toks [OF inv] by auto
  have "ledger_inv own L H' R C"
    by (rule ledger_step [OF inv, of "OpDropReservation x"]) (use 1 in simp_all)
  with 1 show "runs (drop_heap_reservation (ledger_heap own) x H) (\<lambda>h'. ledger_inv own L h' R C)"
    by (simp add: ledger_heap_def)
next
  fix H c R C
  assume inv: "ledger_inv own L H R (add_mset c C)"
  have "armed c" using ledger_armed [OF inv, of "LiveCharge c"] by simp
  then obtain H' where 1: "drop_charge c H = Some H'" "frame H' = frame H"
    using drop_charge_ok [of H c "live_toks (held R C + L) + owner_toks H" "{#}"]
      ledger_inv_toks [OF inv] by auto
  have "ledger_inv own L H' R C"
    by (rule ledger_step [OF inv, of "OpDropCharge c"]) (use 1 in simp_all)
  with 1 show "runs (drop_heap_charge (ledger_heap own) c H) (\<lambda>h'. ledger_inv own L h' R C)"
    by (simp add: ledger_heap_def)
qed

end
