(* ===== verification/CapTable.thy ===== *)
theory CapTable
  imports CapTypes HeapClient "HOL-Library.Monad_Syntax"
begin

text \<open>
  The capability table (\<^verbatim>\<open>kernel/cap/lib.rs\<close>): slots, the free list used as a stack, the heap
  charges of the two vectors, the generation counter and the count of reserved identities.

  The heap ledger enters as the record of calls of \<open>HeapClient\<close>, so that the table is verified
  against the contract of those calls. The Rust allocator behind \<open>Vec::try_reserve_exact\<close> is the
  function \<open>grant\<close>: the capacity it grants for an element size and a requested capacity, or
  none. A \<open>Vec::push\<close> beyond the reserved capacity would reallocate through the infallible
  allocator path, which can abort the kernel; the model treats it as a panic (\<open>None\<close>).
\<close>

section \<open>State\<close>

definition DEFAULT_CAP_SLOTS :: usize where "DEFAULT_CAP_SLOTS = 64"

definition MAX_CAP_SLOTS :: usize where "MAX_CAP_SLOTS = 65535"

definition MAX_GENERATION :: u64 where "MAX_GENERATION = 0x0000FFFFFFFFFFFF"

record cap_slot =
  slot_generation :: u64
  slot_entry :: cap_entry

record cap_table =
  cslots :: "cap_slot option list"
  slots_capacity :: usize
  free_list :: "u16 list"
  free_capacity :: usize
  slots_charge :: "heap_charge option"
  free_charge :: "heap_charge option"
  next_generation :: u64
  reserved_allocations :: usize

text \<open>What the compiler and the allocator decide: layouts of \<open>Option<CapSlot>\<close> and of
  \<open>CapTable\<close>, and the grants of the allocator.\<close>

record cap_env =
  slot_size :: usize
  slot_align :: usize
  table_size :: usize
  table_align :: usize
  grant :: "usize \<Rightarrow> usize \<Rightarrow> usize option"

definition U16_SIZE :: usize where "U16_SIZE = 2"

section \<open>Vector backing\<close>

definition prepare_cap_vec ::
  "'h heap_calls \<Rightarrow> (usize \<Rightarrow> usize \<Rightarrow> usize option) \<Rightarrow> usize \<Rightarrow> usize \<Rightarrow> usize \<Rightarrow> 'h \<Rightarrow>
   ('h \<times> (cap_error + usize \<times> heap_reservation)) option" where
  "prepare_cap_vec hp g elem_size align capacity h =
     (case vec_charge_bytes elem_size align capacity of
        Inl _ \<Rightarrow> Some (h, Err OutOfMemory)
      | Inr estimated \<Rightarrow> do {
          (h1, r) \<leftarrow> reserve_heap hp Capability estimated h;
          case r of
            Inl _ \<Rightarrow> Some (h1, Err OutOfMemory)
          | Inr reservation \<Rightarrow>
              (case g elem_size capacity of
                 None \<Rightarrow> do { h2 \<leftarrow> drop_heap_reservation hp reservation h1; Some (h2, Err OutOfMemory) }
               | Some granted \<Rightarrow>
                   (case vec_charge_bytes elem_size align granted of
                      Inl _ \<Rightarrow> do {
                        h2 \<leftarrow> drop_heap_reservation hp reservation h1; Some (h2, Err OutOfMemory) }
                    | Inr actual \<Rightarrow> do {
                        (h2, reservation', res) \<leftarrow> resize_heap hp reservation actual h1;
                        case res of
                          Inl _ \<Rightarrow> do {
                            h3 \<leftarrow> drop_heap_reservation hp reservation' h2; Some (h3, Err OutOfMemory) }
                        | Inr _ \<Rightarrow> Some (h2, Ok (granted, reservation')) }))
        })"

text \<open>The values themselves move unchanged from the old backing to the new one; what changes is
  the capacity and the charge.\<close>

definition install_cap_vec ::
  "'h heap_calls \<Rightarrow> usize \<Rightarrow> heap_charge option \<Rightarrow> usize \<times> heap_reservation \<Rightarrow> 'h \<Rightarrow>
   ('h \<times> usize \<times> heap_charge) option" where
  "install_cap_vec hp live_len charge prepared h =
     (let (granted, reservation) = prepared in
      if granted < live_len then None
      else do {
        (h1, r) \<leftarrow> commit_heap hp reservation h;
        case r of
          Inl _ \<Rightarrow> None
        | Inr replacement_charge \<Rightarrow> do {
            h2 \<leftarrow> drop_charge_opt hp charge h1;
            Some (h2, granted, replacement_charge) } })"

definition cap_growth_target :: "usize \<Rightarrow> usize \<Rightarrow> usize" where
  "cap_growth_target current_capacity required =
     max (min (max (case checked_mul_usize current_capacity 2 of None \<Rightarrow> MAX_CAP_SLOTS | Some n \<Rightarrow> n)
                DEFAULT_CAP_SLOTS) MAX_CAP_SLOTS) required"

section \<open>Free list and reclamation\<close>

definition push_free :: "u16 \<Rightarrow> cap_table \<Rightarrow> cap_table option" where
  "push_free index t =
     (if length (free_list t) < free_capacity t
      then Some (t\<lparr>free_list := free_list t @ [index]\<rparr>) else None)"

definition table_in_use :: "cap_table \<Rightarrow> bool" where
  "table_in_use t \<longleftrightarrow> reserved_allocations t \<noteq> 0 \<or> list_ex (\<lambda>s. s \<noteq> None) (cslots t)"

definition reclaim_if_unused :: "'h heap_calls \<Rightarrow> cap_table \<Rightarrow> 'h \<Rightarrow> ('h \<times> cap_table) option" where
  "reclaim_if_unused hp t h =
     (if table_in_use t then Some (h, t)
      else do {
        h1 \<leftarrow> drop_charge_opt hp (slots_charge t) h;
        h2 \<leftarrow> drop_charge_opt hp (free_charge t) h1;
        Some (h2, t\<lparr>cslots := [], slots_capacity := 0, free_list := [], free_capacity := 0,
                    slots_charge := None, free_charge := None\<rparr>) })"

fun vacant_indices :: "nat \<Rightarrow> cap_slot option list \<Rightarrow> u16 list" where
  "vacant_indices i [] = []"
| "vacant_indices i (s # ss) =
     (if s = None then word_of_nat i # vacant_indices (Suc i) ss else vacant_indices (Suc i) ss)"

text \<open>\<open>rebuild_free_list\<close> pushes onto the cleared vector; every push has to stay within the
  capacity.\<close>

definition rebuild_free_list :: "cap_table \<Rightarrow> cap_table option" where
  "rebuild_free_list t =
     (let vacant = vacant_indices 0 (cslots t) in
      if length vacant \<le> free_capacity t then Some (t\<lparr>free_list := vacant\<rparr>) else None)"

section \<open>Constructors\<close>

definition try_with_capacity ::
  "'h heap_calls \<Rightarrow> cap_env \<Rightarrow> usize \<Rightarrow> 'h \<Rightarrow> ('h \<times> (cap_error + cap_table)) option" where
  "try_with_capacity hp env capacity0 h =
     (let capacity = min capacity0 MAX_CAP_SLOTS in do {
        (h1, sl) \<leftarrow> prepare_cap_vec hp (grant env) (slot_size env) (slot_align env) capacity h;
        case sl of
          Inl e \<Rightarrow> Some (h1, Err e)
        | Inr (scap, sres) \<Rightarrow> do {
            (h2, fr) \<leftarrow> prepare_cap_vec hp (grant env) U16_SIZE U16_SIZE capacity h1;
            case fr of
              Inl e \<Rightarrow> do { h3 \<leftarrow> drop_heap_reservation hp sres h2; Some (h3, Err e) }
            | Inr (fcap, fres) \<Rightarrow> do {
                (h3, sc) \<leftarrow> commit_heap hp sres h2;
                case sc of
                  Inl _ \<Rightarrow> None
                | Inr scharge \<Rightarrow> do {
                    (h4, fc) \<leftarrow> commit_heap hp fres h3;
                    case fc of
                      Inl _ \<Rightarrow> None
                    | Inr fcharge \<Rightarrow>
                        Some (h4, Ok
                          \<lparr>cslots = replicate capacity None, slots_capacity = scap,
                           free_list = map word_of_nat [0..<capacity], free_capacity = fcap,
                           slots_charge = Some scharge, free_charge = Some fcharge,
                           next_generation = 1, reserved_allocations = 0\<rparr>) } } } })"

text \<open>\<open>arc_ok\<close> tells whether \<open>Arc::try_new\<close> finds the memory; if not, the table it was given is
  dropped with its charges.\<close>

definition try_new_arc ::
  "'h heap_calls \<Rightarrow> cap_env \<Rightarrow> bool \<Rightarrow> 'h \<Rightarrow> ('h \<times> (cap_error + cap_table \<times> heap_charge)) option" where
  "try_new_arc hp env arc_ok h =
     (case arc_charge_bytes (table_size env) (table_align env) of
        Inl _ \<Rightarrow> Some (h, Err OutOfMemory)
      | Inr arc_bytes \<Rightarrow> do {
          (h1, ar) \<leftarrow> reserve_heap hp Capability arc_bytes h;
          case ar of
            Inl _ \<Rightarrow> Some (h1, Err OutOfMemory)
          | Inr arc_res \<Rightarrow> do {
              (h2, inner) \<leftarrow> try_with_capacity hp env DEFAULT_CAP_SLOTS h1;
              case inner of
                Inl e \<Rightarrow> do { h3 \<leftarrow> drop_heap_reservation hp arc_res h2; Some (h3, Err e) }
              | Inr t \<Rightarrow> do {
                  (h3, ac) \<leftarrow> commit_heap hp arc_res h2;
                  case ac of
                    Inl _ \<Rightarrow> do {
                      h4 \<leftarrow> drop_charge_opt hp (slots_charge t) h3;
                      h5 \<leftarrow> drop_charge_opt hp (free_charge t) h4;
                      Some (h5, Err OutOfMemory) }
                  | Inr arc_charge \<Rightarrow>
                      if arc_ok then Some (h3, Ok (t, arc_charge))
                      else do {
                        h4 \<leftarrow> drop_charge_opt hp (slots_charge t) h3;
                        h5 \<leftarrow> drop_charge_opt hp (free_charge t) h4;
                        h6 \<leftarrow> drop_heap_charge hp arc_charge h5;
                        Some (h6, Err OutOfMemory) } } } })"

text \<open>\<open>with_capacity\<close> is the infallible constructor: \<open>vec![None; n]\<close> and \<open>collect\<close> allocate at
  least their length.\<close>

definition table_with_capacity :: "usize \<Rightarrow> usize \<Rightarrow> usize \<Rightarrow> cap_table" where
  "table_with_capacity scap fcap capacity0 =
     (let capacity = min capacity0 MAX_CAP_SLOTS in
      \<lparr>cslots = replicate capacity None, slots_capacity = scap,
       free_list = map word_of_nat [0..<capacity], free_capacity = fcap,
       slots_charge = None, free_charge = None, next_generation = 1, reserved_allocations = 0\<rparr>)"

section \<open>Allocation\<close>

definition prepare_growth ::
  "'h heap_calls \<Rightarrow> cap_env \<Rightarrow> bool \<Rightarrow> bool \<Rightarrow> usize \<Rightarrow> 'h \<Rightarrow>
   ('h \<times> (cap_error + (usize \<times> heap_reservation) option \<times> (usize \<times> heap_reservation) option)) option" where
  "prepare_growth hp env needs_slots needs_free capacity h = do {
     (h1, sl) \<leftarrow> (if needs_slots
        then do { (h', r) \<leftarrow> prepare_cap_vec hp (grant env) (slot_size env) (slot_align env) capacity h;
                  Some (h', case r of Inl e \<Rightarrow> Err e | Inr p \<Rightarrow> Ok (Some p)) }
        else Some (h, Ok None));
     case sl of
       Inl e \<Rightarrow> Some (h1, Err e)
     | Inr slots_prepared \<Rightarrow> do {
         (h2, fr) \<leftarrow> (if needs_free
            then do { (h', r) \<leftarrow> prepare_cap_vec hp (grant env) U16_SIZE U16_SIZE capacity h1;
                      Some (h', case r of Inl e \<Rightarrow> Err e | Inr p \<Rightarrow> Ok (Some p)) }
            else Some (h1, Ok None));
         case fr of
           Inl e \<Rightarrow> do {
             h3 \<leftarrow> (case slots_prepared of None \<Rightarrow> Some h2
                   | Some (_, r) \<Rightarrow> drop_heap_reservation hp r h2);
             Some (h3, Err e) }
         | Inr free_prepared \<Rightarrow> Some (h2, Ok (slots_prepared, free_prepared)) } }"

definition grow_table ::
  "'h heap_calls \<Rightarrow> cap_env \<Rightarrow> cap_table \<Rightarrow> 'h \<Rightarrow> ('h \<times> cap_table \<times> (cap_error + u16)) option" where
  "grow_table hp env t h =
     (if MAX_CAP_SLOTS \<le> length (cslots t) then Some (h, t, Err TableFull)
      else case checked_add_usize (length (cslots t)) 1 of
        None \<Rightarrow> Some (h, t, Err OutOfMemory)
      | Some new_len \<Rightarrow>
          (let preferred = cap_growth_target (max (slots_capacity t) (free_capacity t)) new_len;
               needs_slots = slots_capacity t < new_len;
               needs_free = free_capacity t < new_len
           in do {
             (h1, first) \<leftarrow> prepare_growth hp env needs_slots needs_free preferred h;
             (h2, prepared) \<leftarrow> (case first of
                  Inr p \<Rightarrow> Some (h1, Ok p)
                | Inl e \<Rightarrow> if preferred \<noteq> new_len
                           then prepare_growth hp env needs_slots needs_free new_len h1
                           else Some (h1, Err e));
             case prepared of
               Inl e \<Rightarrow> Some (h2, t, Err e)
             | Inr (slots_prepared, free_prepared) \<Rightarrow> do {
                 (h3, t1) \<leftarrow> (case slots_prepared of
                     None \<Rightarrow> Some (h2, t)
                   | Some p \<Rightarrow> do {
                       (h', cap, k) \<leftarrow> install_cap_vec hp (length (cslots t)) (slots_charge t) p h2;
                       Some (h', t\<lparr>slots_capacity := cap, slots_charge := Some k\<rparr>) });
                 (h4, t2) \<leftarrow> (case free_prepared of
                     None \<Rightarrow> Some (h3, t1)
                   | Some p \<Rightarrow> do {
                       (h', cap, k) \<leftarrow> install_cap_vec hp (length (free_list t1)) (free_charge t1) p h3;
                       Some (h', t1\<lparr>free_capacity := cap, free_charge := Some k\<rparr>) });
                 if length (cslots t2) < slots_capacity t2
                 then Some (h4, t2\<lparr>cslots := cslots t2 @ [None]\<rparr>, Ok (word_of_nat (length (cslots t2))))
                 else None } }))"

definition reserve_allocation ::
  "'h heap_calls \<Rightarrow> cap_env \<Rightarrow> cap_table \<Rightarrow> 'h \<Rightarrow> ('h \<times> cap_table \<times> (cap_error + u16 \<times> u64)) option" where
  "reserve_allocation hp env t h =
     (if MAX_GENERATION \<le> next_generation t then Some (h, t, Err GenerationExhausted)
      else case checked_add_usize (reserved_allocations t) 1 of
        None \<Rightarrow> Some (h, t, Err OutOfMemory)
      | Some next_reserved \<Rightarrow> do {
          (h1, t1, idx) \<leftarrow> (case free_list t of
              [] \<Rightarrow> grow_table hp env t h
            | _ \<Rightarrow> Some (h, t\<lparr>free_list := butlast (free_list t)\<rparr>, Ok (last (free_list t))));
          case idx of
            Inl e \<Rightarrow> Some (h1, t1, Err e)
          | Inr index \<Rightarrow>
              (case checked_add_word (next_generation t1) 1 of
                 None \<Rightarrow> Some (h1, t1, Err GenerationExhausted)
               | Some g \<Rightarrow>
                   Some (h1, t1\<lparr>next_generation := (if g = 0 then 1 else g),
                                reserved_allocations := next_reserved\<rparr>,
                         Ok (index, next_generation t1))) })"

definition reserved_slot_ok :: "cap_table \<Rightarrow> u16 \<Rightarrow> bool" where
  "reserved_slot_ok t index \<longleftrightarrow>
     reserved_allocations t \<noteq> 0 \<and> unat index < length (cslots t) \<and> cslots t ! unat index = None"

definition install_reserved ::
  "u16 \<Rightarrow> u64 \<Rightarrow> cap_entry \<Rightarrow> cap_table \<Rightarrow> (cap_table \<times> cap_id) option" where
  "install_reserved index generation entry t =
     (if reserved_slot_ok t index
      then Some (t\<lparr>cslots := (cslots t)[unat index :=
                     Some \<lparr>slot_generation = generation, slot_entry = entry\<rparr>],
                   reserved_allocations := reserved_allocations t - 1\<rparr>,
                 from_parts index generation)
      else None)"

definition cancel_reserved ::
  "'h heap_calls \<Rightarrow> u16 \<Rightarrow> cap_table \<Rightarrow> 'h \<Rightarrow> ('h \<times> cap_table) option" where
  "cancel_reserved hp index t h =
     (if reserved_slot_ok t index
      then do {
        t1 \<leftarrow> push_free index t;
        reclaim_if_unused hp (t1\<lparr>reserved_allocations := reserved_allocations t1 - 1\<rparr>) h }
      else None)"

definition cap_allocate ::
  "'h heap_calls \<Rightarrow> cap_env \<Rightarrow> cap_entry \<Rightarrow> cap_table \<Rightarrow> 'h \<Rightarrow>
   ('h \<times> cap_table \<times> (cap_error + cap_id)) option" where
  "cap_allocate hp env entry t h = do {
     (h1, t1, r) \<leftarrow> reserve_allocation hp env t h;
     case r of
       Inl e \<Rightarrow> Some (h1, t1, Err e)
     | Inr (index, generation) \<Rightarrow> do {
         (t2, cid) \<leftarrow> install_reserved index generation entry t1;
         Some (h1, t2, Ok cid) } }"

section \<open>Lookup, revocation, delegation\<close>

definition cap_lookup :: "cap_table \<Rightarrow> cap_id \<Rightarrow> cap_error + cap_entry" where
  "cap_lookup t cid =
     (if \<not> cap_is_valid cid then Err InvalidCapId
      else if length (cslots t) \<le> unat (cap_index cid) then Err InvalidCapId
      else case cslots t ! unat (cap_index cid) of
        None \<Rightarrow> Err InvalidCapId
      | Some slot \<Rightarrow>
          if slot_generation slot = cap_generation cid then Ok (slot_entry slot)
          else Err InvalidCapId)"

definition revoke_retaining_capacity ::
  "cap_id \<Rightarrow> cap_table \<Rightarrow> (cap_table \<times> (cap_error + cap_entry)) option" where
  "revoke_retaining_capacity cid t =
     (if \<not> cap_is_valid cid then Some (t, Err InvalidCapId)
      else if length (cslots t) \<le> unat (cap_index cid) then Some (t, Err InvalidCapId)
      else case cslots t ! unat (cap_index cid) of
        None \<Rightarrow> Some (t, Err InvalidCapId)
      | Some slot \<Rightarrow>
          if slot_generation slot = cap_generation cid then do {
            t1 \<leftarrow> push_free (cap_index cid)
                    (t\<lparr>cslots := (cslots t)[unat (cap_index cid) := None]\<rparr>);
            Some (t1, Ok (slot_entry slot)) }
          else Some (t, Err InvalidCapId))"

definition cap_revoke ::
  "'h heap_calls \<Rightarrow> cap_id \<Rightarrow> cap_table \<Rightarrow> 'h \<Rightarrow> ('h \<times> cap_table \<times> (cap_error + cap_entry)) option" where
  "cap_revoke hp cid t h = do {
     (t1, r) \<leftarrow> revoke_retaining_capacity cid t;
     case r of
       Inl e \<Rightarrow> Some (h, t1, Err e)
     | Inr entry \<Rightarrow> do { (h1, t2) \<leftarrow> reclaim_if_unused hp t1 h; Some (h1, t2, Ok entry) } }"

definition cap_delegate ::
  "'h heap_calls \<Rightarrow> cap_env \<Rightarrow> cap_id \<Rightarrow> cap_rights \<Rightarrow> cap_flags \<Rightarrow> cap_table \<Rightarrow> 'h \<Rightarrow>
   ('h \<times> cap_table \<times> (cap_error + cap_id)) option" where
  "cap_delegate hp env cid rights_mask flags t h =
     (case cap_lookup t cid of
        Inl e \<Rightarrow> Some (h, t, Err e)
      | Inr source \<Rightarrow>
          if has_flag (cflags source) NOXFER then Some (h, t, Err DelegationDenied)
          else if is_namespace (object source) then Some (h, t, Err DelegationDenied)
          else cap_allocate hp env
                 (cap_entry_with_flags (object source) (restrict_rights (rights source) rights_mask)
                    (flags OR cflags source)) t h)"

section \<open>Queries and reference counts\<close>

definition cap_check_rights :: "cap_table \<Rightarrow> cap_id \<Rightarrow> cap_rights \<Rightarrow> cap_error + bool" where
  "cap_check_rights t cid required =
     and_then (cap_lookup t cid) (\<lambda>e. Ok (entry_allows e required))"

definition cap_has_rights :: "cap_table \<Rightarrow> cap_rights \<Rightarrow> bool" where
  "cap_has_rights t required \<longleftrightarrow>
     list_ex (\<lambda>s. case s of None \<Rightarrow> False | Some slot \<Rightarrow> entry_allows (slot_entry slot) required)
       (cslots t)"

definition cap_len :: "cap_table \<Rightarrow> usize" where
  "cap_len t = length (filter (\<lambda>s. s \<noteq> None) (cslots t))"

definition cap_get_refcount :: "cap_table \<Rightarrow> cap_id \<Rightarrow> usize option" where
  "cap_get_refcount t cid =
     (case cap_lookup t cid of Inl _ \<Rightarrow> None | Inr e \<Rightarrow> Some (refcount e))"

definition update_entry :: "cap_id \<Rightarrow> (cap_entry \<Rightarrow> cap_entry) \<Rightarrow> cap_table \<Rightarrow> cap_table" where
  "update_entry cid f t =
     t\<lparr>cslots := (cslots t)[unat (cap_index cid) :=
         map_option (\<lambda>s. s\<lparr>slot_entry := f (slot_entry s)\<rparr>) (cslots t ! unat (cap_index cid))]\<rparr>"

definition cap_increment_refcount :: "cap_id \<Rightarrow> cap_table \<Rightarrow> cap_table \<times> (cap_error + unit)" where
  "cap_increment_refcount cid t =
     (case cap_lookup t cid of
        Inl e \<Rightarrow> (t, Err e)
      | Inr _ \<Rightarrow> (update_entry cid entry_increment_refcount t, Ok ()))"

definition cap_decrement_refcount :: "cap_id \<Rightarrow> cap_table \<Rightarrow> cap_table \<times> (cap_error + bool)" where
  "cap_decrement_refcount cid t =
     (case cap_lookup t cid of
        Inl e \<Rightarrow> (t, Err e)
      | Inr entry \<Rightarrow>
          (update_entry cid (\<lambda>e. fst (entry_decrement_refcount e)) t,
           Ok (snd (entry_decrement_refcount entry))))"

section \<open>Fork and exec\<close>

text \<open>\<open>CapSlot::clone\<close> copies the reference count verbatim into a fresh counter.\<close>

definition slot_clone :: "cap_slot \<Rightarrow> cap_slot" where
  "slot_clone s =
     \<lparr>slot_generation = slot_generation s,
      slot_entry = \<lparr>object = object (slot_entry s), rights = rights (slot_entry s),
                    cflags = cflags (slot_entry s), refcount = refcount (slot_entry s)\<rparr>\<rparr>"

lemma slot_clone_id [simp]: "slot_clone s = s"
  by (simp add: slot_clone_def)

definition inherit_slot :: "cap_slot option \<Rightarrow> cap_slot option" where
  "inherit_slot s =
     (case s of None \<Rightarrow> None
      | Some slot \<Rightarrow> if inherits_on_fork (slot_entry slot) then Some (slot_clone slot) else None)"

text \<open>
  The reservations and charges taken so far are given back when a later step fails; \<open>Err ()\<close>
  is the only error. The result carries the table and the charge of its \<open>Arc\<close>.
\<close>

definition try_clone_for_fork ::
  "'h heap_calls \<Rightarrow> cap_env \<Rightarrow> cap_table \<Rightarrow> 'h \<Rightarrow> ('h \<times> (unit + cap_table \<times> heap_charge)) option" where
  "try_clone_for_fork hp env t h =
     (let capacity = min (length (cslots t)) MAX_CAP_SLOTS in
      case arc_charge_bytes (table_size env) (table_align env) of
        Inl _ \<Rightarrow> Some (h, Err ())
      | Inr arc_bytes \<Rightarrow> do {
          (h1, ar) \<leftarrow> reserve_heap hp Capability arc_bytes h;
          case ar of
            Inl _ \<Rightarrow> Some (h1, Err ())
          | Inr arc_res \<Rightarrow> do {
              (h2, sl) \<leftarrow> prepare_cap_vec hp (grant env) (slot_size env) (slot_align env) capacity h1;
              case sl of
                Inl _ \<Rightarrow> do { h3 \<leftarrow> drop_heap_reservation hp arc_res h2; Some (h3, Err ()) }
              | Inr (scap, sres) \<Rightarrow> do {
                  (h3, fr) \<leftarrow> prepare_cap_vec hp (grant env) U16_SIZE U16_SIZE capacity h2;
                  case fr of
                    Inl _ \<Rightarrow> do {
                      h4 \<leftarrow> drop_heap_reservation hp sres h3;
                      h5 \<leftarrow> drop_heap_reservation hp arc_res h4;
                      Some (h5, Err ()) }
                  | Inr (fcap, fres) \<Rightarrow> do {
                      (h4, sc) \<leftarrow> commit_heap hp sres h3;
                      case sc of
                        Inl _ \<Rightarrow> do {
                          h5 \<leftarrow> drop_heap_reservation hp fres h4;
                          h6 \<leftarrow> drop_heap_reservation hp arc_res h5;
                          Some (h6, Err ()) }
                      | Inr scharge \<Rightarrow> do {
                          (h5, fc) \<leftarrow> commit_heap hp fres h4;
                          case fc of
                            Inl _ \<Rightarrow> do {
                              h6 \<leftarrow> drop_heap_charge hp scharge h5;
                              h7 \<leftarrow> drop_heap_reservation hp arc_res h6;
                              Some (h7, Err ()) }
                          | Inr fcharge \<Rightarrow> do {
                              t1 \<leftarrow> rebuild_free_list
                                 \<lparr>cslots = map inherit_slot (take capacity (cslots t)),
                                  slots_capacity = scap, free_list = [], free_capacity = fcap,
                                  slots_charge = Some scharge, free_charge = Some fcharge,
                                  next_generation = next_generation t, reserved_allocations = 0\<rparr>;
                              (h6, t2) \<leftarrow> reclaim_if_unused hp t1 h5;
                              (h7, ac) \<leftarrow> commit_heap hp arc_res h6;
                              case ac of
                                Inl _ \<Rightarrow> do {
                                  h8 \<leftarrow> drop_charge_opt hp (slots_charge t2) h7;
                                  h9 \<leftarrow> drop_charge_opt hp (free_charge t2) h8;
                                  Some (h9, Err ()) }
                              | Inr arc_charge \<Rightarrow> Some (h7, Ok (t2, arc_charge)) } } } } } })"

text \<open>
  The histogram of the child's descriptors is a slice sorted by identifier with one entry per
  identifier, where the binary search finds the entry of a key exactly when there is one.
\<close>

definition child_fd_count :: "(cap_id \<times> usize) list \<Rightarrow> cap_id \<Rightarrow> usize" where
  "child_fd_count child_counts cid =
     (case map_of child_counts cid of None \<Rightarrow> 0 | Some n \<Rightarrow> n)"

definition reconcile_slot :: "(cap_id \<times> usize) list \<Rightarrow> usize \<Rightarrow> cap_table \<Rightarrow> cap_table option" where
  "reconcile_slot child_counts idx t =
     (case cslots t ! idx of
        None \<Rightarrow> Some t
      | Some slot \<Rightarrow>
          if is_fd_backed (object (slot_entry slot)) then
            (let cid = from_parts (word_of_nat idx) (slot_generation slot);
                 n = child_fd_count child_counts cid
             in if n = 0 then map_option fst (revoke_retaining_capacity cid t)
                else Some (t\<lparr>cslots := (cslots t)[idx :=
                       Some (slot\<lparr>slot_entry := (slot_entry slot)\<lparr>refcount := n\<rparr>\<rparr>)]\<rparr>))
          else Some t)"

fun reconcile_walk :: "(cap_id \<times> usize) list \<Rightarrow> usize list \<Rightarrow> cap_table \<Rightarrow> cap_table option" where
  "reconcile_walk child_counts [] t = Some t"
| "reconcile_walk child_counts (i # is) t =
     do { t1 \<leftarrow> reconcile_slot child_counts i t; reconcile_walk child_counts is t1 }"

definition reconcile_refcounts_after_fork ::
  "'h heap_calls \<Rightarrow> (cap_id \<times> usize) list \<Rightarrow> cap_table \<Rightarrow> 'h \<Rightarrow> ('h \<times> cap_table) option" where
  "reconcile_refcounts_after_fork hp child_counts t h = do {
     t1 \<leftarrow> reconcile_walk child_counts [0..<length (cslots t)] t;
     reclaim_if_unused hp t1 h }"

definition closes_on_exec :: "cap_slot option \<Rightarrow> bool" where
  "closes_on_exec s =
     (case s of None \<Rightarrow> False | Some slot \<Rightarrow> \<not> inherits_on_exec (slot_entry slot))"

definition take_cloexec_slot :: "cap_table \<Rightarrow> (cap_table \<times> cap_slot option) option" where
  "take_cloexec_slot t =
     (case position closes_on_exec (cslots t) of
        None \<Rightarrow> Some (t, None)
      | Some index \<Rightarrow> do {
          t1 \<leftarrow> push_free (word_of_nat index) (t\<lparr>cslots := (cslots t)[index := None]\<rparr>);
          Some (t1, cslots t ! index) })"

lemma cloexec_shrinks:
  assumes "position closes_on_exec ss = Some i"
  shows "length (filter closes_on_exec (ss[i := None])) < length (filter closes_on_exec ss)"
  using assms
proof (induction ss arbitrary: i)
  case (Cons s ss)
  show ?case
  proof (cases "closes_on_exec s")
    case True
    with Cons.prems show ?thesis by (simp add: closes_on_exec_def)
  next
    case False
    with Cons.prems obtain j where "position closes_on_exec ss = Some j" "i = Suc j" by auto
    with Cons.IH False show ?thesis by simp
  qed
qed simp

function cloexec_loop :: "cap_table \<Rightarrow> cap_table option" where
  "cloexec_loop t =
     (case take_cloexec_slot t of
        None \<Rightarrow> None
      | Some (t1, None) \<Rightarrow> Some t1
      | Some (t1, Some _) \<Rightarrow> cloexec_loop t1)"
  by pat_completeness auto
termination
  by (relation "measure (\<lambda>t. length (filter closes_on_exec (cslots t)))")
    (auto simp: take_cloexec_slot_def push_free_def cloexec_shrinks split: option.splits if_splits
      bind_splits)

declare cloexec_loop.simps [simp del]

definition apply_cloexec :: "'h heap_calls \<Rightarrow> cap_table \<Rightarrow> 'h \<Rightarrow> ('h \<times> cap_table) option" where
  "apply_cloexec hp t h = do { t1 \<leftarrow> cloexec_loop t; reclaim_if_unused hp t1 h }"

end
