(* ===== verification/CapInvariant.thy ===== *)
theory CapInvariant
  imports CapTable
begin

text \<open>
  The contract the capability table expects of the heap (\<open>cap_ledger\<close>), the well-formedness of
  a table and the lemmas that every operation keeps both. \<open>cap_wf t P\<close> carries the identities
  \<open>P\<close> that are reserved but not yet published, one per live \<open>PreparedCapAllocation\<close>.
\<close>

section \<open>Well-formed tables\<close>

definition cap_wf :: "cap_table \<Rightarrow> (u16 \<times> u64) set \<Rightarrow> bool" where
  "cap_wf t P \<longleftrightarrow>
     length (cslots t) \<le> MAX_CAP_SLOTS \<and> length (cslots t) \<le> slots_capacity t \<and>
     length (cslots t) \<le> free_capacity t \<and> distinct (free_list t) \<and>
     finite P \<and> inj_on fst P \<and> reserved_allocations t = card P \<and>
     set (free_list t) \<inter> fst ` P = {} \<and>
     (\<forall>i. i \<in> set (free_list t) \<union> fst ` P \<longleftrightarrow>
        unat i < length (cslots t) \<and> cslots t ! unat i = None) \<and>
     1 \<le> next_generation t \<and> next_generation t \<le> MAX_GENERATION \<and>
     (\<forall>i<length (cslots t). \<forall>s. cslots t ! i = Some s \<longrightarrow>
        1 \<le> slot_generation s \<and> slot_generation s < next_generation t) \<and>
     (\<forall>p\<in>P. 1 \<le> snd p \<and> snd p < next_generation t)"

lemma cap_wfD:
  assumes "cap_wf t P"
  shows "length (cslots t) \<le> MAX_CAP_SLOTS" "length (cslots t) \<le> slots_capacity t"
    "length (cslots t) \<le> free_capacity t" "distinct (free_list t)" "finite P" "inj_on fst P"
    "reserved_allocations t = card P" "set (free_list t) \<inter> fst ` P = {}"
    "i \<in> set (free_list t) \<union> fst ` P \<longleftrightarrow> unat i < length (cslots t) \<and> cslots t ! unat i = None"
    "1 \<le> next_generation t" "next_generation t \<le> MAX_GENERATION"
    "j < length (cslots t) \<Longrightarrow> cslots t ! j = Some s \<Longrightarrow>
       1 \<le> slot_generation s \<and> slot_generation s < next_generation t"
    "p \<in> P \<Longrightarrow> 1 \<le> snd p \<and> snd p < next_generation t"
  using assms unfolding cap_wf_def by simp_all

lemma cap_wfI:
  assumes "length (cslots t) \<le> MAX_CAP_SLOTS" "length (cslots t) \<le> slots_capacity t"
    "length (cslots t) \<le> free_capacity t" "distinct (free_list t)" "finite P" "inj_on fst P"
    "reserved_allocations t = card P" "set (free_list t) \<inter> fst ` P = {}"
    "\<And>i. i \<in> set (free_list t) \<union> fst ` P \<longleftrightarrow> unat i < length (cslots t) \<and> cslots t ! unat i = None"
    "1 \<le> next_generation t" "next_generation t \<le> MAX_GENERATION"
    "\<And>j s. j < length (cslots t) \<Longrightarrow> cslots t ! j = Some s \<Longrightarrow>
       1 \<le> slot_generation s \<and> slot_generation s < next_generation t"
    "\<And>p. p \<in> P \<Longrightarrow> 1 \<le> snd p \<and> snd p < next_generation t"
  shows "cap_wf t P"
  unfolding cap_wf_def using assms by simp

lemma unat_u16_of_nat: "i \<le> MAX_CAP_SLOTS \<Longrightarrow> unat (word_of_nat i :: u16) = i"
  by (simp add: MAX_CAP_SLOTS_def unat_of_nat take_bit_nat_eq_self)

lemma card_u16_below: "card {i :: u16. unat i < n} \<le> n"
proof -
  have "inj_on (unat :: u16 \<Rightarrow> nat) {i. unat i < n}" by (auto intro: inj_onI simp: word_unat_eq_iff)
  then have "card {i :: u16. unat i < n} = card (unat ` {i :: u16. unat i < n})"
    by (simp add: card_image)
  also have "\<dots> \<le> card {..<n}" by (intro card_mono) auto
  finally show ?thesis by simp
qed

text \<open>INV-CAP-FREELIST-CAP: a list of distinct slot indices fits the free list's backing.\<close>

lemma distinct_indices_length:
  assumes "distinct xs" "\<And>i. i \<in> set xs \<Longrightarrow> unat i < n"
  shows "length (xs :: u16 list) \<le> n"
proof -
  have "length xs = card (set xs)" using assms(1) by (simp add: distinct_card)
  also have "\<dots> \<le> card {i :: u16. unat i < n}" by (intro card_mono) (use assms(2) in auto)
  finally show ?thesis using card_u16_below [of n] by simp
qed

section \<open>Identifiers and views\<close>

definition cap_view :: "cap_table \<Rightarrow> cap_id \<rightharpoonup> cap_entry" where
  "cap_view t cid = (case cap_lookup t cid of Inl _ \<Rightarrow> None | Inr e \<Rightarrow> Some e)"

lemma cap_lookup_Ok:
  "cap_lookup t cid = Ok e \<longleftrightarrow>
     cap_is_valid cid \<and> unat (cap_index cid) < length (cslots t) \<and>
     (\<exists>s. cslots t ! unat (cap_index cid) = Some s \<and> slot_generation s = cap_generation cid \<and>
          slot_entry s = e)"
  by (auto simp: cap_lookup_def split: option.splits if_splits)

lemma cap_view_Some:
  "cap_view t cid = Some e \<longleftrightarrow>
     cap_is_valid cid \<and> unat (cap_index cid) < length (cslots t) \<and>
     (\<exists>s. cslots t ! unat (cap_index cid) = Some s \<and> slot_generation s = cap_generation cid \<and>
          slot_entry s = e)"
  by (auto simp: cap_view_def cap_lookup_Ok [symmetric] split: sum.splits)

lemma cap_lookup_Err: "cap_lookup t cid = Err e \<Longrightarrow> e = InvalidCapId \<and> cap_view t cid = None"
  by (auto simp: cap_lookup_def cap_view_def split: option.splits if_splits)

lemma cap_lookup_view: "cap_lookup t cid = Ok e \<longleftrightarrow> cap_view t cid = Some e"
  by (simp only: cap_lookup_Ok cap_view_Some)

lemma cap_view_None_lookup: "cap_view t cid = None \<Longrightarrow> cap_lookup t cid = Err InvalidCapId"
  by (cases "cap_lookup t cid") (auto simp: cap_lookup_view dest: cap_lookup_Err)

lemma lookup_of_view:
  "cap_lookup t cid = (case cap_view t cid of None \<Rightarrow> Err InvalidCapId | Some e \<Rightarrow> Ok e)"
  by (cases "cap_view t cid") (simp_all add: cap_lookup_view cap_view_None_lookup)

lemma generation_48: "g \<le> MAX_GENERATION \<Longrightarrow> g < 2 ^ 48"
  by (simp add: MAX_GENERATION_def word_le_nat_alt word_less_nat_alt)

lemma from_parts_parts:
  assumes "g \<le> MAX_GENERATION" "1 \<le> g"
  shows "cap_index (from_parts i g) = i" "cap_generation (from_parts i g) = g"
    "cap_is_valid (from_parts i g)"
  using assms cap_generation_from_parts [OF generation_48 [OF assms(1)]]
  by (auto simp: cap_is_valid_def word_le_nat_alt word_less_nat_alt)

text \<open>Only the slots decide the view; writing one slot changes one column of it.\<close>

lemma cap_view_cong: "cslots t = cslots t' \<Longrightarrow> cap_view t = cap_view t'"
  by (rule ext) (simp add: cap_view_def cap_lookup_def)

lemma cap_view_append:
  assumes "cslots t' = cslots t @ [None]"
  shows "cap_view t' = cap_view t"
  by (rule ext) (auto simp: cap_view_def cap_lookup_def assms nth_append)

lemma cap_view_put:
  assumes "unat i < length (cslots t)" "cslots t ! unat i = None"
    and "1 \<le> g" "g \<le> MAX_GENERATION"
    and "cslots t' = (cslots t)[unat i := Some \<lparr>slot_generation = g, slot_entry = e\<rparr>]"
  shows "cap_view t' = (cap_view t)(from_parts i g \<mapsto> e)"
proof (rule ext)
  fix cid
  note parts = from_parts_parts [OF assms(4,3), of i]
  show "cap_view t' cid = ((cap_view t)(from_parts i g \<mapsto> e)) cid"
  proof (cases "cap_index cid = i")
    case True
    have "cid = from_parts i g \<longleftrightarrow> cap_generation cid = g"
      using True parts by (metis cap_id_eqI)
    with True assms parts show ?thesis
      by (auto simp: cap_view_def cap_lookup_def)
  next
    case False
    then have "unat (cap_index cid) \<noteq> unat i" by (simp add: word_unat_eq_iff)
    moreover have "cid \<noteq> from_parts i g" using False by auto
    ultimately show ?thesis by (simp add: cap_view_def cap_lookup_def assms(5))
  qed
qed

lemma cap_view_clear:
  assumes "cap_view t cid = Some e"
    and "cslots t' = (cslots t)[unat (cap_index cid) := None]"
  shows "cap_view t' = (cap_view t)(cid := None)"
proof (rule ext)
  fix c
  obtain s where s: "unat (cap_index cid) < length (cslots t)"
    "cslots t ! unat (cap_index cid) = Some s" "slot_generation s = cap_generation cid"
    using assms(1) by (auto simp: cap_view_Some)
  show "cap_view t' c = ((cap_view t)(cid := None)) c"
  proof (cases "cap_index c = cap_index cid")
    case True
    have "c = cid \<longleftrightarrow> cap_generation c = cap_generation cid" using True by (metis cap_id_eqI)
    with True s assms(2) show ?thesis by (auto simp: cap_view_def cap_lookup_def)
  next
    case False
    then have "unat (cap_index c) \<noteq> unat (cap_index cid)" by (simp add: word_unat_eq_iff)
    with False assms(2) show ?thesis by (auto simp: cap_view_def cap_lookup_def)
  qed
qed

section \<open>Table steps\<close>

lemma next_generation_step:
  assumes "1 \<le> g" "g < MAX_GENERATION"
  shows "checked_add_word g 1 = Some (g + 1)" "g + 1 \<noteq> 0" "g + 1 \<le> MAX_GENERATION"
    "1 \<le> g + 1" "g < g + 1" "x < g \<Longrightarrow> x < g + 1"
proof -
  have g: "unat g < 281474976710655"
    using assms(2) by (simp add: MAX_GENERATION_def word_less_nat_alt)
  then have u: "unat (g + 1) = unat g + 1"
    by (simp add: unat_word_ariths)
  show "checked_add_word g 1 = Some (g + 1)" using u by (simp add: checked)
  show "g + 1 \<noteq> 0" using u by auto
  show "g + 1 \<le> MAX_GENERATION" "1 \<le> g + 1" "g < g + 1" "x < g \<Longrightarrow> x < g + 1"
    using u g by (simp_all add: MAX_GENERATION_def word_le_nat_alt word_less_nat_alt)
qed

text \<open>Handing out the vacant index \<open>i\<close> with the next generation.\<close>

lemma cap_wf_issue:
  assumes len: "length (cslots t) \<le> MAX_CAP_SLOTS" "length (cslots t) \<le> slots_capacity t"
      "length (cslots t) \<le> free_capacity t"
    and free: "distinct (free_list t)" "i \<notin> set (free_list t)" "i \<notin> fst ` P"
      "set (free_list t) \<inter> fst ` P = {}"
    and vacant: "\<And>j. j \<in> insert i (set (free_list t) \<union> fst ` P) \<longleftrightarrow>
      unat j < length (cslots t) \<and> cslots t ! unat j = None"
    and P: "finite P" "inj_on fst P" "reserved_allocations t = card P"
      "\<And>p. p \<in> P \<Longrightarrow> 1 \<le> snd p \<and> snd p < next_generation t"
    and gen: "1 \<le> next_generation t" "next_generation t < MAX_GENERATION"
      "\<And>j s. j < length (cslots t) \<Longrightarrow> cslots t ! j = Some s \<Longrightarrow>
         1 \<le> slot_generation s \<and> slot_generation s < next_generation t"
  shows "cap_wf (t\<lparr>next_generation := next_generation t + 1, reserved_allocations := card P + 1\<rparr>)
    (insert (i, next_generation t) P)"
proof -
  note n = next_generation_step [OF gen(1,2)]
  have new: "(i, next_generation t) \<notin> P" using free(3) by force
  show ?thesis
  proof (rule cap_wfI)
    show "inj_on fst (insert (i, next_generation t) P)" using P(2) free(3) by (auto simp: inj_on_def)
    show "set (free_list (t\<lparr>next_generation := next_generation t + 1, reserved_allocations := card P + 1\<rparr>))
        \<inter> fst ` insert (i, next_generation t) P = {}" using free by auto
    fix j s
    assume "j < length (cslots (t\<lparr>next_generation := next_generation t + 1, reserved_allocations := card P + 1\<rparr>))"
      "cslots (t\<lparr>next_generation := next_generation t + 1, reserved_allocations := card P + 1\<rparr>) ! j = Some s"
    then show "1 \<le> slot_generation s \<and> slot_generation s <
        next_generation (t\<lparr>next_generation := next_generation t + 1, reserved_allocations := card P + 1\<rparr>)"
      using gen(3) [of j s] n(6) by simp
  next
    fix p assume "p \<in> insert (i, next_generation t) P"
    then show "1 \<le> snd p \<and> snd p <
        next_generation (t\<lparr>next_generation := next_generation t + 1, reserved_allocations := card P + 1\<rparr>)"
      using P(4) [of p] gen(1) n(5,6) by auto
  next
    fix j
    show "j \<in> set (free_list (t\<lparr>next_generation := next_generation t + 1, reserved_allocations := card P + 1\<rparr>)) \<union>
        fst ` insert (i, next_generation t) P \<longleftrightarrow>
        unat j < length (cslots (t\<lparr>next_generation := next_generation t + 1, reserved_allocations := card P + 1\<rparr>)) \<and>
        cslots (t\<lparr>next_generation := next_generation t + 1, reserved_allocations := card P + 1\<rparr>) ! unat j = None"
      using vacant [of j] by simp
  qed (use len free P(1,3) new n(3,4) in simp_all)
qed

lemma cap_wf_pop:
  assumes wf: "cap_wf t P" and ne: "free_list t \<noteq> []" and g: "next_generation t < MAX_GENERATION"
  shows "cap_wf (t\<lparr>free_list := butlast (free_list t), next_generation := next_generation t + 1,
      reserved_allocations := card P + 1\<rparr>) (insert (last (free_list t), next_generation t) P)"
proof -
  let ?t = "t\<lparr>free_list := butlast (free_list t)\<rparr>" and ?i = "last (free_list t)"
  note D = cap_wfD [OF wf]
  obtain xs x where xs: "free_list t = xs @ [x]" using ne by (cases "free_list t" rule: rev_cases) auto
  have sets: "set (free_list t) = insert ?i (set (butlast (free_list t)))"
    and dist: "distinct (butlast (free_list t))" "?i \<notin> set (butlast (free_list t))"
    using D(4) by (simp_all add: xs)
  have "cap_wf (?t\<lparr>next_generation := next_generation ?t + 1, reserved_allocations := card P + 1\<rparr>)
      (insert (?i, next_generation ?t) P)"
  proof (rule cap_wf_issue)
    show "?i \<notin> fst ` P" "set (free_list ?t) \<inter> fst ` P = {}" using D(8) sets by auto
    show "j \<in> insert ?i (set (free_list ?t) \<union> fst ` P) \<longleftrightarrow>
        unat j < length (cslots ?t) \<and> cslots ?t ! unat j = None" for j
      using D(9) [of j] sets by simp
  qed (use D(1-7,10-13) dist g in simp_all)
  then show ?thesis by simp
qed

lemma cap_wf_extend:
  assumes wf: "cap_wf t P" and none: "free_list t = []" and g: "next_generation t < MAX_GENERATION"
    and len: "length (cslots t) < MAX_CAP_SLOTS"
    and t': "cslots t' = cslots t @ [None]" "free_list t' = []"
      "next_generation t' = next_generation t" "reserved_allocations t' = reserved_allocations t"
      "length (cslots t) < slots_capacity t'" "length (cslots t) < free_capacity t'"
  shows "cap_wf (t'\<lparr>next_generation := next_generation t + 1, reserved_allocations := card P + 1\<rparr>)
      (insert (word_of_nat (length (cslots t)), next_generation t) P)"
proof -
  note D = cap_wfD [OF wf]
  let ?i = "word_of_nat (length (cslots t)) :: u16"
  have i: "unat ?i = length (cslots t)" using len by (simp add: unat_u16_of_nat)
  have vac: "j \<in> fst ` P \<longleftrightarrow> unat j < length (cslots t) \<and> cslots t ! unat j = None" for j
    using D(9) [of j] none by simp
  have "cap_wf (t'\<lparr>next_generation := next_generation t' + 1, reserved_allocations := card P + 1\<rparr>)
      (insert (?i, next_generation t') P)"
  proof (rule cap_wf_issue)
    show "?i \<notin> fst ` P" using vac [of ?i] i by simp
    show "j \<in> insert ?i (set (free_list t') \<union> fst ` P) \<longleftrightarrow>
        unat j < length (cslots t') \<and> cslots t' ! unat j = None" for j
      using vac [of j] i t' by (auto simp: nth_append word_unat_eq_iff less_Suc_eq)
    show "1 \<le> slot_generation s \<and> slot_generation s < next_generation t'"
      if "j < length (cslots t')" "cslots t' ! j = Some s" for j s
      using that D(12) [of j s] t' by (auto simp: nth_append less_Suc_eq split: if_splits)
  qed (use D(1-7,10,11,13) t' g len none in simp_all)
  then show ?thesis using t' by simp
qed

lemma cap_wf_pending:
  assumes wf: "cap_wf t P" and p: "(i, g) \<in> P"
  shows "unat i < length (cslots t)" "cslots t ! unat i = None" "i \<notin> set (free_list t)"
    "reserved_slot_ok t i" "1 \<le> g" "g \<le> MAX_GENERATION" "fst ` (P - {(i, g)}) = fst ` P - {i}"
proof -
  note D = cap_wfD [OF wf]
  have i: "i \<in> fst ` P" using p by force
  show len: "unat i < length (cslots t)" and vac: "cslots t ! unat i = None"
    using D(9) [of i] i by simp_all
  show "i \<notin> set (free_list t)" using D(8) i by auto
  have "card P \<noteq> 0" using D(5) p by auto
  with len vac D(7) show "reserved_slot_ok t i" by (simp add: reserved_slot_ok_def)
  show "1 \<le> g" "g \<le> MAX_GENERATION" using D(11,13) p by fastforce+
  show "fst ` (P - {(i, g)}) = fst ` P - {i}"
    using inj_on_image_set_diff [OF D(6), of P "{(i, g)}"] p by auto
qed

lemma install_reserved_ok:
  assumes wf: "cap_wf t P" and p: "(i, g) \<in> P"
  obtains t' where "install_reserved i g e t = Some (t', from_parts i g)"
    "cap_wf t' (P - {(i, g)})" "cap_view t' = (cap_view t)(from_parts i g \<mapsto> e)"
    "cap_view t (from_parts i g) = None" "next_generation t' = next_generation t"
    "slots_charge t' = slots_charge t" "free_charge t' = free_charge t"
proof -
  note D = cap_wfD [OF wf] and pend = cap_wf_pending [OF wf p]
  let ?s = "Some \<lparr>slot_generation = g, slot_entry = e\<rparr>"
  let ?t = "t\<lparr>cslots := (cslots t)[unat i := ?s], reserved_allocations := reserved_allocations t - 1\<rparr>"
  have "cap_wf ?t (P - {(i, g)})"
  proof (rule cap_wfI)
    show "reserved_allocations ?t = card (P - {(i, g)})" using D(5,7) p by simp
    show "set (free_list ?t) \<inter> fst ` (P - {(i, g)}) = {}" using D(8) pend(7) by auto
    show "j \<in> set (free_list ?t) \<union> fst ` (P - {(i, g)}) \<longleftrightarrow>
        unat j < length (cslots ?t) \<and> cslots ?t ! unat j = None" for j
      using D(9) [of j] pend(1,3,7) by (cases "j = i") (auto simp: nth_list_update word_unat_eq_iff [symmetric])
    show "1 \<le> slot_generation s \<and> slot_generation s < next_generation ?t"
      if "j < length (cslots ?t)" "cslots ?t ! j = Some s" for j s
      using that D(12) [of j s] D(13) [OF p] pend(1) by (cases "j = unat i") auto
    show "inj_on fst (P - {(i, g)})" using D(6) by (rule inj_on_subset) auto
    show "1 \<le> snd q \<and> snd q < next_generation ?t" if "q \<in> P - {(i, g)}" for q
      using D(13) [of q] that by simp
  qed (use D(1-5,10,11) in simp_all)
  moreover have "cap_view ?t = (cap_view t)(from_parts i g \<mapsto> e)"
    by (rule cap_view_put [OF pend(1,2,5,6)]) simp
  moreover have "cap_view t (from_parts i g) = None"
    using pend(2) from_parts_parts [OF pend(6,5)] by (simp add: cap_view_def cap_lookup_def)
  ultimately show ?thesis
    using pend(4) by (intro that [of ?t]) (simp_all add: install_reserved_def)
qed

lemma push_free_ok:
  assumes "distinct (free_list t)" "i \<notin> set (free_list t)"
    and "\<And>j. j \<in> insert i (set (free_list t)) \<Longrightarrow> unat j < n" and "n \<le> free_capacity t"
  shows "push_free i t = Some (t\<lparr>free_list := free_list t @ [i]\<rparr>)"
proof -
  have "length (free_list t @ [i]) \<le> n"
    by (rule distinct_indices_length) (use assms(1-3) in auto)
  with assms(4) show ?thesis by (simp add: push_free_def)
qed

lemma cancel_push_ok:
  assumes wf: "cap_wf t P" and p: "(i, g) \<in> P"
  obtains t1 where "push_free i t = Some t1" "reserved_allocations t1 = card P"
    "cap_wf (t1\<lparr>reserved_allocations := card P - 1\<rparr>) (P - {(i, g)})" "cslots t1 = cslots t"
    "next_generation t1 = next_generation t"
    "slots_charge t1 = slots_charge t" "free_charge t1 = free_charge t"
proof -
  note D = cap_wfD [OF wf] and pend = cap_wf_pending [OF wf p]
  let ?t = "t\<lparr>free_list := free_list t @ [i]\<rparr>"
  let ?t' = "?t\<lparr>reserved_allocations := card P - 1\<rparr>"
  have below: "unat j < length (cslots t)" if "j \<in> insert i (set (free_list t))" for j
    using that D(9) [of j] pend(1) by auto
  have "push_free i t = Some ?t" by (rule push_free_ok [OF D(4) pend(3) below D(3)])
  moreover have "cap_wf ?t' (P - {(i, g)})"
  proof (rule cap_wfI)
    show "reserved_allocations ?t' = card (P - {(i, g)})" using D(5) p by simp
    show "set (free_list ?t') \<inter> fst ` (P - {(i, g)}) = {}" using D(8) pend(7) by auto
    show "j \<in> set (free_list ?t') \<union> fst ` (P - {(i, g)}) \<longleftrightarrow>
        unat j < length (cslots ?t') \<and> cslots ?t' ! unat j = None" for j
      using D(9) [of j] pend(1,2,7) by (cases "j = i") auto
    show "inj_on fst (P - {(i, g)})" using D(6) by (rule inj_on_subset) auto
    show "1 \<le> snd q \<and> snd q < next_generation ?t'" if "q \<in> P - {(i, g)}" for q
      using D(13) [of q] that by simp
  qed (use D(1-5,10-12) pend(3) in simp_all)
  ultimately show ?thesis using D(7) by (intro that [of ?t]) simp_all
qed

lemma vacate_ok:
  assumes wf: "cap_wf t P" and i: "unat i < length (cslots t)" "cslots t ! unat i = Some s"
  obtains t1 where "push_free i (t\<lparr>cslots := (cslots t)[unat i := None]\<rparr>) = Some t1"
    "cap_wf t1 P" "cslots t1 = (cslots t)[unat i := None]"
    "next_generation t1 = next_generation t" "slots_charge t1 = slots_charge t"
    "free_charge t1 = free_charge t"
proof -
  note D = cap_wfD [OF wf]
  let ?t = "t\<lparr>cslots := (cslots t)[unat i := None]\<rparr>"
  let ?t' = "?t\<lparr>free_list := free_list ?t @ [i]\<rparr>"
  have out: "i \<notin> set (free_list t)" "i \<notin> fst ` P" using D(9) [of i] i by auto
  have below: "unat j < length (cslots t)" if "j \<in> insert i (set (free_list ?t))" for j
    using that D(9) [of j] i(1) by auto
  have "push_free i ?t = Some ?t'"
    by (rule push_free_ok [where n = "length (cslots t)"]) (use D(3,4) out below in auto)
  moreover have "cap_wf ?t' P"
  proof (rule cap_wfI)
    show "j \<in> set (free_list ?t') \<union> fst ` P \<longleftrightarrow>
        unat j < length (cslots ?t') \<and> cslots ?t' ! unat j = None" for j
      using D(9) [of j] i by (cases "j = i") (auto simp: nth_list_update word_unat_eq_iff [symmetric])
    show "1 \<le> slot_generation s \<and> slot_generation s < next_generation ?t'"
      if "j < length (cslots ?t')" "cslots ?t' ! j = Some s" for j s
      using that D(12) [of j s] by (cases "j = unat i") (simp_all add: i)
  qed (use D(1-8,10,11,13) out in simp_all)
  ultimately show ?thesis by (intro that [of ?t']) simp_all
qed

text \<open>Rewriting entries in place keeps generations and occupancy.\<close>

definition same_shape :: "cap_slot option list \<Rightarrow> cap_slot option list \<Rightarrow> bool" where
  "same_shape ss ss' \<longleftrightarrow> map (map_option slot_generation) ss = map (map_option slot_generation) ss'"

lemma same_shapeD:
  assumes "same_shape ss ss'"
  shows "length ss' = length ss" "j < length ss \<Longrightarrow> (ss' ! j = None) = (ss ! j = None)"
    "j < length ss \<Longrightarrow> ss' ! j = Some s' \<Longrightarrow> \<exists>s. ss ! j = Some s \<and> slot_generation s = slot_generation s'"
proof -
  show len: "length ss' = length ss" using assms by (auto simp: same_shape_def dest: map_eq_imp_length_eq)
  have eq: "map_option slot_generation (ss ! j) = map_option slot_generation (ss' ! j)" if "j < length ss" for j
    using assms that len unfolding same_shape_def by (metis nth_map)
  show "(ss' ! j = None) = (ss ! j = None)" if "j < length ss" using eq [OF that] by (metis option.map_disc_iff)
  show "\<exists>s. ss ! j = Some s \<and> slot_generation s = slot_generation s'" if "j < length ss" "ss' ! j = Some s'"
    using eq [OF that(1)] that(2) by (cases "ss ! j") auto
qed

lemma cap_wf_same_shape:
  assumes wf: "cap_wf t P" and shape: "same_shape (cslots t) ss"
  shows "cap_wf (t\<lparr>cslots := ss\<rparr>) P"
proof -
  note D = cap_wfD [OF wf] and S = same_shapeD [OF shape]
  show ?thesis
  proof (rule cap_wfI)
    show "j \<in> set (free_list (t\<lparr>cslots := ss\<rparr>)) \<union> fst ` P \<longleftrightarrow>
        unat j < length (cslots (t\<lparr>cslots := ss\<rparr>)) \<and> cslots (t\<lparr>cslots := ss\<rparr>) ! unat j = None" for j
      using D(9) [of j] S(1,2) by auto
    show "1 \<le> slot_generation s \<and> slot_generation s < next_generation (t\<lparr>cslots := ss\<rparr>)"
      if "j < length (cslots (t\<lparr>cslots := ss\<rparr>))" "cslots (t\<lparr>cslots := ss\<rparr>) ! j = Some s" for j s
      using that D(12) [of j] S(1) S(3) [of j s] by fastforce
  qed (use D(1-8,10,11,13) S(1) in simp_all)
qed

lemma not_in_use_slots:
  assumes wf: "cap_wf t P" and "\<not> table_in_use t"
  shows "P = {}" "cap_view t cid = None"
proof -
  show "P = {}" using assms(2) cap_wfD(5,7) [OF wf] by (simp add: table_in_use_def)
  have "cslots t ! j = None" if "j < length (cslots t)" for j
    using assms(2) nth_mem [OF that] by (auto simp: table_in_use_def list_ex_iff)
  then show "cap_view t cid = None"
    by (simp add: cap_view_def cap_lookup_def)
qed

definition emptied :: "cap_table \<Rightarrow> cap_table" where
  "emptied t = t\<lparr>cslots := [], slots_capacity := 0, free_list := [], free_capacity := 0,
     slots_charge := None, free_charge := None\<rparr>"

lemma cap_wf_emptied: "cap_wf t {} \<Longrightarrow> cap_wf (emptied t) {}"
  using cap_wfD(7,10,11) [of t "{}"] by (intro cap_wfI) (simp_all add: emptied_def)

lemma cap_view_emptied: "cap_view (emptied t) = Map.empty"
  by (rule ext) (simp add: cap_view_def cap_lookup_def emptied_def)

section \<open>Revocation and reference counts\<close>

lemma revoke_retaining_ok:
  assumes wf: "cap_wf t P"
  shows "runs (revoke_retaining_capacity cid t)
    (\<lambda>(t', r). cap_wf t' P \<and> length (cslots t') = length (cslots t) \<and>
       next_generation t' = next_generation t \<and>
       slots_charge t' = slots_charge t \<and> free_charge t' = free_charge t \<and>
       (case r of Inl e \<Rightarrow> t' = t \<and> e = InvalidCapId \<and> cap_view t cid = None
        | Inr e \<Rightarrow> cap_view t cid = Some e \<and> cap_view t' = (cap_view t)(cid := None)))"
proof (cases "cap_view t cid")
  case None
  then have "revoke_retaining_capacity cid t = Some (t, Err InvalidCapId)"
    by (auto simp: revoke_retaining_capacity_def cap_view_def cap_lookup_def split: option.splits if_splits)
  with wf None show ?thesis by simp
next
  case (Some e)
  let ?i = "cap_index cid"
  obtain s where s: "cap_is_valid cid" "unat ?i < length (cslots t)" "cslots t ! unat ?i = Some s"
    "slot_generation s = cap_generation cid" "slot_entry s = e"
    using Some by (auto simp: cap_view_Some)
  obtain t1 where t1: "push_free ?i (t\<lparr>cslots := (cslots t)[unat ?i := None]\<rparr>) = Some t1"
    "cap_wf t1 P" "cslots t1 = (cslots t)[unat ?i := None]" "next_generation t1 = next_generation t"
    "slots_charge t1 = slots_charge t" "free_charge t1 = free_charge t"
    by (rule vacate_ok [OF wf s(2,3)])
  have "cap_view t1 = (cap_view t)(cid := None)" by (rule cap_view_clear [OF Some t1(3)])
  with Some s t1 show ?thesis by (simp add: revoke_retaining_capacity_def)
qed

lemma same_shape_update:
  assumes "i < length ss" "ss ! i = Some s" "slot_generation s' = slot_generation s"
  shows "same_shape ss (ss[i := Some s'])"
proof -
  have "ss[i := Some s] = ss" using assms(2) list_update_id [of ss i] by simp
  then show ?thesis using assms(3) by (metis map_update option.simps(9) same_shape_def)
qed

lemma cap_view_rewrite:
  assumes "cap_view t cid = Some e" "i = unat (cap_index cid)" "cslots t ! i = Some s"
    and "slot_generation s' = slot_generation s" "cslots t' = (cslots t)[i := Some s']"
  shows "cap_view t' = (cap_view t)(cid \<mapsto> slot_entry s')"
proof (rule ext)
  fix c
  have s: "cap_is_valid cid" "i < length (cslots t)" "slot_generation s = cap_generation cid"
    using assms(1-3) by (auto simp: cap_view_Some)
  show "cap_view t' c = ((cap_view t)(cid \<mapsto> slot_entry s')) c"
  proof (cases "cap_index c = cap_index cid")
    case True
    have "c = cid \<longleftrightarrow> cap_generation c = cap_generation cid" using True by (metis cap_id_eqI)
    with True s assms(2-5) show ?thesis by (auto simp: cap_view_def cap_lookup_def)
  next
    case False
    then have "unat (cap_index c) \<noteq> i" using assms(2) by (simp add: word_unat_eq_iff)
    moreover have "c \<noteq> cid" using False by auto
    ultimately show ?thesis using assms(5) by (simp add: cap_view_def cap_lookup_def)
  qed
qed

lemma update_entry_ok:
  assumes wf: "cap_wf t P" and e: "cap_view t cid = Some e"
  shows "cap_wf (update_entry cid f t) P" "cap_view (update_entry cid f t) = (cap_view t)(cid \<mapsto> f e)"
proof -
  obtain s where s: "unat (cap_index cid) < length (cslots t)" "cslots t ! unat (cap_index cid) = Some s"
    "slot_entry s = e" using e by (auto simp: cap_view_Some)
  let ?s = "s\<lparr>slot_entry := f e\<rparr>"
  have eq: "update_entry cid f t = t\<lparr>cslots := (cslots t)[unat (cap_index cid) := Some ?s]\<rparr>"
    using s by (simp add: update_entry_def)
  show "cap_wf (update_entry cid f t) P"
    unfolding eq by (rule cap_wf_same_shape [OF wf same_shape_update [OF s(1,2)]]) simp
  show "cap_view (update_entry cid f t) = (cap_view t)(cid \<mapsto> f e)"
    using cap_view_rewrite [OF e refl s(2), of ?s "update_entry cid f t"] by (simp add: eq)
qed

section \<open>Descriptor counts after fork\<close>

definition reconciled :: "(cap_id \<times> usize) list \<Rightarrow> cap_id \<Rightarrow> cap_entry \<Rightarrow> cap_entry option" where
  "reconciled counts cid e =
     (if is_fd_backed (object e)
      then if child_fd_count counts cid = 0 then None else Some (e\<lparr>refcount := child_fd_count counts cid\<rparr>)
      else Some e)"

lemma slot_view:
  assumes wf: "cap_wf t P" and i: "i < length (cslots t)" "cslots t ! i = Some s"
  defines "cid \<equiv> from_parts (word_of_nat i) (slot_generation s)"
  shows "unat (cap_index cid) = i" "cap_view t cid = Some (slot_entry s)"
    "cap_view t c = Some e \<Longrightarrow> unat (cap_index c) = i \<Longrightarrow> c = cid"
proof -
  note D = cap_wfD [OF wf]
  have g: "1 \<le> slot_generation s" "slot_generation s \<le> MAX_GENERATION" using D(12) [OF i] D(11) by auto
  note parts = from_parts_parts [OF g(2,1), of "word_of_nat i", folded cid_def]
  show u: "unat (cap_index cid) = i" using i(1) D(1) parts(1) by (simp add: unat_u16_of_nat)
  show "cap_view t cid = Some (slot_entry s)" using u parts i by (simp add: cap_view_Some)
  assume c: "cap_view t c = Some e" "unat (cap_index c) = i"
  then have "cap_generation c = slot_generation s" using i(2) by (auto simp: cap_view_Some)
  moreover have "cap_index c = cap_index cid" using c(2) u by (simp add: word_unat_eq_iff)
  ultimately show "c = cid" using parts(2) by (metis cap_id_eqI)
qed

lemma reconcile_slot_ok:
  assumes wf: "cap_wf t P" and i: "i < length (cslots t)"
  shows "runs (reconcile_slot counts i t)
    (\<lambda>t'. cap_wf t' P \<and> length (cslots t') = length (cslots t) \<and>
       next_generation t' = next_generation t \<and>
       slots_charge t' = slots_charge t \<and> free_charge t' = free_charge t \<and>
       cap_view t' = (\<lambda>c. if unat (cap_index c) = i
          then Option.bind (cap_view t c) (reconciled counts c) else cap_view t c))"
proof (cases "cslots t ! i")
  case None
  then have "cap_view t c = None" if "unat (cap_index c) = i" for c
    using that by (cases "cap_view t c") (auto simp: cap_view_Some)
  then show ?thesis using wf None by (auto simp: reconcile_slot_def)
next
  case (Some s)
  let ?c = "from_parts (word_of_nat i) (slot_generation s)"
  note v = slot_view [OF wf i Some]
  have upd: "(cap_view t)(?c := reconciled counts ?c (slot_entry s)) =
    (\<lambda>c. if unat (cap_index c) = i then Option.bind (cap_view t c) (reconciled counts c) else cap_view t c)"
  proof (rule ext)
    fix c
    show "((cap_view t)(?c := reconciled counts ?c (slot_entry s))) c =
      (if unat (cap_index c) = i then Option.bind (cap_view t c) (reconciled counts c) else cap_view t c)"
    proof (cases "c = ?c")
      case False
      then have "cap_view t c = None" if "unat (cap_index c) = i"
        using v(3) [of c] that by (cases "cap_view t c") blast+
      with False show ?thesis by simp
    qed (use v(1,2) in simp)
  qed
  consider "\<not> is_fd_backed (object (slot_entry s))"
    | "is_fd_backed (object (slot_entry s))" "child_fd_count counts ?c = 0"
    | (set) "is_fd_backed (object (slot_entry s))" "child_fd_count counts ?c \<noteq> 0" by blast
  then show ?thesis
  proof cases
    case 1
    then have "reconciled counts ?c (slot_entry s) = Some (slot_entry s)" by (simp add: reconciled_def)
    then have "(cap_view t)(?c := reconciled counts ?c (slot_entry s)) = cap_view t" using v(2) by auto
    then show ?thesis unfolding upd [symmetric] using wf Some 1 by (simp add: reconcile_slot_def)
  next
    case 2
    then have "reconciled counts ?c (slot_entry s) = None" by (simp add: reconciled_def)
    then show ?thesis
      unfolding upd [symmetric] reconcile_slot_def Some Let_def using 2 v(2)
      by (auto split: sum.splits intro!: runs_mono [OF revoke_retaining_ok [OF wf, of ?c]])
  next
    case set
    let ?s = "s\<lparr>slot_entry := (slot_entry s)\<lparr>refcount := child_fd_count counts ?c\<rparr>\<rparr>"
    have "reconciled counts ?c (slot_entry s) = Some (slot_entry ?s)" using set by (simp add: reconciled_def)
    moreover have "cap_wf (t\<lparr>cslots := (cslots t)[i := Some ?s]\<rparr>) P"
      by (rule cap_wf_same_shape [OF wf same_shape_update [OF i Some]]) simp
    moreover have "cap_view (t\<lparr>cslots := (cslots t)[i := Some ?s]\<rparr>) = (cap_view t)(?c \<mapsto> slot_entry ?s)"
      by (rule cap_view_rewrite [OF v(2) v(1) [symmetric] Some]) simp_all
    ultimately show ?thesis
      unfolding upd [symmetric] using set Some by (simp add: reconcile_slot_def Let_def)
  qed
qed

lemma reconcile_walk_ok:
  assumes "cap_wf t P" "distinct is" "\<forall>i\<in>set is. i < length (cslots t)"
  shows "runs (reconcile_walk counts is t)
    (\<lambda>t'. cap_wf t' P \<and> next_generation t' = next_generation t \<and>
       slots_charge t' = slots_charge t \<and> free_charge t' = free_charge t \<and>
       cap_view t' = (\<lambda>c. if unat (cap_index c) \<in> set is
          then Option.bind (cap_view t c) (reconciled counts c) else cap_view t c))"
  using assms
proof (induction "is" arbitrary: t)
  case (Cons i "is")
  obtain t1 where t1: "reconcile_slot counts i t = Some t1" "cap_wf t1 P"
    "length (cslots t1) = length (cslots t)" "next_generation t1 = next_generation t"
    "slots_charge t1 = slots_charge t" "free_charge t1 = free_charge t"
    "cap_view t1 = (\<lambda>c. if unat (cap_index c) = i
          then Option.bind (cap_view t c) (reconciled counts c) else cap_view t c)"
    using reconcile_slot_ok [OF Cons.prems(1), of i counts] Cons.prems(3) by (auto simp: runs_def)
  have i: "i \<notin> set is" using Cons.prems(2) by simp
  have eq: "(\<lambda>c. if unat (cap_index c) \<in> set is then Option.bind (cap_view t1 c) (reconciled counts c) else cap_view t1 c)
    = (\<lambda>c. if unat (cap_index c) \<in> set (i # is) then Option.bind (cap_view t c) (reconciled counts c) else cap_view t c)"
    using i by (intro ext) (auto simp: t1(7))
  show ?case
    using Cons.IH [OF t1(2)] Cons.prems(2,3) t1(1,3-6) by (simp add: eq)
qed simp

section \<open>Exec and fork\<close>

lemma closes_on_exec_Some: "closes_on_exec x \<longleftrightarrow> (\<exists>s. x = Some s \<and> \<not> inherits_on_exec (slot_entry s))"
  by (cases x) (simp_all add: closes_on_exec_def)

lemma take_cloexec_ok:
  assumes wf: "cap_wf t P"
  shows "runs (take_cloexec_slot t)
    (\<lambda>(t', r). cap_wf t' P \<and> next_generation t' = next_generation t \<and>
       slots_charge t' = slots_charge t \<and> free_charge t' = free_charge t \<and>
       (case r of None \<Rightarrow> t' = t \<and> (\<forall>c e. cap_view t c = Some e \<longrightarrow> inherits_on_exec e)
        | Some s \<Rightarrow> \<exists>c e. cap_view t c = Some e \<and> \<not> inherits_on_exec e \<and> slot_entry s = e \<and>
            cap_view t' = (cap_view t)(c := None)))"
proof (cases "position closes_on_exec (cslots t)")
  case None
  then have "\<forall>x\<in>set (cslots t). \<not> closes_on_exec x" by (simp add: position_None)
  then have "inherits_on_exec e" if "cap_view t c = Some e" for c e
    using that by (auto simp: cap_view_Some closes_on_exec_Some dest!: nth_mem)
  with None wf show ?thesis by (auto simp: take_cloexec_slot_def)
next
  case (Some i)
  from position_Some [OF this] obtain s where i: "i < length (cslots t)" "cslots t ! i = Some s"
    and ns: "\<not> inherits_on_exec (slot_entry s)" by (auto simp: closes_on_exec_Some)
  let ?i = "word_of_nat i :: u16" and ?c = "from_parts (word_of_nat i) (slot_generation s)"
  have u: "unat ?i = i" using i(1) cap_wfD(1) [OF wf] by (simp add: unat_u16_of_nat)
  note v = slot_view [OF wf i]
  obtain t1 where t1: "push_free ?i (t\<lparr>cslots := (cslots t)[i := None]\<rparr>) = Some t1"
    "cap_wf t1 P" "cslots t1 = (cslots t)[i := None]" "next_generation t1 = next_generation t"
    "slots_charge t1 = slots_charge t" "free_charge t1 = free_charge t"
    using vacate_ok [OF wf, of ?i s] i u by auto
  have "cap_view t1 = (cap_view t)(?c := None)"
    by (rule cap_view_clear [OF v(2)]) (use v(1) t1(3) in simp)
  with t1 Some i ns v(2) show ?thesis by (auto simp: take_cloexec_slot_def)
qed

definition view_filter :: "(cap_entry \<Rightarrow> bool) \<Rightarrow> (cap_id \<rightharpoonup> cap_entry) \<Rightarrow> cap_id \<rightharpoonup> cap_entry" where
  "view_filter p m cid = (case m cid of None \<Rightarrow> None | Some e \<Rightarrow> if p e then Some e else None)"

lemma view_filter_removed:
  "m c = Some e \<Longrightarrow> \<not> p e \<Longrightarrow> view_filter p (m(c := None)) = view_filter p m"
  by (rule ext) (simp add: view_filter_def)

lemma view_filter_all: "(\<And>c e. m c = Some e \<Longrightarrow> p e) \<Longrightarrow> view_filter p m = m"
  by (rule ext) (auto simp: view_filter_def split: option.splits)

lemma cloexec_loop_ok:
  assumes "cap_wf t P"
  shows "runs (cloexec_loop t)
    (\<lambda>t'. cap_wf t' P \<and> next_generation t' = next_generation t \<and>
       slots_charge t' = slots_charge t \<and> free_charge t' = free_charge t \<and>
       cap_view t' = view_filter inherits_on_exec (cap_view t))"
  using assms
proof (induction t rule: cloexec_loop.induct)
  case (1 t)
  obtain t1 r where t1: "take_cloexec_slot t = Some (t1, r)" "cap_wf t1 P"
    "next_generation t1 = next_generation t"
    "slots_charge t1 = slots_charge t" "free_charge t1 = free_charge t"
    and r: "case r of None \<Rightarrow> t1 = t \<and> (\<forall>c e. cap_view t c = Some e \<longrightarrow> inherits_on_exec e)
        | Some s \<Rightarrow> \<exists>c e. cap_view t c = Some e \<and> \<not> inherits_on_exec e \<and> slot_entry s = e \<and>
            cap_view t1 = (cap_view t)(c := None)"
    using take_cloexec_ok [OF 1(2)] by (auto simp: runs_def)
  show ?case
  proof (cases r)
    case None
    with r have "view_filter inherits_on_exec (cap_view t) = cap_view t"
      by (intro view_filter_all) auto
    with None t1 r show ?thesis by (subst cloexec_loop.simps) simp
  next
    case (Some s)
    with r have "view_filter inherits_on_exec (cap_view t1) = view_filter inherits_on_exec (cap_view t)"
      by (auto simp: view_filter_removed)
    then have "runs (cloexec_loop t1) (\<lambda>t'. cap_wf t' P \<and> next_generation t' = next_generation t \<and>
       slots_charge t' = slots_charge t \<and> free_charge t' = free_charge t \<and>
       cap_view t' = view_filter inherits_on_exec (cap_view t))"
      using 1(1) [OF t1(1) refl Some t1(2)] t1(3-5) by simp
    with Some t1(1) show ?thesis by (subst cloexec_loop.simps) simp
  qed
qed

lemma vacant_indices_set:
  assumes "n + length ss \<le> 2 ^ 16"
  shows "i \<in> set (vacant_indices n ss) \<longleftrightarrow>
    n \<le> unat i \<and> unat i < n + length ss \<and> ss ! (unat i - n) = None"
  using assms
proof (induction ss arbitrary: n)
  case (Cons s ss)
  have n: "unat (word_of_nat n :: u16) = n"
    using Cons.prems by (simp add: unat_of_nat take_bit_nat_eq_self)
  have "i = word_of_nat n \<longleftrightarrow> unat i = n" using n by (metis word_unat_eq_iff)
  moreover have "unat i - n = Suc (unat i - Suc n)" if "Suc n \<le> unat i" using that by simp
  ultimately show ?case
    using Cons by (cases "unat i = n"; cases "Suc n \<le> unat i") auto
qed auto

lemma vacant_indices_distinct:
  assumes "n + length ss \<le> 2 ^ 16"
  shows "distinct (vacant_indices n ss)"
  using assms
proof (induction ss arbitrary: n)
  case (Cons s ss)
  have "unat (word_of_nat n :: u16) = n"
    using Cons.prems by (simp add: unat_of_nat take_bit_nat_eq_self)
  with Cons show ?case by (simp add: vacant_indices_set)
qed simp

text \<open>A table whose free list is rebuilt from its slots is well formed.\<close>

lemma rebuild_ok:
  assumes len: "length (cslots t) \<le> MAX_CAP_SLOTS" "length (cslots t) \<le> slots_capacity t"
      "length (cslots t) \<le> free_capacity t" "reserved_allocations t = 0"
    and gen: "1 \<le> next_generation t" "next_generation t \<le> MAX_GENERATION"
      "\<And>j s. j < length (cslots t) \<Longrightarrow> cslots t ! j = Some s \<Longrightarrow>
         1 \<le> slot_generation s \<and> slot_generation s < next_generation t"
  shows "runs (rebuild_free_list t) (\<lambda>t'. cap_wf t' {} \<and> t' = t\<lparr>free_list := vacant_indices 0 (cslots t)\<rparr>)"
proof -
  have b: "0 + length (cslots t) \<le> 2 ^ 16" using len(1) by (simp add: MAX_CAP_SLOTS_def)
  note vs = vacant_indices_set [OF b] and vd = vacant_indices_distinct [OF b]
  have "length (vacant_indices 0 (cslots t)) \<le> length (cslots t)"
    by (rule distinct_indices_length [OF vd]) (simp add: vs)
  with len(3) have fits: "length (vacant_indices 0 (cslots t)) \<le> free_capacity t" by simp
  have "cap_wf (t\<lparr>free_list := vacant_indices 0 (cslots t)\<rparr>) {}"
    by (rule cap_wfI) (use len gen vs vd in simp_all)
  with fits show ?thesis by (simp add: rebuild_free_list_def)
qed

lemma fresh_table_wf:
  assumes "n \<le> MAX_CAP_SLOTS" "n \<le> sc" "n \<le> fc"
  shows "cap_wf \<lparr>cslots = replicate n None, slots_capacity = sc,
       free_list = map word_of_nat [0..<n], free_capacity = fc, slots_charge = a, free_charge = b,
       next_generation = 1, reserved_allocations = 0\<rparr> {}" (is "cap_wf ?t {}")
proof (rule cap_wfI)
  have u: "unat (word_of_nat j :: u16) = j" if "j < n" for j
    using that assms(1) by (simp add: unat_u16_of_nat)
  show "distinct (free_list ?t)"
    using u by (auto simp: distinct_map intro!: inj_onI) (metis)
  show "i \<in> set (free_list ?t) \<union> fst ` {} \<longleftrightarrow> unat i < length (cslots ?t) \<and> cslots ?t ! unat i = None" for i
    using u by (auto simp: image_iff intro: bexI [of _ "unat i"])
qed (use assms in \<open>simp_all add: MAX_GENERATION_def\<close>)

lemma fresh_table_view:
  "cslots t = replicate n None \<Longrightarrow> cap_view t = Map.empty"
  by (rule ext) (simp add: cap_view_def cap_lookup_def)

lemma inherited_view:
  assumes "cslots t' = map inherit_slot (cslots t)"
  shows "cap_view t' = view_filter inherits_on_fork (cap_view t)"
  by (rule ext) (auto simp: cap_view_def cap_lookup_def view_filter_def inherit_slot_def assms
      split: option.splits)

end
