(* ===== verification/CapContract.thy ===== *)
theory CapContract
  imports CapInvariant
begin

text \<open>
  The table operations over the contract of the heap ledger: they never panic, keep the table
  well formed, and account for exactly the charges the table carries, on every path.
\<close>

definition tcharges :: "cap_table \<Rightarrow> heap_charge multiset" where
  "tcharges t = opt_ms (slots_charge t) + opt_ms (free_charge t)"

definition prepared_ok ::
  "bool \<Rightarrow> usize \<Rightarrow> (usize \<times> heap_reservation) option \<Rightarrow> bool" where
  "prepared_ok needed capacity p \<longleftrightarrow> (p \<noteq> None \<longleftrightarrow> needed) \<and> (\<forall>c x. p = Some (c, x) \<longrightarrow> capacity \<le> c)"

lemma growth_target: "need \<le> cap_growth_target c need"
  by (simp add: cap_growth_target_def)

locale cap_ledger = heap_client hp hinv
  for hp :: "'h heap_calls"
    and hinv :: "'h \<Rightarrow> heap_reservation multiset \<Rightarrow> heap_charge multiset \<Rightarrow> bool"
begin

lemma reserve_weak:
  assumes "hinv h R C" "b \<le> usize_max"
  shows "runs (reserve_heap hp c b h)
    (\<lambda>(h', r). case r of Inl _ \<Rightarrow> hinv h' R C | Inr x \<Rightarrow> hinv h' (add_mset x R) C)"
  by (rule runs_mono [OF reserve [OF assms]]) (auto split: sum.splits)

lemma prepare:
  assumes inv: "hinv h R C" and g: "grants_ok g"
  shows "runs (prepare_cap_vec hp g es al cap h)
    (\<lambda>(h', r). case r of Inl e \<Rightarrow> e = OutOfMemory \<and> hinv h' R C
       | Inr (c, x) \<Rightarrow> cap \<le> c \<and> hinv h' (add_mset x R) C)"
proof (cases "vec_charge_bytes es al cap")
  case (Inr estimated)
  have drop: "runs (Option.bind (drop_heap_reservation hp x h') (\<lambda>h2. Some (h2, Err OutOfMemory)))
      (\<lambda>(h', r). case r of Inl e \<Rightarrow> e = OutOfMemory \<and> hinv h' R C
       | Inr (c, x) \<Rightarrow> cap \<le> c \<and> hinv h' (add_mset x R) C)"
    if "hinv h' (add_mset x R) C" for x h'
    by (rule runs_bind [OF drop_res [OF that]]) simp
  show ?thesis
    unfolding prepare_cap_vec_def Inr sum.case
  proof (rule runs_bind [OF reserve_weak [OF inv charge_bytes_bound(2) [OF Inr]]], clarify)
    fix h1 r
    assume 1: "case r of Inl _ \<Rightarrow> hinv h1 R C | Inr x \<Rightarrow> hinv h1 (add_mset x R) C"
    show "runs (case r of
        Inl _ \<Rightarrow> Some (h1, Err OutOfMemory)
      | Inr reservation \<Rightarrow>
          (case g es cap of
             None \<Rightarrow> do { h2 \<leftarrow> drop_heap_reservation hp reservation h1; Some (h2, Err OutOfMemory) }
           | Some granted \<Rightarrow>
               (case vec_charge_bytes es al granted of
                  Inl _ \<Rightarrow> do {
                    h2 \<leftarrow> drop_heap_reservation hp reservation h1; Some (h2, Err OutOfMemory) }
                | Inr actual \<Rightarrow> do {
                    (h2, reservation', res) \<leftarrow> resize_heap hp reservation actual h1;
                    case res of
                      Inl _ \<Rightarrow> do {
                        h3 \<leftarrow> drop_heap_reservation hp reservation' h2; Some (h3, Err OutOfMemory) }
                    | Inr _ \<Rightarrow> Some (h2, Ok (granted, reservation')) })))
      (\<lambda>(h', r). case r of Inl e \<Rightarrow> e = OutOfMemory \<and> hinv h' R C
       | Inr (c, x) \<Rightarrow> cap \<le> c \<and> hinv h' (add_mset x R) C)"
    proof (cases r)
      case x: (Inr x)
      show ?thesis
      proof (cases "g es cap")
        case (Some granted)
        show ?thesis
        proof (cases "vec_charge_bytes es al granted")
          case actual: (Inr actual)
          show ?thesis
            unfolding x Some actual sum.case option.case
            by (rule runs_bind [OF resize [OF _ charge_bytes_bound(2) [OF actual], of h1 x R C]])
              (use 1 x Some g drop in \<open>auto simp: grants_ok_def split: sum.splits\<close>)
        qed (use 1 x Some drop in simp)
      qed (use 1 x drop in simp)
    qed (use 1 in simp)
  qed
qed (use inv in \<open>simp add: prepare_cap_vec_def\<close>)

lemma install:
  assumes "hinv h (add_mset x R) (opt_ms c + C)" "live \<le> granted"
  shows "runs (install_cap_vec hp live c (granted, x) h)
    (\<lambda>(h', cap, k). cap = granted \<and> hinv h' R (add_mset k C))"
proof -
  obtain h1 k where 1: "commit_heap hp x h = Some (h1, Ok k)" "hinv h1 R (opt_ms c + add_mset k C)"
    using commit [OF assms(1)] by (auto simp: runs_def)
  obtain h2 where "drop_charge_opt hp c h1 = Some h2" "hinv h2 R (add_mset k C)"
    using drop_opt [OF 1(2)] by (auto simp: runs_def)
  with 1(1) assms(2) show ?thesis by (simp add: install_cap_vec_def)
qed

lemma reclaim:
  assumes inv: "hinv h R (tcharges t + C)" and wf: "cap_wf t P"
  shows "runs (reclaim_if_unused hp t h)
    (\<lambda>(h', t'). hinv h' R (tcharges t' + C) \<and> cap_wf t' P \<and> cap_view t' = cap_view t \<and>
       next_generation t' = next_generation t \<and> t' = (if table_in_use t then t else emptied t))"
proof (cases "table_in_use t")
  case False
  obtain h1 where 1: "drop_charge_opt hp (slots_charge t) h = Some h1" "hinv h1 R (opt_ms (free_charge t) + C)"
    using drop_opt [of h R "slots_charge t" "opt_ms (free_charge t) + C"] inv
    by (auto simp: runs_def tcharges_def add.assoc)
  obtain h2 where 2: "drop_charge_opt hp (free_charge t) h1 = Some h2" "hinv h2 R C"
    using drop_opt [OF 1(2)] by (auto simp: runs_def)
  have "P = {}" "cap_view t = Map.empty"
    using not_in_use_slots [OF wf False] by auto
  moreover from this have "cap_wf (emptied t) P" using wf cap_wf_emptied by simp
  moreover have "tcharges (emptied t) = {#}" "next_generation (emptied t) = next_generation t"
    by (simp_all add: tcharges_def emptied_def)
  ultimately show ?thesis
    using 1 2 False by (simp add: reclaim_if_unused_def cap_view_emptied emptied_def [symmetric])
qed (use assms in \<open>simp add: reclaim_if_unused_def\<close>)

lemma prepare_if:
  assumes inv: "hinv h R C" and g: "grants_ok g"
  shows "runs (if needed
        then do { (h', r) \<leftarrow> prepare_cap_vec hp g es al cap h;
                  Some (h', case r of Inl e \<Rightarrow> Err e | Inr p \<Rightarrow> Ok (Some p)) }
        else Some (h, Ok None))
    (\<lambda>(h', r). case r of Inl e \<Rightarrow> e = OutOfMemory \<and> hinv h' R C
       | Inr p \<Rightarrow> prepared_ok needed cap p \<and> hinv h' (opt_ms (map_option snd p) + R) C)"
proof -
  obtain h' r where "prepare_cap_vec hp g es al cap h = Some (h', r)"
    "case r of Inl e \<Rightarrow> e = OutOfMemory \<and> hinv h' R C
       | Inr (c, x) \<Rightarrow> cap \<le> c \<and> hinv h' (add_mset x R) C"
    using prepare [OF assms, of es al cap] by (auto simp: runs_def)
  then show ?thesis using inv by (cases r) (auto simp: prepared_ok_def split: prod.splits)
qed

lemma growth:
  assumes inv: "hinv h R C" and g: "grants_ok (grant env)"
  shows "runs (prepare_growth hp env ns nf cap h)
    (\<lambda>(h', r). case r of Inl e \<Rightarrow> e = OutOfMemory \<and> hinv h' R C
       | Inr (s, f) \<Rightarrow> prepared_ok ns cap s \<and> prepared_ok nf cap f \<and>
           hinv h' (opt_ms (map_option snd s) + (opt_ms (map_option snd f) + R)) C)"
  unfolding prepare_growth_def
proof (rule runs_bind [OF prepare_if [OF inv g]], clarify)
  fix h1 sl
  assume 1: "case sl of Inl e \<Rightarrow> e = OutOfMemory \<and> hinv h1 R C
       | Inr p \<Rightarrow> prepared_ok ns cap p \<and> hinv h1 (opt_ms (map_option snd p) + R) C"
  let ?Q = "\<lambda>(h', r). case r of Inl e \<Rightarrow> e = OutOfMemory \<and> hinv h' R C
       | Inr (s, f) \<Rightarrow> prepared_ok ns cap s \<and> prepared_ok nf cap f \<and>
           hinv h' (opt_ms (map_option snd s) + (opt_ms (map_option snd f) + R)) C"
  show "runs (case sl of
       Inl e \<Rightarrow> Some (h1, Err e)
     | Inr slots_prepared \<Rightarrow> do {
         (h2, fr) \<leftarrow> (if nf
            then do { (h', r) \<leftarrow> prepare_cap_vec hp (grant env) U16_SIZE U16_SIZE cap h1;
                      Some (h', case r of Inl e \<Rightarrow> Err e | Inr p \<Rightarrow> Ok (Some p)) }
            else Some (h1, Ok None));
         case fr of
           Inl e \<Rightarrow> do {
             h3 \<leftarrow> (case slots_prepared of None \<Rightarrow> Some h2
                   | Some (_, r) \<Rightarrow> drop_heap_reservation hp r h2);
             Some (h3, Err e) }
         | Inr free_prepared \<Rightarrow> Some (h2, Ok (slots_prepared, free_prepared)) }) ?Q"
  proof (cases sl)
    case (Inr s)
    with 1 have s: "prepared_ok ns cap s" "hinv h1 (opt_ms (map_option snd s) + R) C" by simp_all
    show ?thesis
      unfolding Inr sum.case
    proof (rule runs_bind [OF prepare_if [OF s(2) g]], clarify)
      fix h2 fr
      assume 2: "case fr of Inl e \<Rightarrow> e = OutOfMemory \<and> hinv h2 (opt_ms (map_option snd s) + R) C
        | Inr p \<Rightarrow> prepared_ok nf cap p \<and>
            hinv h2 (opt_ms (map_option snd p) + (opt_ms (map_option snd s) + R)) C"
      show "runs (case fr of
           Inl e \<Rightarrow> do {
             h3 \<leftarrow> (case s of None \<Rightarrow> Some h2 | Some (_, r) \<Rightarrow> drop_heap_reservation hp r h2);
             Some (h3, Err e) }
         | Inr free_prepared \<Rightarrow> Some (h2, Ok (s, free_prepared))) ?Q"
        using 2 s(1) drop_res [of h2 _ R C]
        by (cases fr; cases s) (auto simp: ac_simps)
    qed
  qed (use 1 in simp)
qed

lemma install_slots:
  assumes p: "prepared_ok ns cap p" "length (cslots t) \<le> cap"
    and inv: "hinv h (opt_ms (map_option snd p) + R) (tcharges t + C)"
  obtains h' c k where "(case p of
      None \<Rightarrow> Some (h, t)
    | Some p \<Rightarrow> do {
        (h', c, k) \<leftarrow> install_cap_vec hp (length (cslots t)) (slots_charge t) p h;
        Some (h', t\<lparr>slots_capacity := c, slots_charge := Some k\<rparr>) }) =
      Some (h', t\<lparr>slots_capacity := c, slots_charge := k\<rparr>)"
    "hinv h' R (tcharges (t\<lparr>slots_capacity := c, slots_charge := k\<rparr>) + C)"
    "if ns then cap \<le> c else c = slots_capacity t"
proof (cases p)
  case None
  then show ?thesis using assms by (intro that [where h' = h and c = "slots_capacity t" and k = "slots_charge t"]) (auto simp: prepared_ok_def)
next
  case (Some q)
  obtain c x where q: "q = (c, x)" by (cases q) auto
  have "cap \<le> c" "ns" using p Some q by (simp_all add: prepared_ok_def)
  moreover have "hinv h (add_mset x R) (opt_ms (slots_charge t) + (opt_ms (free_charge t) + C))"
    using inv Some q by (simp add: tcharges_def add.assoc)
  from install [OF this, of "length (cslots t)" c] \<open>cap \<le> c\<close> p(2)
  obtain h' k where "install_cap_vec hp (length (cslots t)) (slots_charge t) (c, x) h = Some (h', c, k)"
    "hinv h' R (add_mset k (opt_ms (free_charge t) + C))" by (auto simp: runs_def)
  ultimately show ?thesis using Some q by (intro that [where h' = h' and c = c and k = "Some k"]) (auto simp: tcharges_def)
qed

lemma install_free:
  assumes p: "prepared_ok nf cap p" "length (free_list t) \<le> cap"
    and inv: "hinv h (opt_ms (map_option snd p) + R) (tcharges t + C)"
  obtains h' c k where "(case p of
      None \<Rightarrow> Some (h, t)
    | Some p \<Rightarrow> do {
        (h', c, k) \<leftarrow> install_cap_vec hp (length (free_list t)) (free_charge t) p h;
        Some (h', t\<lparr>free_capacity := c, free_charge := Some k\<rparr>) }) =
      Some (h', t\<lparr>free_capacity := c, free_charge := k\<rparr>)"
    "hinv h' R (tcharges (t\<lparr>free_capacity := c, free_charge := k\<rparr>) + C)"
    "if nf then cap \<le> c else c = free_capacity t"
proof (cases p)
  case None
  then show ?thesis using assms by (intro that [where h' = h and c = "free_capacity t" and k = "free_charge t"]) (auto simp: prepared_ok_def)
next
  case (Some q)
  obtain c x where q: "q = (c, x)" by (cases q) auto
  have "cap \<le> c" "nf" using p Some q by (simp_all add: prepared_ok_def)
  moreover have "hinv h (add_mset x R) (opt_ms (free_charge t) + (opt_ms (slots_charge t) + C))"
    using inv Some q by (simp add: tcharges_def ac_simps)
  from install [OF this, of "length (free_list t)" c] \<open>cap \<le> c\<close> p(2)
  obtain h' k where "install_cap_vec hp (length (free_list t)) (free_charge t) (c, x) h = Some (h', c, k)"
    "hinv h' R (add_mset k (opt_ms (slots_charge t) + C))" by (auto simp: runs_def)
  ultimately show ?thesis using Some q by (intro that [where h' = h' and c = c and k = "Some k"]) (auto simp: tcharges_def)
qed

lemma growth_retry:
  assumes inv: "hinv h R C" and g: "grants_ok (grant env)" and cap: "need \<le> preferred"
  shows "runs (do {
      (h1, first) \<leftarrow> prepare_growth hp env ns nf preferred h;
      (case first of
         Inr p \<Rightarrow> Some (h1, Ok p)
       | Inl e \<Rightarrow> if preferred \<noteq> need then prepare_growth hp env ns nf need h1 else Some (h1, Err e)) })
    (\<lambda>(h', r). case r of Inl e \<Rightarrow> e = OutOfMemory \<and> hinv h' R C
       | Inr (s, f) \<Rightarrow> prepared_ok ns need s \<and> prepared_ok nf need f \<and>
           hinv h' (opt_ms (map_option snd s) + (opt_ms (map_option snd f) + R)) C)"
proof (rule runs_bind [OF growth [OF inv g]], clarify)
  fix h1 first
  assume 1: "case first of Inl e \<Rightarrow> e = OutOfMemory \<and> hinv h1 R C
       | Inr (s, f) \<Rightarrow> prepared_ok ns preferred s \<and> prepared_ok nf preferred f \<and>
           hinv h1 (opt_ms (map_option snd s) + (opt_ms (map_option snd f) + R)) C"
  have le: "prepared_ok n preferred p \<Longrightarrow> prepared_ok n need p" for n p
    using cap by (fastforce simp: prepared_ok_def)
  show "runs (case first of
         Inr p \<Rightarrow> Some (h1, Ok p)
       | Inl e \<Rightarrow> if preferred \<noteq> need then prepare_growth hp env ns nf need h1 else Some (h1, Err e))
    (\<lambda>(h', r). case r of Inl e \<Rightarrow> e = OutOfMemory \<and> hinv h' R C
       | Inr (s, f) \<Rightarrow> prepared_ok ns need s \<and> prepared_ok nf need f \<and>
           hinv h' (opt_ms (map_option snd s) + (opt_ms (map_option snd f) + R)) C)"
    using 1 growth [OF _ g, of h1 R C ns nf need] le
    by (cases first) (auto split: prod.splits)
qed

lemma growth_retryE:
  assumes "hinv h R C" "grants_ok (grant env)" "need \<le> preferred"
  obtains h1 first h2 r where "prepare_growth hp env ns nf preferred h = Some (h1, first)"
    "(case first of Inr p \<Rightarrow> Some (h1, Ok p)
      | Inl e \<Rightarrow> if preferred \<noteq> need then prepare_growth hp env ns nf need h1 else Some (h1, Err e)) = Some (h2, r)"
    "case r of Inl e \<Rightarrow> e = OutOfMemory \<and> hinv h2 R C
       | Inr (s, f) \<Rightarrow> prepared_ok ns need s \<and> prepared_ok nf need f \<and>
           hinv h2 (opt_ms (map_option snd s) + (opt_ms (map_option snd f) + R)) C"
  using growth_retry [OF assms, of ns nf] by (auto simp: runs_def bind_eq_Some_conv)

lemma grow:
  assumes inv: "hinv h R (tcharges t + C)" and wf: "cap_wf t P" and g: "grants_ok (grant env)"
    and none: "free_list t = []"
  shows "runs (grow_table hp env t h)
    (\<lambda>(h', t', r). hinv h' R (tcharges t' + C) \<and>
       (case r of Inl e \<Rightarrow> t' = t \<and> e \<in> {TableFull, OutOfMemory}
        | Inr i \<Rightarrow> i = word_of_nat (length (cslots t)) \<and> length (cslots t) < MAX_CAP_SLOTS \<and>
            cslots t' = cslots t @ [None] \<and> free_list t' = [] \<and> next_generation t' = next_generation t \<and>
            reserved_allocations t' = reserved_allocations t \<and>
            length (cslots t) < slots_capacity t' \<and> length (cslots t) < free_capacity t'))"
proof (cases "MAX_CAP_SLOTS \<le> length (cslots t)")
  case len: False
  define n where "n = length (cslots t) + 1"
  let ?p = "cap_growth_target (max (slots_capacity t) (free_capacity t)) n"
  let ?ns = "slots_capacity t < n" and ?nf = "free_capacity t < n"
  have add: "checked_add_usize (length (cslots t)) 1 = Some n"
    using len by (simp add: n_def checked MAX_CAP_SLOTS_def usize_max_def)
  obtain h1 first h2 r where pr: "prepare_growth hp env ?ns ?nf ?p h = Some (h1, first)"
      "(case first of Inr p \<Rightarrow> Some (h1, Ok p)
        | Inl e \<Rightarrow> if ?p \<noteq> n then prepare_growth hp env ?ns ?nf n h1 else Some (h1, Err e)) = Some (h2, r)"
    and r: "case r of Inl e \<Rightarrow> e = OutOfMemory \<and> hinv h2 R (tcharges t + C)
       | Inr (s, f) \<Rightarrow> prepared_ok ?ns n s \<and> prepared_ok ?nf n f \<and>
           hinv h2 (opt_ms (map_option snd s) + (opt_ms (map_option snd f) + R)) (tcharges t + C)"
    by (rule growth_retryE [OF inv g growth_target]) blast
  show ?thesis
  proof (cases r)
    case (Inl e)
    with len add pr r show ?thesis by (simp add: grow_table_def Let_def)
  next
    case (Inr sf)
    obtain s f where sf: "sf = (s, f)" by (cases sf) auto
    with r Inr have ok: "prepared_ok ?ns n s" "prepared_ok ?nf n f"
      "hinv h2 (opt_ms (map_option snd s) + (opt_ms (map_option snd f) + R)) (tcharges t + C)" by simp_all
    obtain h3 c k where 3: "(case s of None \<Rightarrow> Some (h2, t)
      | Some p \<Rightarrow> do {
        (h', c, k) \<leftarrow> install_cap_vec hp (length (cslots t)) (slots_charge t) p h2;
        Some (h', t\<lparr>slots_capacity := c, slots_charge := Some k\<rparr>) }) =
        Some (h3, t\<lparr>slots_capacity := c, slots_charge := k\<rparr>)"
      "hinv h3 (opt_ms (map_option snd f) + R) (tcharges (t\<lparr>slots_capacity := c, slots_charge := k\<rparr>) + C)"
      "if ?ns then n \<le> c else c = slots_capacity t"
      by (rule install_slots [OF ok(1) _ ok(3)]) (simp add: n_def, blast)
    let ?t1 = "t\<lparr>slots_capacity := c, slots_charge := k\<rparr>"
    obtain h4 c' k' where 4: "(case f of None \<Rightarrow> Some (h3, ?t1)
      | Some p \<Rightarrow> do {
        (h', c, k) \<leftarrow> install_cap_vec hp (length (free_list ?t1)) (free_charge ?t1) p h3;
        Some (h', ?t1\<lparr>free_capacity := c, free_charge := Some k\<rparr>) }) =
        Some (h4, ?t1\<lparr>free_capacity := c', free_charge := k'\<rparr>)"
      "hinv h4 R (tcharges (?t1\<lparr>free_capacity := c', free_charge := k'\<rparr>) + C)"
      "if ?nf then n \<le> c' else c' = free_capacity t"
      by (rule install_free [OF ok(2) _ 3(2)]) (simp add: none, simp)
    have caps: "length (cslots t) < c" "length (cslots t) < c'" using 3(3) 4(3) by (auto simp: n_def split: if_splits)
    show ?thesis
      using len add pr Inr sf 3(1,2) 4(1,2) caps none
      by (simp add: grow_table_def Let_def tcharges_def)
  qed
qed (use inv in \<open>simp add: grow_table_def\<close>)

lemma reserve_id:
  assumes inv: "hinv h R (tcharges t + C)" and wf: "cap_wf t P" and g: "grants_ok (grant env)"
  shows "runs (reserve_allocation hp env t h)
    (\<lambda>(h', t', r). hinv h' R (tcharges t' + C) \<and> cap_view t' = cap_view t \<and>
       (case r of Inl e \<Rightarrow> t' = t \<and> e \<in> {GenerationExhausted, TableFull, OutOfMemory}
        | Inr (i, gen) \<Rightarrow> gen = next_generation t \<and> next_generation t < MAX_GENERATION \<and>
            next_generation t' = gen + 1 \<and> i \<notin> fst ` P \<and> cap_wf t' (insert (i, gen) P)))"
proof (cases "MAX_GENERATION \<le> next_generation t")
  case False
  note D = cap_wfD [OF wf]
  from False have lt: "next_generation t < MAX_GENERATION" by simp
  note n = next_generation_step [OF D(10) lt]
  show ?thesis
  proof (cases "checked_add_usize (reserved_allocations t) 1")
    case None
    with False inv show ?thesis by (simp add: reserve_allocation_def)
  next
    case (Some nr)
    then have nr: "nr = card P + 1" using D(7) by (simp add: checked)
    show ?thesis
    proof (cases "free_list t = []")
      case True
      obtain h1 t1 r where 1: "grow_table hp env t h = Some (h1, t1, r)"
        "hinv h1 R (tcharges t1 + C)"
        and r: "case r of Inl e \<Rightarrow> t1 = t \<and> e \<in> {TableFull, OutOfMemory}
        | Inr i \<Rightarrow> i = word_of_nat (length (cslots t)) \<and> length (cslots t) < MAX_CAP_SLOTS \<and>
            cslots t1 = cslots t @ [None] \<and> free_list t1 = [] \<and> next_generation t1 = next_generation t \<and>
            reserved_allocations t1 = reserved_allocations t \<and>
            length (cslots t) < slots_capacity t1 \<and> length (cslots t) < free_capacity t1"
        using grow [OF inv wf g True] by (auto simp: runs_def)
      show ?thesis
      proof (cases r)
        case (Inl e)
        with 1 r False Some True show ?thesis by (auto simp: reserve_allocation_def)
      next
        case (Inr i)
        with r have t1: "i = word_of_nat (length (cslots t))" "length (cslots t) < MAX_CAP_SLOTS"
          "cslots t1 = cslots t @ [None]" "free_list t1 = []" "next_generation t1 = next_generation t"
          "reserved_allocations t1 = reserved_allocations t" "length (cslots t) < slots_capacity t1"
          "length (cslots t) < free_capacity t1" by simp_all
        let ?t = "t1\<lparr>next_generation := next_generation t + 1, reserved_allocations := card P + 1\<rparr>"
        have "cap_wf ?t (insert (i, next_generation t) P)"
          using cap_wf_extend [OF wf True lt t1(2) t1(3-8)] t1(1) by simp
        moreover have "i \<notin> fst ` P" using D(9) [of i] t1(1,2) by (simp add: unat_u16_of_nat)
        moreover have "cap_view ?t = cap_view t"
          by (rule cap_view_append) (simp add: t1(3))
        moreover have "tcharges ?t = tcharges t1" by (simp add: tcharges_def)
        ultimately show ?thesis
          using 1 Inr False Some True n(1,2) nr lt t1(5) by (simp add: reserve_allocation_def)
      qed
    next
      case ne: False
      let ?t = "t\<lparr>free_list := butlast (free_list t), next_generation := next_generation t + 1,
        reserved_allocations := card P + 1\<rparr>"
      have "cap_wf ?t (insert (last (free_list t), next_generation t) P)" by (rule cap_wf_pop [OF wf ne lt])
      moreover have "last (free_list t) \<notin> fst ` P" using D(8) last_in_set [OF ne] by auto
      moreover have "cap_view ?t = cap_view t" by (rule cap_view_cong) simp
      moreover have "tcharges ?t = tcharges t" by (simp add: tcharges_def)
      ultimately show ?thesis
        using inv ne False Some n(1,2) nr lt
        by (cases "free_list t") (simp_all add: reserve_allocation_def)
    qed
  qed
qed (use inv in \<open>simp add: reserve_allocation_def\<close>)

lemma cancel:
  assumes inv: "hinv h R (tcharges t + C)" and wf: "cap_wf t P" and p: "(i, g) \<in> P"
  shows "runs (cancel_reserved hp i t h)
    (\<lambda>(h', t'). hinv h' R (tcharges t' + C) \<and> cap_wf t' (P - {(i, g)}) \<and>
       cap_view t' = cap_view t \<and> next_generation t' = next_generation t)"
proof -
  obtain t1 where 1: "push_free i t = Some t1" "reserved_allocations t1 = card P"
    "cap_wf (t1\<lparr>reserved_allocations := card P - 1\<rparr>) (P - {(i, g)})" "cslots t1 = cslots t"
    "next_generation t1 = next_generation t" "slots_charge t1 = slots_charge t" "free_charge t1 = free_charge t"
    by (rule cancel_push_ok [OF wf p])
  let ?t = "t1\<lparr>reserved_allocations := card P - 1\<rparr>"
  have "cap_view ?t = cap_view t" by (rule cap_view_cong) (simp add: 1(4))
  moreover have "tcharges ?t = tcharges t" using 1 by (simp add: tcharges_def)
  ultimately have "runs (reclaim_if_unused hp ?t h) (\<lambda>(h', t'). hinv h' R (tcharges t' + C) \<and>
      cap_wf t' (P - {(i, g)}) \<and> cap_view t' = cap_view t \<and> next_generation t' = next_generation t)"
    by (intro runs_mono [OF reclaim [OF _ 1(3), of h R C]]) (use inv 1(5) in auto)
  then show ?thesis using cap_wf_pending(4) [OF wf p] 1 by (simp add: cancel_reserved_def)
qed

lemma allocate:
  assumes inv: "hinv h R (tcharges t + C)" and wf: "cap_wf t P" and g: "grants_ok (grant env)"
  shows "runs (cap_allocate hp env e t h)
    (\<lambda>(h', t', r). hinv h' R (tcharges t' + C) \<and> cap_wf t' P \<and>
       (case r of Inl err \<Rightarrow> t' = t \<and> err \<in> {GenerationExhausted, TableFull, OutOfMemory}
        | Inr cid \<Rightarrow> cap_view t' = (cap_view t)(cid \<mapsto> e) \<and> cap_view t cid = None \<and>
            cap_generation cid = next_generation t \<and> cap_is_valid cid \<and>
            next_generation t' = next_generation t + 1))"
proof -
  obtain h1 t1 r where 1: "reserve_allocation hp env t h = Some (h1, t1, r)"
    "hinv h1 R (tcharges t1 + C)" "cap_view t1 = cap_view t"
    and r: "case r of Inl e \<Rightarrow> t1 = t \<and> e \<in> {GenerationExhausted, TableFull, OutOfMemory}
        | Inr (i, gen) \<Rightarrow> gen = next_generation t \<and> next_generation t < MAX_GENERATION \<and>
            next_generation t1 = gen + 1 \<and> i \<notin> fst ` P \<and> cap_wf t1 (insert (i, gen) P)"
    using reserve_id [OF assms] by (auto simp: runs_def)
  show ?thesis
  proof (cases r)
    case (Inl err)
    with 1 r wf show ?thesis by (simp add: cap_allocate_def)
  next
    case (Inr ig)
    let ?g = "next_generation t"
    obtain i where i: "ig = (i, ?g)" "?g < MAX_GENERATION" "next_generation t1 = ?g + 1" "i \<notin> fst ` P"
      "cap_wf t1 (insert (i, ?g) P)" using r Inr by (cases ig) auto
    have P: "insert (i, ?g) P - {(i, ?g)} = P" using i(4) by force
    obtain t2 where t2: "install_reserved i ?g e t1 = Some (t2, from_parts i ?g)"
      "cap_wf t2 P" "cap_view t2 = (cap_view t1)(from_parts i ?g \<mapsto> e)"
      "cap_view t1 (from_parts i ?g) = None" "next_generation t2 = next_generation t1"
      "slots_charge t2 = slots_charge t1" "free_charge t2 = free_charge t1"
      by (rule install_reserved_ok [OF i(5), where i = i and g = ?g and e = e]) (simp_all add: P)
    have "tcharges t2 = tcharges t1" using t2 by (simp add: tcharges_def)
    moreover have "cap_generation (from_parts i ?g) = ?g" "cap_is_valid (from_parts i ?g)"
      using from_parts_parts [of ?g i] i(2) cap_wfD(10) [OF wf] by simp_all
    ultimately show ?thesis using 1 Inr i t2 by (simp add: cap_allocate_def)
  qed
qed

lemma reclaim_step:
  assumes inv: "hinv h R (tcharges t + C)" and wf: "cap_wf t1 P"
    and ch: "slots_charge t1 = slots_charge t" "free_charge t1 = free_charge t"
  shows "runs (reclaim_if_unused hp t1 h)
    (\<lambda>(h', t'). hinv h' R (tcharges t' + C) \<and> cap_wf t' P \<and> cap_view t' = cap_view t1 \<and>
       next_generation t' = next_generation t1)"
proof -
  have "hinv h R (tcharges t1 + C)" using inv ch by (simp add: tcharges_def)
  then show ?thesis by (intro runs_mono [OF reclaim [OF _ wf]]) auto
qed

lemma revoke:
  assumes inv: "hinv h R (tcharges t + C)" and wf: "cap_wf t P"
  shows "runs (cap_revoke hp cid t h)
    (\<lambda>(h', t', r). hinv h' R (tcharges t' + C) \<and> cap_wf t' P \<and> next_generation t' = next_generation t \<and>
       (case r of Inl e \<Rightarrow> t' = t \<and> e = InvalidCapId \<and> cap_view t cid = None
        | Inr e \<Rightarrow> cap_view t cid = Some e \<and> cap_view t' = (cap_view t)(cid := None)))"
proof -
  obtain t1 r where 1: "revoke_retaining_capacity cid t = Some (t1, r)" "cap_wf t1 P"
    "next_generation t1 = next_generation t"
    "slots_charge t1 = slots_charge t" "free_charge t1 = free_charge t"
    and r: "case r of Inl e \<Rightarrow> t1 = t \<and> e = InvalidCapId \<and> cap_view t cid = None
        | Inr e \<Rightarrow> cap_view t cid = Some e \<and> cap_view t1 = (cap_view t)(cid := None)"
    using revoke_retaining_ok [OF wf, of cid] by (auto simp: runs_def)
  show ?thesis
  proof (cases r)
    case (Inl e)
    with 1 r inv show ?thesis by (simp add: cap_revoke_def)
  next
    case (Inr e)
    with r have v: "cap_view t cid = Some e" "cap_view t1 = (cap_view t)(cid := None)" by simp_all
    have "runs (reclaim_if_unused hp t1 h)
      (\<lambda>(h', t'). hinv h' R (tcharges t' + C) \<and> cap_wf t' P \<and> next_generation t' = next_generation t \<and>
       cap_view t cid = Some e \<and> cap_view t' = (cap_view t)(cid := None))"
      by (rule runs_mono [OF reclaim_step [OF inv 1(2,4,5)]]) (use 1(3) v in auto)
    then show ?thesis using 1(1) Inr by (auto simp: cap_revoke_def runs_def)
  qed
qed

lemma delegate:
  assumes inv: "hinv h R (tcharges t + C)" and wf: "cap_wf t P" and g: "grants_ok (grant env)"
  shows "runs (cap_delegate hp env cid rmask flags t h)
    (\<lambda>(h', t', r). hinv h' R (tcharges t' + C) \<and> cap_wf t' P \<and>
       (case r of Inl _ \<Rightarrow> t' = t
        | Inr new \<Rightarrow> \<exists>e. cap_view t cid = Some e \<and> \<not> has_flag (cflags e) NOXFER \<and>
            \<not> is_namespace (object e) \<and> cap_view t new = None \<and>
            cap_view t' = (cap_view t)(new \<mapsto> cap_entry_with_flags (object e)
              (restrict_rights (rights e) rmask) (flags OR cflags e)) \<and>
            cap_generation new = next_generation t \<and> next_generation t' = next_generation t + 1))"
proof (cases "cap_lookup t cid")
  case (Inl e)
  with inv wf show ?thesis by (simp add: cap_delegate_def)
next
  case (Inr e)
  then have "cap_view t cid = Some e" by (simp add: cap_lookup_view)
  with inv wf Inr show ?thesis
    by (auto simp: cap_delegate_def split: sum.splits intro!: runs_mono [OF allocate [OF inv wf g]])
qed

lemma reconcile:
  assumes inv: "hinv h R (tcharges t + C)" and wf: "cap_wf t P"
  shows "runs (reconcile_refcounts_after_fork hp counts t h)
    (\<lambda>(h', t'). hinv h' R (tcharges t' + C) \<and> cap_wf t' P \<and> next_generation t' = next_generation t \<and>
       cap_view t' = (\<lambda>c. Option.bind (cap_view t c) (reconciled counts c)))"
proof -
  obtain t1 where 1: "reconcile_walk counts [0..<length (cslots t)] t = Some t1" "cap_wf t1 P"
    "next_generation t1 = next_generation t" "slots_charge t1 = slots_charge t" "free_charge t1 = free_charge t"
    "cap_view t1 = (\<lambda>c. if unat (cap_index c) \<in> set [0..<length (cslots t)]
          then Option.bind (cap_view t c) (reconciled counts c) else cap_view t c)"
    using reconcile_walk_ok [OF wf, of "[0..<length (cslots t)]" counts] by (auto simp: runs_def)
  have v: "cap_view t1 = (\<lambda>c. Option.bind (cap_view t c) (reconciled counts c))"
  proof (rule ext)
    fix c show "cap_view t1 c = Option.bind (cap_view t c) (reconciled counts c)"
      by (cases "cap_view t c") (auto simp: 1(6) cap_view_Some)
  qed
  have "runs (reclaim_if_unused hp t1 h) (\<lambda>(h', t'). hinv h' R (tcharges t' + C) \<and> cap_wf t' P \<and>
      next_generation t' = next_generation t \<and>
       cap_view t' = (\<lambda>c. Option.bind (cap_view t c) (reconciled counts c)))"
    by (rule runs_mono [OF reclaim_step [OF inv 1(2,4,5)]]) (use 1(3) v in auto)
  with 1(1) show ?thesis by (simp add: reconcile_refcounts_after_fork_def)
qed

lemma cloexec:
  assumes inv: "hinv h R (tcharges t + C)" and wf: "cap_wf t P"
  shows "runs (apply_cloexec hp t h)
    (\<lambda>(h', t'). hinv h' R (tcharges t' + C) \<and> cap_wf t' P \<and> next_generation t' = next_generation t \<and>
       cap_view t' = view_filter inherits_on_exec (cap_view t))"
proof -
  obtain t1 where 1: "cloexec_loop t = Some t1" "cap_wf t1 P" "next_generation t1 = next_generation t"
    "slots_charge t1 = slots_charge t" "free_charge t1 = free_charge t"
    "cap_view t1 = view_filter inherits_on_exec (cap_view t)"
    using cloexec_loop_ok [OF wf] by (auto simp: runs_def)
  have "runs (reclaim_if_unused hp t1 h) (\<lambda>(h', t'). hinv h' R (tcharges t' + C) \<and> cap_wf t' P \<and>
      next_generation t' = next_generation t \<and> cap_view t' = view_filter inherits_on_exec (cap_view t))"
    by (rule runs_mono [OF reclaim_step [OF inv 1(2,4,5)]]) (use 1(3,6) in auto)
  with 1(1) show ?thesis by (simp add: apply_cloexec_def)
qed

lemma with_capacity:
  assumes inv: "hinv h R C" and g: "grants_ok (grant env)"
  shows "runs (try_with_capacity hp env n h)
    (\<lambda>(h', r). case r of Inl e \<Rightarrow> e = OutOfMemory \<and> hinv h' R C
      | Inr t \<Rightarrow> hinv h' R (tcharges t + C) \<and> cap_wf t {} \<and> cap_view t = Map.empty \<and>
          next_generation t = 1)"
proof -
  let ?n = "min n MAX_CAP_SLOTS"
  obtain h1 sl where 1: "prepare_cap_vec hp (grant env) (slot_size env) (slot_align env) ?n h = Some (h1, sl)"
    and sl: "case sl of Inl e \<Rightarrow> e = OutOfMemory \<and> hinv h1 R C
       | Inr (c, x) \<Rightarrow> ?n \<le> c \<and> hinv h1 (add_mset x R) C"
    using prepare [OF inv g, of "slot_size env" "slot_align env" ?n] by (auto simp: runs_def)
  show ?thesis
  proof (cases sl)
    case (Inl e)
    with 1 sl show ?thesis by (simp add: try_with_capacity_def)
  next
    case (Inr cx)
    then obtain sc sx where s: "sl = Ok (sc, sx)" "?n \<le> sc" "hinv h1 (add_mset sx R) C"
      using sl by (cases cx) auto
    obtain h2 fr where 2: "prepare_cap_vec hp (grant env) U16_SIZE U16_SIZE ?n h1 = Some (h2, fr)"
      and fr: "case fr of Inl e \<Rightarrow> e = OutOfMemory \<and> hinv h2 (add_mset sx R) C
         | Inr (c, x) \<Rightarrow> ?n \<le> c \<and> hinv h2 (add_mset x (add_mset sx R)) C"
      using prepare [OF s(3) g, of U16_SIZE U16_SIZE ?n] by (auto simp: runs_def)
    show ?thesis
    proof (cases fr)
      case (Inl e)
      with fr obtain h3 where "drop_heap_reservation hp sx h2 = Some h3" "hinv h3 R C"
        using drop_res [of h2 sx R C] by (auto simp: runs_def)
      with 1 2 s fr Inl show ?thesis by (simp add: try_with_capacity_def Let_def)
    next
      case (Inr cx)
      then obtain fc fx where f: "fr = Ok (fc, fx)" "?n \<le> fc" "hinv h2 (add_mset sx (add_mset fx R)) C"
        using fr by (cases cx) (auto simp: add_mset_commute)
      obtain h3 k3 where 3: "commit_heap hp sx h2 = Some (h3, Ok k3)" "hinv h3 (add_mset fx R) (add_mset k3 C)"
        using commit [OF f(3)] by (auto simp: runs_def)
      obtain h4 k4 where 4: "commit_heap hp fx h3 = Some (h4, Ok k4)" "hinv h4 R (add_mset k4 (add_mset k3 C))"
        using commit [OF 3(2)] by (auto simp: runs_def)
      have "cap_wf \<lparr>cslots = replicate ?n None, slots_capacity = sc,
         free_list = map word_of_nat [0..<?n], free_capacity = fc, slots_charge = Some k3,
         free_charge = Some k4, next_generation = 1, reserved_allocations = 0\<rparr> {}"
        by (rule fresh_table_wf [OF _ s(2) f(2)]) simp
      with 1 2 3 4 s f show ?thesis
        by (simp add: try_with_capacity_def Let_def tcharges_def add_mset_commute fresh_table_view)
    qed
  qed
qed

lemma new_arc:
  assumes inv: "hinv h R C" and g: "grants_ok (grant env)"
  shows "runs (try_new_arc hp env ok h)
    (\<lambda>(h', r). case r of Inl e \<Rightarrow> e = OutOfMemory \<and> hinv h' R C
      | Inr (t, k) \<Rightarrow> hinv h' R (add_mset k (tcharges t + C)) \<and> cap_wf t {} \<and> cap_view t = Map.empty)"
proof (cases "arc_charge_bytes (table_size env) (table_align env)")
  case (Inl e)
  with inv show ?thesis by (simp add: try_new_arc_def)
next
  case (Inr ab)
  note unfold = try_new_arc_def Inr
  obtain h1 ar where 1: "reserve_heap hp Capability ab h = Some (h1, ar)"
    and ar: "case ar of Inl _ \<Rightarrow> hinv h1 R C | Inr x \<Rightarrow> hinv h1 (add_mset x R) C"
    using reserve_weak [OF inv charge_bytes_bound(3) [OF Inr], of Capability] by (auto simp: runs_def)
  show ?thesis
  proof (cases ar)
    case (Inl e)
    with 1 ar show ?thesis by (simp add: unfold)
  next
    case ax: (Inr ax)
    with ar have h1: "hinv h1 (add_mset ax R) C" by simp
    obtain h2 inner where 2: "try_with_capacity hp env DEFAULT_CAP_SLOTS h1 = Some (h2, inner)"
      and r: "case inner of Inl e \<Rightarrow> e = OutOfMemory \<and> hinv h2 (add_mset ax R) C
        | Inr t \<Rightarrow> hinv h2 (add_mset ax R) (tcharges t + C) \<and> cap_wf t {} \<and> cap_view t = Map.empty \<and>
            next_generation t = 1"
      using with_capacity [OF h1 g, of DEFAULT_CAP_SLOTS] by (auto simp: runs_def)
    show ?thesis
    proof (cases inner)
      case (Inl e)
      with r obtain h3 where "drop_heap_reservation hp ax h2 = Some h3" "hinv h3 R C"
        using drop_res [of h2 ax R C] by (auto simp: runs_def)
      with 1 2 ax Inl r show ?thesis by (simp add: unfold)
    next
      case t: (Inr t)
      with r have t2: "hinv h2 (add_mset ax R) (tcharges t + C)" "cap_wf t {}" "cap_view t = Map.empty" by simp_all
      obtain h3 k where 3: "commit_heap hp ax h2 = Some (h3, Ok k)" "hinv h3 R (add_mset k (tcharges t + C))"
        using commit [OF t2(1)] by (auto simp: runs_def)
      obtain h4 where 4: "drop_charge_opt hp (slots_charge t) h3 = Some h4"
          "hinv h4 R (opt_ms (free_charge t) + add_mset k C)"
        using drop_opt [of h3 R "slots_charge t" "opt_ms (free_charge t) + add_mset k C"] 3(2)
        by (auto simp: runs_def tcharges_def add.assoc)
      obtain h5 where 5: "drop_charge_opt hp (free_charge t) h4 = Some h5" "hinv h5 R (add_mset k C)"
        using drop_opt [OF 4(2)] by (auto simp: runs_def)
      obtain h6 where "drop_heap_charge hp k h5 = Some h6" "hinv h6 R C"
        using drop_chg [OF 5(2)] by (auto simp: runs_def)
      with 1 2 3 4 5 ax t t2 show ?thesis by (simp add: unfold)
    qed
  qed
qed

text \<open>The last stage of a fork: build the child's table, reclaim it if nothing was inherited,
  and commit the charge of its \<open>Arc\<close>.\<close>

lemma fork_finish:
  assumes wf: "cap_wf t P" and cap: "length (cslots t) \<le> sc" "length (cslots t) \<le> fc"
    and inv: "hinv h (add_mset ar R) (add_mset sk (add_mset fk C))"
  obtains t1 h6 t2 h7 k where "rebuild_free_list
       \<lparr>cslots = map inherit_slot (cslots t), slots_capacity = sc, free_list = [], free_capacity = fc,
        slots_charge = Some sk, free_charge = Some fk,
        next_generation = next_generation t, reserved_allocations = 0\<rparr> = Some t1"
    "reclaim_if_unused hp t1 h = Some (h6, t2)" "commit_heap hp ar h6 = Some (h7, Ok k)"
    "hinv h7 R (add_mset k (tcharges t2 + C))" "cap_wf t2 {}"
    "cap_view t2 = view_filter inherits_on_fork (cap_view t)" "next_generation t2 = next_generation t"
proof -
  note D = cap_wfD [OF wf]
  let ?c = "\<lparr>cslots = map inherit_slot (cslots t), slots_capacity = sc, free_list = [], free_capacity = fc,
        slots_charge = Some sk, free_charge = Some fk,
        next_generation = next_generation t, reserved_allocations = 0\<rparr>"
  have gens: "1 \<le> slot_generation s \<and> slot_generation s < next_generation t"
    if "j < length (cslots t)" "inherit_slot (cslots t ! j) = Some s" for j s
    using D(12) [of j s] that by (auto simp: inherit_slot_def split: option.splits if_splits)
  obtain t1 where t1: "rebuild_free_list ?c = Some t1" "cap_wf t1 {}"
    "t1 = ?c\<lparr>free_list := vacant_indices 0 (cslots ?c)\<rparr>"
    using rebuild_ok [of ?c] D(1,10,11) cap gens by (auto simp: runs_def)
  have "cap_view t1 = view_filter inherits_on_fork (cap_view t)"
    by (rule inherited_view) (simp add: t1(3))
  moreover have "next_generation t1 = next_generation t" by (simp add: t1(3))
  moreover have "hinv h (add_mset ar R) (tcharges t1 + C)"
    using inv by (simp add: t1(3) tcharges_def add_mset_commute)
  ultimately obtain h6 t2 where t2: "reclaim_if_unused hp t1 h = Some (h6, t2)"
    "hinv h6 (add_mset ar R) (tcharges t2 + C)" "cap_wf t2 {}"
    "cap_view t2 = view_filter inherits_on_fork (cap_view t)" "next_generation t2 = next_generation t"
    using reclaim [OF _ t1(2), of h "add_mset ar R" C] by (auto simp: runs_def)
  obtain h7 k where "commit_heap hp ar h6 = Some (h7, Ok k)" "hinv h7 R (add_mset k (tcharges t2 + C))"
    using commit [OF t2(2)] by (auto simp: runs_def)
  with t1 t2 show ?thesis by (intro that)
qed

lemma clone_for_fork:
  assumes inv: "hinv h R C" and wf: "cap_wf t P" and g: "grants_ok (grant env)"
  shows "runs (try_clone_for_fork hp env t h)
    (\<lambda>(h', r). case r of Inl _ \<Rightarrow> hinv h' R C
      | Inr (t', k) \<Rightarrow> hinv h' R (add_mset k (tcharges t' + C)) \<and> cap_wf t' {} \<and>
          cap_view t' = view_filter inherits_on_fork (cap_view t) \<and> next_generation t' = next_generation t)"
proof (cases "arc_charge_bytes (table_size env) (table_align env)")
  case (Inl e)
  with inv show ?thesis by (simp add: try_clone_for_fork_def Let_def)
next
  case (Inr ab)
  let ?n = "length (cslots t)"
  have n: "min ?n MAX_CAP_SLOTS = ?n" using cap_wfD(1) [OF wf] by simp
  note unfold = try_clone_for_fork_def Let_def n Inr
  obtain h1 ar where 1: "reserve_heap hp Capability ab h = Some (h1, ar)"
    and ar: "case ar of Inl _ \<Rightarrow> hinv h1 R C | Inr x \<Rightarrow> hinv h1 (add_mset x R) C"
    using reserve_weak [OF inv charge_bytes_bound(3) [OF Inr], of Capability] by (auto simp: runs_def)
  show ?thesis
  proof (cases ar)
    case (Inl e)
    with 1 ar show ?thesis by (simp add: unfold)
  next
    case ax: (Inr ax)
    with ar have h1: "hinv h1 (add_mset ax R) C" by simp
    obtain h2 sl where 2: "prepare_cap_vec hp (grant env) (slot_size env) (slot_align env) ?n h1 = Some (h2, sl)"
      and sl: "case sl of Inl e \<Rightarrow> e = OutOfMemory \<and> hinv h2 (add_mset ax R) C
       | Inr (c, x) \<Rightarrow> ?n \<le> c \<and> hinv h2 (add_mset x (add_mset ax R)) C"
      using prepare [OF h1 g, of "slot_size env" "slot_align env" ?n] by (auto simp: runs_def)
    show ?thesis
    proof (cases sl)
      case (Inl e)
      with sl obtain h3 where "drop_heap_reservation hp ax h2 = Some h3" "hinv h3 R C"
        using drop_res [of h2 ax R C] by (auto simp: runs_def)
      with 1 2 ax Inl show ?thesis by (simp add: unfold)
    next
      case (Inr cx)
      then obtain sc sx where s: "sl = Ok (sc, sx)" "?n \<le> sc" "hinv h2 (add_mset sx (add_mset ax R)) C"
        using sl by (cases cx) auto
      obtain h3 fr where 3: "prepare_cap_vec hp (grant env) U16_SIZE U16_SIZE ?n h2 = Some (h3, fr)"
        and fr: "case fr of Inl e \<Rightarrow> e = OutOfMemory \<and> hinv h3 (add_mset sx (add_mset ax R)) C
          | Inr (c, x) \<Rightarrow> ?n \<le> c \<and> hinv h3 (add_mset x (add_mset sx (add_mset ax R))) C"
        using prepare [OF s(3) g, of U16_SIZE U16_SIZE ?n] by (auto simp: runs_def)
      show ?thesis
      proof (cases fr)
        case (Inl e)
        with fr obtain h4 where 4: "drop_heap_reservation hp sx h3 = Some h4" "hinv h4 (add_mset ax R) C"
          using drop_res [of h3 sx] by (auto simp: runs_def)
        obtain h5 where "drop_heap_reservation hp ax h4 = Some h5" "hinv h5 R C"
          using drop_res [OF 4(2)] by (auto simp: runs_def)
        with 1 2 3 4 ax s Inl show ?thesis by (simp add: unfold)
      next
        case (Inr cx)
        then obtain fc fx where f: "fr = Ok (fc, fx)" "?n \<le> fc"
          "hinv h3 (add_mset sx (add_mset fx (add_mset ax R))) C"
          using fr by (cases cx) (auto simp: add_mset_commute)
        obtain h4 sk where 4: "commit_heap hp sx h3 = Some (h4, Ok sk)"
          "hinv h4 (add_mset fx (add_mset ax R)) (add_mset sk C)"
          using commit [OF f(3)] by (auto simp: runs_def)
        obtain h5 fk where 5: "commit_heap hp fx h4 = Some (h5, Ok fk)"
          "hinv h5 (add_mset ax R) (add_mset sk (add_mset fk C))"
          using commit [OF 4(2)] by (auto simp: runs_def add_mset_commute)
        show ?thesis
          by (rule fork_finish [OF wf s(2) f(2) 5(2)])
            (use 1 2 3 4(1) 5(1) ax s(1) f(1) in \<open>simp add: unfold\<close>)
      qed
    qed
  qed
qed

end

interpretation cap_ledger_heap: cap_ledger "ledger_heap own" "ledger_inv own L" for own L
  by unfold_locales

end
