(* ===== verification/CapSystem.thy ===== *)
theory CapSystem
  imports CapContract
begin

text \<open>
  One capability table in a running kernel. The state holds the heap ledger, the RAII values
  other code holds, the table and the identities reserved but not yet published; a step is a
  call into \<^verbatim>\<open>cap/lib.rs\<close> or heap activity elsewhere that leaves the table's charges alone. The
  table comes from a constructor or from a fork of another table.
\<close>

section \<open>The transition system\<close>

type_synonym cap_sys = "heap_state \<times> raii multiset \<times> cap_table \<times> (u16 \<times> u64) set"

datatype cap_op =
    OpCapReserve
  | OpCapInstall u16 u64 cap_entry
  | OpCapCancel u16 u64
  | OpCapAllocate cap_entry
  | OpCapRevoke cap_id
  | OpCapDelegate cap_id cap_rights cap_flags
  | OpCapIncrement cap_id
  | OpCapDecrement cap_id
  | OpCapReconcile "(cap_id \<times> usize) list"
  | OpCapCloexec
  | OpCapFork

fun cap_enabled :: "cap_op \<Rightarrow> cap_sys \<Rightarrow> bool" where
  "cap_enabled (OpCapInstall i g e) (H, L, t, P) \<longleftrightarrow> (i, g) \<in> P"
| "cap_enabled (OpCapCancel i g) (H, L, t, P) \<longleftrightarrow> (i, g) \<in> P"
| "cap_enabled _ s \<longleftrightarrow> True"

definition forked_values :: "unit + cap_table \<times> heap_charge \<Rightarrow> raii multiset" where
  "forked_values r =
     (case r of Inl _ \<Rightarrow> {#} | Inr (t, k) \<Rightarrow> held {#} (add_mset k (tcharges t)))"

fun cap_exec :: "nat option \<Rightarrow> cap_env \<Rightarrow> cap_op \<Rightarrow> cap_sys \<Rightarrow> cap_sys option" where
  "cap_exec own env OpCapReserve (H, L, t, P) =
     map_option (\<lambda>(H', t', r). (H', L, t', case r of Inl _ \<Rightarrow> P | Inr p \<Rightarrow> insert p P))
       (reserve_allocation (ledger_heap own) env t H)"
| "cap_exec own env (OpCapInstall i g e) (H, L, t, P) =
     map_option (\<lambda>(t', _). (H, L, t', P - {(i, g)})) (install_reserved i g e t)"
| "cap_exec own env (OpCapCancel i g) (H, L, t, P) =
     map_option (\<lambda>(H', t'). (H', L, t', P - {(i, g)})) (cancel_reserved (ledger_heap own) i t H)"
| "cap_exec own env (OpCapAllocate e) (H, L, t, P) =
     map_option (\<lambda>(H', t', _). (H', L, t', P)) (cap_allocate (ledger_heap own) env e t H)"
| "cap_exec own env (OpCapRevoke c) (H, L, t, P) =
     map_option (\<lambda>(H', t', _). (H', L, t', P)) (cap_revoke (ledger_heap own) c t H)"
| "cap_exec own env (OpCapDelegate c m f) (H, L, t, P) =
     map_option (\<lambda>(H', t', _). (H', L, t', P)) (cap_delegate (ledger_heap own) env c m f t H)"
| "cap_exec own env (OpCapIncrement c) (H, L, t, P) =
     Some (H, L, fst (cap_increment_refcount c t), P)"
| "cap_exec own env (OpCapDecrement c) (H, L, t, P) =
     Some (H, L, fst (cap_decrement_refcount c t), P)"
| "cap_exec own env (OpCapReconcile counts) (H, L, t, P) =
     map_option (\<lambda>(H', t'). (H', L, t', P))
       (reconcile_refcounts_after_fork (ledger_heap own) counts t H)"
| "cap_exec own env OpCapCloexec (H, L, t, P) =
     map_option (\<lambda>(H', t'). (H', L, t', P)) (apply_cloexec (ledger_heap own) t H)"
| "cap_exec own env OpCapFork (H, L, t, P) =
     map_option (\<lambda>(H', r). (H', forked_values r + L, t, P)) (try_clone_for_fork (ledger_heap own) env t H)"

inductive cap_step :: "nat option \<Rightarrow> cap_env \<Rightarrow> cap_sys \<Rightarrow> cap_sys \<Rightarrow> bool" for own env where
  call: "cap_enabled op s \<Longrightarrow> cap_exec own env op s = Some s' \<Longrightarrow> cap_step own env s s'"
| other: "heap_enabled op (H, held {#} (tcharges t) + L) \<Longrightarrow>
    heap_exec op (H, held {#} (tcharges t) + L) = Some (H', held {#} (tcharges t) + L') \<Longrightarrow>
    owner_live H' own \<Longrightarrow> cap_step own env (H, L, t, P) (H', L', t, P)"

inductive cap_reachable :: "nat option \<Rightarrow> cap_env \<Rightarrow> cap_sys \<Rightarrow> bool" for own env where
  with_capacity: "heap_reachable (H, L) \<Longrightarrow> owner_live H own \<Longrightarrow>
    min n MAX_CAP_SLOTS \<le> sc \<Longrightarrow> min n MAX_CAP_SLOTS \<le> fc \<Longrightarrow>
    cap_reachable own env (H, L, table_with_capacity sc fc n, {})"
| try_with_capacity: "heap_reachable (H, L) \<Longrightarrow> owner_live H own \<Longrightarrow>
    try_with_capacity (ledger_heap own) env n H = Some (H', Ok t) \<Longrightarrow>
    cap_reachable own env (H', L, t, {})"
| try_new_arc: "heap_reachable (H, L) \<Longrightarrow> owner_live H own \<Longrightarrow>
    try_new_arc (ledger_heap own) env arc_ok H = Some (H', Ok (t, k)) \<Longrightarrow>
    cap_reachable own env (H', add_mset (LiveCharge k) L, t, {})"
| child: "cap_reachable own env (H, L, t, P) \<Longrightarrow>
    try_clone_for_fork (ledger_heap own) env t H = Some (H', Ok (t', k)) \<Longrightarrow>
    cap_reachable own env (H', add_mset (LiveCharge k) (held {#} (tcharges t) + L), t', {})"
| step: "cap_reachable own env s \<Longrightarrow> cap_step own env s s' \<Longrightarrow> cap_reachable own env s'"

inductive_cases cap_stepE: "cap_step own env s s'"

section \<open>The invariant\<close>

definition cap_sys_inv :: "nat option \<Rightarrow> cap_sys \<Rightarrow> bool" where
  "cap_sys_inv own s \<longleftrightarrow>
     (case s of (H, L, t, P) \<Rightarrow> ledger_inv own L H {#} (tcharges t) \<and> cap_wf t P)"

text \<open>Identifiers that resolve after a step resolved before it, were reserved before it, or
  carry a generation that had not been issued.\<close>

definition no_revival :: "cap_sys \<Rightarrow> cap_sys \<Rightarrow> bool" where
  "no_revival s s' \<longleftrightarrow>
     (case (s, s') of ((H, L, t, P), (H', L', t', P')) \<Rightarrow>
        next_generation t \<le> next_generation t' \<and>
        (\<forall>p\<in>P'. p \<in> P \<or> next_generation t \<le> snd p) \<and>
        (\<forall>c. cap_view t' c \<noteq> None \<longrightarrow> cap_view t c \<noteq> None \<or>
           (cap_index c, cap_generation c) \<in> P \<or> next_generation t \<le> cap_generation c))"

lemma same_view_no_revival:
  assumes "\<And>c. cap_view t' c \<noteq> None \<Longrightarrow> cap_view t c \<noteq> None" "P' \<subseteq> P"
    and "next_generation t' = next_generation t"
  shows "no_revival (H, L, t, P) (H', L', t', P')"
  using assms by (auto simp: no_revival_def)

lemma ledger_inv_extra:
  "ledger_inv own L H R (C + D) \<longleftrightarrow> ledger_inv own (held {#} D + L) H R C"
  by (simp add: ledger_inv_def held_def ac_simps)

lemma wf_generation_step:
  assumes "cap_wf t P"
  shows "next_generation t \<le> next_generation t + 1"
  using cap_wfD(11) [OF assms] by (simp add: MAX_GENERATION_def word_le_nat_alt unat_word_ariths)

lemma exec_reserve_id:
  assumes inv: "cap_sys_inv own (H, L, t, P)" and g: "grants_ok (grant env)"
  shows "\<exists>s'. cap_exec own env OpCapReserve (H, L, t, P) = Some s' \<and> cap_sys_inv own s' \<and>
    no_revival (H, L, t, P) s'"
proof -
  have l: "ledger_inv own L H {#} (tcharges t + {#})" and wf: "cap_wf t P"
    using inv by (simp_all add: cap_sys_inv_def)
  obtain H' t' r where 1: "reserve_allocation (ledger_heap own) env t H = Some (H', t', r)"
    "ledger_inv own L H' {#} (tcharges t')" "cap_view t' = cap_view t"
    "case r of Inl e \<Rightarrow> t' = t \<and> e \<in> {GenerationExhausted, TableFull, OutOfMemory}
        | Inr (i, gen) \<Rightarrow> gen = next_generation t \<and> next_generation t < MAX_GENERATION \<and>
            next_generation t' = gen + 1 \<and> i \<notin> fst ` P \<and> cap_wf t' (insert (i, gen) P)"
    using cap_ledger_heap.reserve_id [OF l wf g] by (auto simp: runs_def)
  then show ?thesis
    using wf wf_generation_step [OF wf]
    by (cases r) (auto simp: cap_sys_inv_def no_revival_def)
qed

lemma exec_install:
  assumes inv: "cap_sys_inv own (H, L, t, P)" and p: "(i, g) \<in> P"
  shows "\<exists>s'. cap_exec own env (OpCapInstall i g e) (H, L, t, P) = Some s' \<and> cap_sys_inv own s' \<and>
    no_revival (H, L, t, P) s'"
proof -
  have l: "ledger_inv own L H {#} (tcharges t)" and wf: "cap_wf t P"
    using inv by (simp_all add: cap_sys_inv_def)
  obtain t' where 1: "install_reserved i g e t = Some (t', from_parts i g)"
    "cap_wf t' (P - {(i, g)})" "cap_view t' = (cap_view t)(from_parts i g \<mapsto> e)"
    "next_generation t' = next_generation t" "slots_charge t' = slots_charge t" "free_charge t' = free_charge t"
    by (rule install_reserved_ok [OF wf p])
  have "tcharges t' = tcharges t" using 1 by (simp add: tcharges_def)
  moreover have "(cap_index (from_parts i g), cap_generation (from_parts i g)) \<in> P"
    using from_parts_parts [of g i] cap_wf_pending(5,6) [OF wf p] p by simp
  ultimately show ?thesis using 1 l by (auto simp: cap_sys_inv_def no_revival_def)
qed

lemma exec_cancel:
  assumes inv: "cap_sys_inv own (H, L, t, P)" and p: "(i, g) \<in> P"
  shows "\<exists>s'. cap_exec own env (OpCapCancel i g) (H, L, t, P) = Some s' \<and> cap_sys_inv own s' \<and>
    no_revival (H, L, t, P) s'"
proof -
  have l: "ledger_inv own L H {#} (tcharges t + {#})" and wf: "cap_wf t P"
    using inv by (simp_all add: cap_sys_inv_def)
  obtain H' t' where "cancel_reserved (ledger_heap own) i t H = Some (H', t')"
    "ledger_inv own L H' {#} (tcharges t')" "cap_wf t' (P - {(i, g)})"
    "cap_view t' = cap_view t" "next_generation t' = next_generation t"
    using cap_ledger_heap.cancel [OF l wf p] by (auto simp: runs_def)
  then show ?thesis by (auto simp: cap_sys_inv_def intro: same_view_no_revival)
qed

lemma exec_allocate:
  assumes inv: "cap_sys_inv own (H, L, t, P)" and g: "grants_ok (grant env)"
  shows "\<exists>s'. cap_exec own env (OpCapAllocate e) (H, L, t, P) = Some s' \<and> cap_sys_inv own s' \<and>
    no_revival (H, L, t, P) s'"
proof -
  have l: "ledger_inv own L H {#} (tcharges t + {#})" and wf: "cap_wf t P"
    using inv by (simp_all add: cap_sys_inv_def)
  obtain H' t' r where 1: "cap_allocate (ledger_heap own) env e t H = Some (H', t', r)"
    "ledger_inv own L H' {#} (tcharges t')" "cap_wf t' P"
    and r: "case r of Inl err \<Rightarrow> t' = t \<and> err \<in> {GenerationExhausted, TableFull, OutOfMemory}
        | Inr cid \<Rightarrow> cap_view t' = (cap_view t)(cid \<mapsto> e) \<and> cap_view t cid = None \<and>
            cap_generation cid = next_generation t \<and> cap_is_valid cid \<and>
            next_generation t' = next_generation t + 1"
    using cap_ledger_heap.allocate [OF l wf g, of e] by (auto simp: runs_def)
  have "no_revival (H, L, t, P) (H', L, t', P)"
    using r wf_generation_step [OF wf] by (cases r) (auto simp: no_revival_def)
  with 1 show ?thesis by (simp add: cap_sys_inv_def)
qed

lemma exec_revoke:
  assumes inv: "cap_sys_inv own (H, L, t, P)"
  shows "\<exists>s'. cap_exec own env (OpCapRevoke c) (H, L, t, P) = Some s' \<and> cap_sys_inv own s' \<and>
    no_revival (H, L, t, P) s'"
proof -
  have l: "ledger_inv own L H {#} (tcharges t + {#})" and wf: "cap_wf t P"
    using inv by (simp_all add: cap_sys_inv_def)
  obtain H' t' r where 1: "cap_revoke (ledger_heap own) c t H = Some (H', t', r)"
    "ledger_inv own L H' {#} (tcharges t')" "cap_wf t' P" "next_generation t' = next_generation t"
    and r: "case r of Inl e \<Rightarrow> t' = t \<and> e = InvalidCapId \<and> cap_view t c = None
        | Inr e \<Rightarrow> cap_view t c = Some e \<and> cap_view t' = (cap_view t)(c := None)"
    using cap_ledger_heap.revoke [OF l wf, of c] by (auto simp: runs_def)
  have "no_revival (H, L, t, P) (H', L, t', P)"
    by (rule same_view_no_revival) (use r 1(4) in \<open>auto split: sum.splits if_splits\<close>)
  with 1 show ?thesis by (simp add: cap_sys_inv_def)
qed

lemma exec_delegate:
  assumes inv: "cap_sys_inv own (H, L, t, P)" and g: "grants_ok (grant env)"
  shows "\<exists>s'. cap_exec own env (OpCapDelegate c m f) (H, L, t, P) = Some s' \<and> cap_sys_inv own s' \<and>
    no_revival (H, L, t, P) s'"
proof -
  have l: "ledger_inv own L H {#} (tcharges t + {#})" and wf: "cap_wf t P"
    using inv by (simp_all add: cap_sys_inv_def)
  obtain H' t' r where 1: "cap_delegate (ledger_heap own) env c m f t H = Some (H', t', r)"
    "ledger_inv own L H' {#} (tcharges t')" "cap_wf t' P"
    and r: "case r of Inl _ \<Rightarrow> t' = t
        | Inr new \<Rightarrow> \<exists>e. cap_view t c = Some e \<and> \<not> has_flag (cflags e) NOXFER \<and>
            \<not> is_namespace (object e) \<and> cap_view t new = None \<and>
            cap_view t' = (cap_view t)(new \<mapsto> cap_entry_with_flags (object e)
              (restrict_rights (rights e) m) (f OR cflags e)) \<and>
            cap_generation new = next_generation t \<and> next_generation t' = next_generation t + 1"
    using cap_ledger_heap.delegate [OF l wf g, of c m f] by (auto simp: runs_def)
  have "no_revival (H, L, t, P) (H', L, t', P)"
    using r wf_generation_step [OF wf] by (cases r) (auto simp: no_revival_def split: if_splits)
  with 1 show ?thesis by (simp add: cap_sys_inv_def)
qed

lemma update_no_revival:
  assumes inv: "cap_sys_inv own (H, L, t, P)" and e: "cap_view t c = Some e"
  shows "cap_sys_inv own (H, L, update_entry c f t, P)" "no_revival (H, L, t, P) (H, L, update_entry c f t, P)"
proof -
  have l: "ledger_inv own L H {#} (tcharges t)" and wf: "cap_wf t P"
    using inv by (simp_all add: cap_sys_inv_def)
  note u = update_entry_ok [OF wf e, of f]
  have "tcharges (update_entry c f t) = tcharges t" by (simp add: update_entry_def tcharges_def)
  with u(1) l show "cap_sys_inv own (H, L, update_entry c f t, P)" by (simp add: cap_sys_inv_def)
  show "no_revival (H, L, t, P) (H, L, update_entry c f t, P)"
    by (rule same_view_no_revival) (use u(2) e in \<open>auto simp: update_entry_def split: if_splits\<close>)
qed

lemma no_revival_refl: "no_revival s s"
  by (cases s) (simp add: no_revival_def)

lemma exec_refcounts:
  assumes inv: "cap_sys_inv own (H, L, t, P)"
  shows "\<exists>s'. cap_exec own env (OpCapIncrement c) (H, L, t, P) = Some s' \<and> cap_sys_inv own s' \<and>
      no_revival (H, L, t, P) s'"
    "\<exists>s'. cap_exec own env (OpCapDecrement c) (H, L, t, P) = Some s' \<and> cap_sys_inv own s' \<and>
      no_revival (H, L, t, P) s'"
  using inv update_no_revival [OF inv] no_revival_refl
  by (auto simp: cap_increment_refcount_def cap_decrement_refcount_def cap_lookup_view split: sum.splits)

lemma exec_reconcile:
  assumes inv: "cap_sys_inv own (H, L, t, P)"
  shows "\<exists>s'. cap_exec own env (OpCapReconcile counts) (H, L, t, P) = Some s' \<and> cap_sys_inv own s' \<and>
    no_revival (H, L, t, P) s'"
proof -
  have l: "ledger_inv own L H {#} (tcharges t + {#})" and wf: "cap_wf t P"
    using inv by (simp_all add: cap_sys_inv_def)
  obtain H' t' where 1: "reconcile_refcounts_after_fork (ledger_heap own) counts t H = Some (H', t')"
    "ledger_inv own L H' {#} (tcharges t')" "cap_wf t' P" "next_generation t' = next_generation t"
    "cap_view t' = (\<lambda>c. Option.bind (cap_view t c) (reconciled counts c))"
    using cap_ledger_heap.reconcile [OF l wf, of counts] by (auto simp: runs_def)
  have "no_revival (H, L, t, P) (H', L, t', P)"
    by (rule same_view_no_revival) (use 1(4,5) in \<open>auto simp: bind_eq_Some_conv\<close>)
  with 1 show ?thesis by (simp add: cap_sys_inv_def)
qed

lemma exec_cloexec:
  assumes inv: "cap_sys_inv own (H, L, t, P)"
  shows "\<exists>s'. cap_exec own env OpCapCloexec (H, L, t, P) = Some s' \<and> cap_sys_inv own s' \<and>
    no_revival (H, L, t, P) s'"
proof -
  have l: "ledger_inv own L H {#} (tcharges t + {#})" and wf: "cap_wf t P"
    using inv by (simp_all add: cap_sys_inv_def)
  obtain H' t' where 1: "apply_cloexec (ledger_heap own) t H = Some (H', t')"
    "ledger_inv own L H' {#} (tcharges t')" "cap_wf t' P" "next_generation t' = next_generation t"
    "cap_view t' = view_filter inherits_on_exec (cap_view t)"
    using cap_ledger_heap.cloexec [OF l wf] by (auto simp: runs_def)
  have "no_revival (H, L, t, P) (H', L, t', P)"
    by (rule same_view_no_revival) (use 1(4,5) in \<open>auto simp: view_filter_def split: option.splits\<close>)
  with 1 show ?thesis by (simp add: cap_sys_inv_def)
qed

lemma fork_values:
  assumes inv: "cap_sys_inv own (H, L, t, P)" and g: "grants_ok (grant env)"
  shows "\<exists>H' r. try_clone_for_fork (ledger_heap own) env t H = Some (H', r) \<and>
    ledger_inv own (forked_values r + L) H' {#} (tcharges t) \<and>
    (\<forall>t' k. r = Ok (t', k) \<longrightarrow> cap_wf t' {} \<and> next_generation t' = next_generation t \<and>
       cap_view t' = view_filter inherits_on_fork (cap_view t))"
proof -
  have l: "ledger_inv own L H {#} (tcharges t)" and wf: "cap_wf t P"
    using inv by (simp_all add: cap_sys_inv_def)
  obtain H' r where 1: "try_clone_for_fork (ledger_heap own) env t H = Some (H', r)"
    "case r of Inl _ \<Rightarrow> ledger_inv own L H' {#} (tcharges t)
      | Inr (t', k) \<Rightarrow> ledger_inv own L H' {#} (add_mset k (tcharges t' + tcharges t)) \<and> cap_wf t' {} \<and>
          cap_view t' = view_filter inherits_on_fork (cap_view t) \<and> next_generation t' = next_generation t"
    using cap_ledger_heap.clone_for_fork [OF l wf g] by (auto simp: runs_def)
  have "ledger_inv own (forked_values r + L) H' {#} (tcharges t)"
  proof (cases r)
    case (Inr tk)
    obtain t' k where tk: "tk = (t', k)" by (cases tk)
    have "ledger_inv own L H' {#} (tcharges t + add_mset k (tcharges t'))"
      using 1(2) Inr tk by (simp add: ac_simps)
    then show ?thesis unfolding ledger_inv_extra using Inr tk by (simp add: forked_values_def)
  qed (use 1(2) in \<open>simp add: forked_values_def\<close>)
  with 1 show ?thesis by (auto split: sum.splits)
qed

lemma exec_fork:
  assumes inv: "cap_sys_inv own (H, L, t, P)" and g: "grants_ok (grant env)"
  shows "\<exists>s'. cap_exec own env OpCapFork (H, L, t, P) = Some s' \<and> cap_sys_inv own s' \<and>
    no_revival (H, L, t, P) s'"
proof -
  obtain H' r where "try_clone_for_fork (ledger_heap own) env t H = Some (H', r)"
    "ledger_inv own (forked_values r + L) H' {#} (tcharges t)"
    using fork_values [OF assms] by blast
  with inv show ?thesis by (auto simp: cap_sys_inv_def intro: same_view_no_revival)
qed

lemma cap_exec_ok:
  assumes inv: "cap_sys_inv own s" and g: "grants_ok (grant env)" and en: "cap_enabled op s"
  shows "\<exists>s'. cap_exec own env op s = Some s' \<and> cap_sys_inv own s' \<and> no_revival s s'"
proof -
  obtain H L t P where s: "s = (H, L, t, P)" by (cases s)
  note i = inv [unfolded s]
  show ?thesis
    using en unfolding s
    by (cases op) (simp_all only: cap_enabled.simps exec_reserve_id [OF i g] exec_install [OF i]
        exec_cancel [OF i] exec_allocate [OF i g] exec_revoke [OF i] exec_delegate [OF i g]
        exec_refcounts [OF i] exec_reconcile [OF i] exec_cloexec [OF i] exec_fork [OF i g])
qed

lemma cap_step_ok:
  assumes inv: "cap_sys_inv own s" and g: "grants_ok (grant env)" and st: "cap_step own env s s'"
  shows "cap_sys_inv own s'" "no_revival s s'"
proof -
  have "cap_sys_inv own s' \<and> no_revival s s'"
    using st
  proof (cases rule: cap_step.cases)
    case (call op)
    with cap_exec_ok [OF inv g call(1)] show ?thesis by auto
  next
    case (other op H t L H' L' P)
    then have "ledger_inv own L' H' {#} (tcharges t)"
      using inv heap_reachable.step [of "(H, held {#} (tcharges t) + L)" op]
      by (simp add: cap_sys_inv_def ledger_inv_def)
    with inv other show ?thesis by (auto simp: cap_sys_inv_def intro: same_view_no_revival)
  qed
  then show "cap_sys_inv own s'" "no_revival s s'" by simp_all
qed

lemma reachable_cap_inv:
  assumes "cap_reachable own env s" and g: "grants_ok (grant env)"
  shows "cap_sys_inv own s"
  using assms(1)
proof (induction rule: cap_reachable.induct)
  case (with_capacity H L n sc fc)
  then have "cap_wf (table_with_capacity sc fc n) {}"
    by (simp add: table_with_capacity_def Let_def fresh_table_wf)
  moreover have "tcharges (table_with_capacity sc fc n) = {#}"
    by (simp add: table_with_capacity_def Let_def tcharges_def)
  ultimately show ?case using with_capacity by (simp add: cap_sys_inv_def ledger_inv_def)
next
  case (try_with_capacity H L n H' t)
  then have "ledger_inv own L H {#} {#}" by (simp add: ledger_inv_def)
  from cap_ledger_heap.with_capacity [OF this g, of n] try_with_capacity(3)
  show ?case by (simp add: cap_sys_inv_def)
next
  case (try_new_arc H L ok H' t k)
  then have "ledger_inv own L H {#} {#}" by (simp add: ledger_inv_def)
  from cap_ledger_heap.new_arc [OF this g, of ok] try_new_arc(3)
  show ?case by (simp add: cap_sys_inv_def ledger_inv_def)
next
  case (child H L t P H' t' k)
  then have "ledger_inv own (forked_values (Ok (t', k)) + L) H' {#} (tcharges t)" "cap_wf t' {}"
    using fork_values [OF child.IH g] by auto
  then have "ledger_inv own (add_mset (LiveCharge k) (held {#} (tcharges t) + L)) H' {#} (tcharges t')"
    by (simp add: ledger_inv_def forked_values_def held_def ac_simps)
  with \<open>cap_wf t' {}\<close> show ?case by (simp add: cap_sys_inv_def)
next
  case (step s s')
  then show ?case using cap_step_ok(1) [OF step.IH g] by blast
qed

section \<open>Dead identifiers\<close>

definition cap_dead :: "cap_id \<Rightarrow> cap_sys \<Rightarrow> bool" where
  "cap_dead c s \<longleftrightarrow>
     (case s of (H, L, t, P) \<Rightarrow> cap_view t c = None \<and> cap_generation c < next_generation t \<and>
        (cap_index c, cap_generation c) \<notin> P)"

lemma dead_step:
  assumes "no_revival s s'" "cap_dead c s"
  shows "cap_dead c s'"
proof -
  obtain H L t P H' L' t' P' where s: "s = (H, L, t, P)" "s' = (H', L', t', P')"
    by (cases s; cases s')
  have g: "cap_generation c < next_generation t" using assms(2) by (simp add: cap_dead_def s)
  then have "cap_generation c < next_generation t'" "\<not> next_generation t \<le> cap_generation c"
    using assms(1) by (auto simp: no_revival_def s)
  with assms show ?thesis by (fastforce simp: no_revival_def cap_dead_def s)
qed

lemma dead_runs:
  assumes "(cap_step own env)\<^sup>*\<^sup>* s s'" "cap_sys_inv own s" "grants_ok (grant env)" "cap_dead c s"
  shows "cap_dead c s'"
proof -
  have "cap_dead c s' \<and> cap_sys_inv own s'"
    using assms(1)
  proof (induction rule: rtranclp_induct)
    case (step y z)
    then show ?case using cap_step_ok [OF _ assms(3)] dead_step by blast
  qed (use assms in simp)
  then show ?thesis ..
qed

lemma revoked_dead:
  assumes inv: "cap_sys_inv own (H, L, t, P)" and e: "cap_view t c = Some e"
    and ex: "cap_exec own env (OpCapRevoke c) (H, L, t, P) = Some s'"
  shows "cap_dead c s'"
proof -
  have l: "ledger_inv own L H {#} (tcharges t + {#})" and wf: "cap_wf t P"
    using inv by (simp_all add: cap_sys_inv_def)
  obtain H' t' r where 1: "cap_revoke (ledger_heap own) c t H = Some (H', t', r)"
    "next_generation t' = next_generation t"
    "case r of Inl e \<Rightarrow> t' = t \<and> e = InvalidCapId \<and> cap_view t c = None
        | Inr e \<Rightarrow> cap_view t c = Some e \<and> cap_view t' = (cap_view t)(c := None)"
    using cap_ledger_heap.revoke [OF l wf, of c] by (auto simp: runs_def)
  then have t': "s' = (H', L, t', P)" "next_generation t' = next_generation t" "cap_view t' c = None"
    using ex e by (cases r; simp)+
  obtain i where i: "i = unat (cap_index c)" "i < length (cslots t)" "\<exists>s. cslots t ! i = Some s \<and>
      slot_generation s = cap_generation c" using e by (auto simp: cap_view_Some)
  then have "cap_generation c < next_generation t" using cap_wfD(12) [OF wf i(2)] by fastforce
  moreover have "cap_index c \<notin> fst ` P" using cap_wfD(9) [OF wf, of "cap_index c"] i by auto
  then have "(cap_index c, cap_generation c) \<notin> P" by force
  ultimately show ?thesis using t' by (simp add: cap_dead_def)
qed

section \<open>Properties\<close>


text \<open>C2: the capability table and the heap ledger compose. In every reachable state the ledger
  together with exactly the charges the table carries and the values held elsewhere is a
  reachable state of the heap system, and the table is well formed: a slot is vacant exactly
  when its index is on the free list or handed to one pending reservation, the free list has no
  duplicates and fits its capacity, and every generation in use is below the next one.\<close>

theorem cap_table_composes:
  assumes "grants_ok (grant env)" and "cap_reachable own env (H, L, t, P)"
  shows "heap_reachable (H, held {#} (tcharges t) + L) \<and>
    (\<forall>i. i \<in> set (free_list t) \<union> fst ` P \<longleftrightarrow> unat i < length (cslots t) \<and> cslots t ! unat i = None) \<and>
    set (free_list t) \<inter> fst ` P = {} \<and> distinct (free_list t) \<and>
    length (free_list t) \<le> length (cslots t) \<and> length (cslots t) \<le> free_capacity t \<and>
    length (cslots t) \<le> slots_capacity t \<and> length (cslots t) \<le> MAX_CAP_SLOTS \<and>
    reserved_allocations t = card P \<and>
    (\<forall>s. Some s \<in> set (cslots t) \<longrightarrow> 1 \<le> slot_generation s \<and> slot_generation s < next_generation t)"
proof -
  have inv: "ledger_inv own L H {#} (tcharges t)" and wf: "cap_wf t P"
    using reachable_cap_inv [OF assms(2,1)] by (simp_all add: cap_sys_inv_def)
  have "length (free_list t) \<le> length (cslots t)"
    using cap_wfD(4,9) [OF wf] by (intro distinct_indices_length) auto
  with inv wf show ?thesis
    by (auto simp: ledger_inv_def cap_wf_def in_set_conv_nth)
qed

text \<open>C3: revocation is permanent. Once an identifier that resolved has been revoked, no sequence
  of later allocations, delegations, reservations, forks, reference count updates and exec
  sweeps on the table makes the same identifier resolve again, although its slot is reused.\<close>

theorem cap_revocation_permanent:
  assumes "grants_ok (grant env)" and "cap_reachable own env (H, L, t, P)"
    and "cap_lookup t cid = Ok e"
    and "cap_exec own env (OpCapRevoke cid) (H, L, t, P) = Some s1"
    and "(cap_step own env)\<^sup>*\<^sup>* s1 (H2, L2, t2, P2)"
  shows "cap_lookup t2 cid = Err InvalidCapId"
proof -
  have inv: "cap_sys_inv own (H, L, t, P)" by (rule reachable_cap_inv [OF assms(2,1)])
  have "cap_view t cid = Some e" using assms(3) by (simp add: cap_lookup_view)
  from revoked_dead [OF inv this assms(4)] have "cap_dead cid s1" .
  moreover have "cap_sys_inv own s1" using cap_exec_ok [OF inv assms(1), of "OpCapRevoke cid"] assms(4) by auto
  ultimately have "cap_dead cid (H2, L2, t2, P2)" using dead_runs [OF assms(5) _ assms(1)] by blast
  then show ?thesis by (simp add: cap_dead_def cap_view_None_lookup)
qed

text \<open>C21: allocation extends the abstract table by one fresh identifier. On success the new
  identifier did not resolve before, resolves to the given entry afterwards, carries the next
  generation, and every other identifier resolves as before; on failure the table is
  unchanged and the error is one of generation exhaustion, a full table or lack of memory.\<close>

theorem cap_allocate_refines:
  assumes "grants_ok (grant env)" and "cap_reachable own env (H, L, t, P)"
  shows "\<exists>H' t' r. cap_allocate (ledger_heap own) env e t H = Some (H', t', r) \<and>
    (case r of
       Inl err \<Rightarrow> t' = t \<and> err \<in> {GenerationExhausted, TableFull, OutOfMemory}
     | Inr cid \<Rightarrow> cap_lookup t cid = Err InvalidCapId \<and> cap_generation cid = next_generation t \<and>
         (\<forall>c. cap_lookup t' c = (if c = cid then Ok e else cap_lookup t c)))"
proof -
  have l: "ledger_inv own L H {#} (tcharges t + {#})" and wf: "cap_wf t P"
    using reachable_cap_inv [OF assms(2,1)] by (simp_all add: cap_sys_inv_def)
  obtain H' t' r where 1: "cap_allocate (ledger_heap own) env e t H = Some (H', t', r)"
    and r: "case r of Inl err \<Rightarrow> t' = t \<and> err \<in> {GenerationExhausted, TableFull, OutOfMemory}
        | Inr cid \<Rightarrow> cap_view t' = (cap_view t)(cid \<mapsto> e) \<and> cap_view t cid = None \<and>
            cap_generation cid = next_generation t \<and> cap_is_valid cid \<and>
            next_generation t' = next_generation t + 1"
    using cap_ledger_heap.allocate [OF l wf assms(1), of e] by (auto simp: runs_def)
  then show ?thesis by (cases r) (auto simp: lookup_of_view)
qed

text \<open>C10: delegation never adds authority. A delegated entry names the same object, allows a right
  only if both the source and the mask allow it, and carries every flag of the source; an
  entry marked \<open>NOXFER\<close> or naming a namespace is refused and the table stays as it was.\<close>

theorem cap_delegate_no_escalation:
  assumes "grants_ok (grant env)" and "cap_reachable own env (H, L, t, P)"
    and "cap_lookup t cid = Ok src"
  shows "\<exists>H' t' r. cap_delegate (ledger_heap own) env cid m f t H = Some (H', t', r) \<and>
    (has_flag (cflags src) NOXFER \<or> is_namespace (object src) \<longrightarrow>
       r = Err DelegationDenied \<and> t' = t \<and> H' = H) \<and>
    (\<forall>new. r = Ok new \<longrightarrow>
       (\<exists>d. cap_lookup t' new = Ok d \<and> object d = object src \<and>
          (\<forall>q. entry_allows d q \<longleftrightarrow> entry_allows src q \<and> rights_allow m q) \<and>
          (\<forall>fl. has_flag (cflags src) fl \<longrightarrow> has_flag (cflags d) fl)) \<and>
       (\<forall>c. c \<noteq> new \<longrightarrow> cap_lookup t' c = cap_lookup t c))"
proof (cases "has_flag (cflags src) NOXFER \<or> is_namespace (object src)")
  case True
  then show ?thesis using assms(3) by (auto simp: cap_delegate_def)
next
  case False
  have l: "ledger_inv own L H {#} (tcharges t + {#})" and wf: "cap_wf t P"
    using reachable_cap_inv [OF assms(2,1)] by (simp_all add: cap_sys_inv_def)
  have src: "cap_view t cid = Some src" using assms(3) by (simp add: cap_lookup_view)
  let ?d = "cap_entry_with_flags (object src) (restrict_rights (rights src) m) (f OR cflags src)"
  have "runs (cap_delegate (ledger_heap own) env cid m f t H)
      (\<lambda>(H', t', r). \<forall>new. r = Ok new \<longrightarrow> cap_view t' = (cap_view t)(new \<mapsto> ?d))"
    by (rule runs_mono [OF cap_ledger_heap.delegate [OF l wf assms(1), of cid m f]])
      (use src in \<open>auto split: sum.splits\<close>)
  then obtain H' t' r where "cap_delegate (ledger_heap own) env cid m f t H = Some (H', t', r)"
    "\<forall>new. r = Ok new \<longrightarrow> cap_view t' = (cap_view t)(new \<mapsto> ?d)" by (auto simp: runs_def)
  moreover have "entry_allows ?d q \<longleftrightarrow> entry_allows src q \<and> rights_allow m q" for q
    by (simp add: entry_allows_def cap_entry_with_flags_def rights_allow_restrict)
  moreover have "object ?d = object src" "has_flag (cflags src) fl \<Longrightarrow> has_flag (cflags ?d) fl" for fl
    by (simp_all add: cap_entry_with_flags_def has_flag_or)
  ultimately show ?thesis using False by (auto simp: lookup_of_view)
qed

text \<open>C17: fork inherits exactly the capabilities not marked close-on-fork. The child's table
  resolves an identifier to an entry when the parent's does and the entry inherits, the
  parent's own table does not change, and when the clone fails every byte reserved for it is
  back with the ledger.\<close>

theorem cap_fork_inherits:
  assumes "grants_ok (grant env)" and "cap_reachable own env (H, L, t, P)"
  shows "\<exists>H' r. try_clone_for_fork (ledger_heap own) env t H = Some (H', r) \<and>
    (case r of
       Inl _ \<Rightarrow> heap_reachable (H', held {#} (tcharges t) + L)
     | Inr (t', k) \<Rightarrow>
         heap_reachable (H', held {#} (add_mset k (tcharges t' + tcharges t)) + L) \<and>
         (\<forall>c e. cap_lookup t' c = Ok e \<longleftrightarrow> cap_lookup t c = Ok e \<and> \<not> has_flag (cflags e) CLOFORK))"
proof -
  have inv: "cap_sys_inv own (H, L, t, P)" by (rule reachable_cap_inv [OF assms(2,1)])
  obtain H' r where 1: "try_clone_for_fork (ledger_heap own) env t H = Some (H', r)"
    "ledger_inv own (forked_values r + L) H' {#} (tcharges t)"
    "\<forall>t' k. r = Ok (t', k) \<longrightarrow> cap_wf t' {} \<and> next_generation t' = next_generation t \<and>
       cap_view t' = view_filter inherits_on_fork (cap_view t)"
    using fork_values [OF inv assms(1)] by blast
  have "case r of
       Inl _ \<Rightarrow> heap_reachable (H', held {#} (tcharges t) + L)
     | Inr (t', k) \<Rightarrow>
         heap_reachable (H', held {#} (add_mset k (tcharges t' + tcharges t)) + L) \<and>
         (\<forall>c e. cap_lookup t' c = Ok e \<longleftrightarrow> cap_lookup t c = Ok e \<and> \<not> has_flag (cflags e) CLOFORK)"
    using 1(2,3)
    by (auto simp: ledger_inv_def forked_values_def held_def cap_lookup_view view_filter_def
        inherits_on_fork_def ac_simps split: sum.splits option.splits if_splits)
  with 1(1) show ?thesis by blast
qed



section \<open>A concrete run\<close>

text \<open>A table of two slots built at boot. One read-only pipe capability is allocated, delegated
  and revoked; a reservation is taken beside it.\<close>

definition demo_env :: cap_env where
  "demo_env = \<lparr>slot_size = 56, slot_align = 8, table_size = 128, table_align = 8, grant = (\<lambda>s n. Some n)\<rparr>"

definition demo_table :: cap_table where "demo_table = table_with_capacity 2 2 2"

definition demo_entry :: cap_entry where
  "demo_entry = cap_entry_with_flags (PipeCap 3 ReadEnd) RW_RIGHTS CLOEXEC"

definition demo_full :: cap_table where
  "demo_full =
     demo_table\<lparr>cslots := [None, Some \<lparr>slot_generation = 1, slot_entry = demo_entry\<rparr>], free_list := [0],
       next_generation := 2\<rparr>"

lemma demo_table_simp:
  "demo_table = \<lparr>cslots = [None, None], slots_capacity = 2, free_list = [0, 1], free_capacity = 2,
     slots_charge = None, free_charge = None, next_generation = 1, reserved_allocations = 0\<rparr>"
  by (simp add: demo_table_def table_with_capacity_def MAX_CAP_SLOTS_def numeral_2_eq_2)

lemma demo_grants: "grants_ok (grant demo_env)"
  by (simp add: demo_env_def grants_ok_def)

lemma demo_ids: "from_parts 1 1 = 0x10001" "cap_index 0x10001 = 1" "cap_generation 0x10001 = 1"
  "cap_is_valid 0x10001"
  by (simp_all add: from_parts_def cap_index_def cap_generation_def cap_is_valid_def)

lemma demo_start: "cap_reachable None demo_env (heap_boot, {#}, demo_table, {})"
  unfolding demo_table_def
  by (rule cap_reachable.with_capacity [OF heap_reachable.boot]) (simp_all add: owner_live_def)

lemma demo_reserve_id:
  "reserve_allocation (ledger_heap None) demo_env demo_table heap_boot =
     Some (heap_boot, demo_table\<lparr>free_list := [0], next_generation := 2, reserved_allocations := 1\<rparr>, Ok (1, 1))"
  by (simp add: reserve_allocation_def demo_table_simp checked_add_usize_def usize_max_def
      checked_add_word_def MAX_GENERATION_def word_le_nat_alt)

lemma demo_allocate:
  "cap_allocate (ledger_heap None) demo_env demo_entry demo_table heap_boot =
     Some (heap_boot, demo_full, Ok 0x10001)"
  unfolding cap_allocate_def demo_reserve_id
  by (simp add: install_reserved_def reserved_slot_ok_def
      demo_full_def demo_table_simp demo_ids)

lemma demo_full_reachable: "cap_reachable None demo_env (heap_boot, {#}, demo_full, {})"
  by (rule cap_reachable.step [OF demo_start cap_step.call [of "OpCapAllocate demo_entry"]])
    (simp_all add: demo_allocate)

lemma demo_full_lookup: "cap_lookup demo_full 0x10001 = Ok demo_entry"
  by (simp add: cap_lookup_def demo_ids demo_full_def demo_table_simp)

lemma demo_revoked:
  "cap_exec None demo_env (OpCapRevoke 0x10001) (heap_boot, {#}, demo_full, {}) =
     Some (heap_boot, {#}, emptied (demo_full\<lparr>cslots := [None, None], free_list := [0, 1]\<rparr>), {})"
  by (simp add: cap_revoke_def revoke_retaining_capacity_def demo_ids push_free_def
      reclaim_if_unused_def table_in_use_def drop_charge_opt_def emptied_def demo_full_def demo_table_simp)


theorem cap_table_composes_witness:
  "heap_reachable (heap_boot, held {#} (tcharges demo_full) + {#}) \<and>
   length (free_list demo_full) = 1 \<and> free_capacity demo_full = 2"
  using cap_table_composes [OF demo_grants demo_full_reachable]
  by (simp add: demo_full_def demo_table_simp)

theorem cap_revocation_permanent_witness:
  "cap_lookup demo_full 0x10001 = Ok demo_entry \<and>
   cap_lookup (emptied (demo_full\<lparr>cslots := [None, None], free_list := [0, 1]\<rparr>)) 0x10001 = Err InvalidCapId"
  using cap_revocation_permanent [OF demo_grants demo_full_reachable demo_full_lookup demo_revoked rtranclp.rtrancl_refl]
    demo_full_lookup by simp

theorem cap_allocate_refines_witness:
  "cap_lookup demo_table 0x10001 = Err InvalidCapId \<and> cap_lookup demo_full 0x10001 = Ok demo_entry \<and>
   (\<forall>c. cap_lookup demo_full c = (if c = 0x10001 then Ok demo_entry else cap_lookup demo_table c))"
  using cap_allocate_refines [OF demo_grants demo_start, of demo_entry] by (simp add: demo_allocate)

theorem cap_delegate_no_escalation_witness:
  "\<exists>H' t' r. cap_delegate (ledger_heap None) demo_env 0x10001 READ_RIGHT 0 demo_full heap_boot = Some (H', t', r) \<and>
     (\<exists>new d. r = Ok new \<and> cap_lookup t' new = Ok d \<and> object d = PipeCap 3 ReadEnd \<and>
        entry_allows d READ_RIGHT \<and> \<not> entry_allows d WRITE_RIGHT \<and> has_flag (cflags d) CLOEXEC)"
proof -
  obtain H' t' new where d: "cap_delegate (ledger_heap None) demo_env 0x10001 READ_RIGHT 0 demo_full heap_boot =
      Some (H', t', Ok new)"
    unfolding cap_delegate_def demo_full_lookup
    by (simp add: demo_entry_def cap_entry_with_flags_def has_flag_def word_le_nat_alt
        NOXFER_def CLOEXEC_def cap_allocate_def reserve_allocation_def install_reserved_def
        reserved_slot_ok_def demo_full_def demo_table_simp checked_add_usize_def usize_max_def
        checked_add_word_def MAX_GENERATION_def)
  have r: "entry_allows demo_entry READ_RIGHT" "rights_allow READ_RIGHT READ_RIGHT"
    "\<not> rights_allow READ_RIGHT WRITE_RIGHT" "object demo_entry = PipeCap 3 ReadEnd" "has_flag (cflags demo_entry) CLOEXEC"
    by (simp_all add: demo_entry_def cap_entry_with_flags_def entry_allows_def rights_allow_def RW_RIGHTS_def
        READ_RIGHT_def WRITE_RIGHT_def has_flag_def)
  show ?thesis
    using cap_delegate_no_escalation [OF demo_grants demo_full_reachable demo_full_lookup, of READ_RIGHT 0] d r
    by fastforce
qed

theorem cap_fork_inherits_witness:
  "\<exists>H' r. try_clone_for_fork (ledger_heap None) demo_env demo_full heap_boot = Some (H', r) \<and>
     (case r of Inl _ \<Rightarrow> heap_reachable (H', {#}) | Inr (t', k) \<Rightarrow> cap_lookup t' 0x10001 = Ok demo_entry)"
proof -
  have "tcharges demo_full = {#}" by (simp add: tcharges_def demo_full_def demo_table_simp)
  moreover have "\<not> has_flag (cflags demo_entry) CLOFORK"
    by (simp add: demo_entry_def cap_entry_with_flags_def has_flag_def CLOEXEC_def CLOFORK_def)
  moreover obtain H' r where "try_clone_for_fork (ledger_heap None) demo_env demo_full heap_boot = Some (H', r)"
    "case r of
       Inl _ \<Rightarrow> heap_reachable (H', held {#} (tcharges demo_full) + {#})
     | Inr (t', k) \<Rightarrow>
         heap_reachable (H', held {#} (add_mset k (tcharges t' + tcharges demo_full)) + {#}) \<and>
         (\<forall>c e. cap_lookup t' c = Ok e \<longleftrightarrow> cap_lookup demo_full c = Ok e \<and> \<not> has_flag (cflags e) CLOFORK)"
    using cap_fork_inherits [OF demo_grants demo_full_reachable] by blast
  ultimately show ?thesis using demo_full_lookup by (cases r) auto
qed



end
