(* ===== verification/FallibleMap.thy ===== *)
theory FallibleMap
  imports Prelude
begin

text \<open>
  \<open>FallibleOrderedMap\<close> (\<^verbatim>\<open>kernel/mm/fallible_map.rs\<close>): an ordered map kept as a vector sorted by
  key, with allocation-fallible growth. The vector is its entries together with the capacity of
  its backing; what the allocator grants is a parameter. Lookup is the binary search of the
  standard library, proved to find the position the documentation promises; every operation
  keeps the entries strictly ascending and acts on the finite map they denote.
\<close>

section \<open>Binary search\<close>

datatype ordering = Less | Equal | Greater

definition cmp :: "'k::linorder \<Rightarrow> 'k \<Rightarrow> ordering" where
  "cmp a b = (if a < b then Less else if a = b then Equal else Greater)"

lemma cmp_iff [simp]:
  "cmp a b = Less \<longleftrightarrow> a < b" "cmp a b = Equal \<longleftrightarrow> a = b" "cmp a b = Greater \<longleftrightarrow> b < a"
  by (auto simp: cmp_def)

function bsearch_loop :: "(nat \<Rightarrow> ordering) \<Rightarrow> nat \<Rightarrow> nat \<Rightarrow> nat" where
  "bsearch_loop f base n =
     (if n \<le> 1 then base
      else bsearch_loop f (if f (base + n div 2) = Greater then base else base + n div 2) (n - n div 2))"
  by pat_completeness auto
termination by (relation "measure (\<lambda>(f, base, n). n)") auto

declare bsearch_loop.simps [simp del]

definition binary_search_by :: "(nat \<Rightarrow> ordering) \<Rightarrow> nat \<Rightarrow> nat + nat" where
  "binary_search_by f n =
     (if n = 0 then Err 0
      else let base = bsearch_loop f 0 n in
        case f base of Equal \<Rightarrow> Ok base | Less \<Rightarrow> Err (base + 1) | Greater \<Rightarrow> Err base)"

definition partition_point :: "('a \<Rightarrow> bool) \<Rightarrow> 'a list \<Rightarrow> nat" where
  "partition_point p xs =
     (case binary_search_by (\<lambda>i. if p (xs ! i) then Less else Greater) (length xs) of
        Inl i \<Rightarrow> i | Inr i \<Rightarrow> i)"

text \<open>A probe is ordered when everything before a position that is not \<open>Greater\<close> is \<open>Less\<close>.\<close>

definition probe_ordered :: "(nat \<Rightarrow> ordering) \<Rightarrow> nat \<Rightarrow> bool" where
  "probe_ordered f n \<longleftrightarrow> (\<forall>i j. i < j \<longrightarrow> j < n \<longrightarrow> f j \<noteq> Greater \<longrightarrow> f i = Less)"

lemma bsearch_loop_spec:
  assumes "probe_ordered f n" "0 < m" "base + m \<le> n" "base = 0 \<or> f base \<noteq> Greater"
    and "\<forall>i. base + m \<le> i \<longrightarrow> i < n \<longrightarrow> f i = Greater"
  shows "let b = bsearch_loop f base m in
    b < n \<and> (b = 0 \<or> f b \<noteq> Greater) \<and> (\<forall>i. b < i \<longrightarrow> i < n \<longrightarrow> f i = Greater)"
  using assms
proof (induction f base m rule: bsearch_loop.induct)
  case (1 f base m)
  note ord = 1(2) [unfolded probe_ordered_def, rule_format]
  show ?case
  proof (cases "m \<le> 1")
    case True
    with 1(3) have "m = 1" by simp
    with 1(3-6) show ?thesis by (subst bsearch_loop.simps) simp
  next
    case False
    let ?mid = "base + m div 2"
    let ?b = "if f ?mid = Greater then base else ?mid"
    have h: "0 < m div 2" "m div 2 < m" using False by auto
    have gt: "\<forall>i. ?b + (m - m div 2) \<le> i \<longrightarrow> i < n \<longrightarrow> f i = Greater"
    proof (cases "f ?mid = Greater")
      case True
      have "f i = Greater" if "?mid \<le> i" "i < n" for i
      proof (rule ccontr)
        assume "f i \<noteq> Greater"
        with True that(1) have "?mid < i" by (cases "i = ?mid") auto
        from ord [OF this that(2) \<open>f i \<noteq> Greater\<close>] True show False by simp
      qed
      moreover have "?mid \<le> base + (m - m div 2)" using h by linarith
      ultimately show ?thesis using True by auto
    next
      case False
      then show ?thesis using 1(6) h by auto
    qed
    have le: "?b + (m - m div 2) \<le> n" using 1(4) h by auto
    have b0: "?b = 0 \<or> f ?b \<noteq> Greater" using 1(5) by auto
    have IH: "let b = bsearch_loop f ?b (m - m div 2) in
        b < n \<and> (b = 0 \<or> f b \<noteq> Greater) \<and> (\<forall>i. b < i \<longrightarrow> i < n \<longrightarrow> f i = Greater)"
      by (rule 1(1) [OF False 1(2) _ le b0 gt]) (use h in simp)
    have "bsearch_loop f base m = bsearch_loop f ?b (m - m div 2)"
      using False by (subst bsearch_loop.simps) simp
    with IH show ?thesis by (simp only:)
  qed
qed

lemma binary_search_spec:
  assumes "probe_ordered f n"
  shows "case binary_search_by f n of
      Inr i \<Rightarrow> i < n \<and> f i = Equal
    | Inl i \<Rightarrow> i \<le> n \<and> (\<forall>j<i. f j = Less) \<and> (\<forall>j. i \<le> j \<longrightarrow> j < n \<longrightarrow> f j = Greater)"
proof (cases "n = 0")
  case False
  define b where "b = bsearch_loop f 0 n"
  have b: "b < n" "b = 0 \<or> f b \<noteq> Greater" "\<forall>i. b < i \<longrightarrow> i < n \<longrightarrow> f i = Greater"
    using bsearch_loop_spec [OF assms, of n 0] False by (simp_all add: b_def Let_def)
  have less: "f j = Less" if "j < b" "f b \<noteq> Greater" for j
    using assms that b(1) by (auto simp: probe_ordered_def)
  show ?thesis
  proof (cases "f b")
    case Less
    have "f j = ordering.Less" if "j < Suc b" for j
      using less [of j] that Less by (cases "j = b") auto
    with Less b False show ?thesis by (auto simp: binary_search_by_def b_def [symmetric] Suc_le_eq)
  next
    case Equal
    with b False show ?thesis by (simp add: binary_search_by_def b_def [symmetric])
  next
    case Greater
    with b have "b = 0" by simp
    moreover have "f j = ordering.Greater" if "j < n" for j
      using b(3) that Greater \<open>b = 0\<close> by (cases "j = 0") auto
    ultimately show ?thesis using Greater False by (simp add: binary_search_by_def b_def [symmetric])
  qed
qed (simp add: binary_search_by_def)

lemma partition_point_spec:
  assumes "\<And>i j. i < j \<Longrightarrow> j < length xs \<Longrightarrow> p (xs ! j) \<Longrightarrow> p (xs ! i)"
  shows "partition_point p xs \<le> length xs" "takeWhile p xs = take (partition_point p xs) xs"
    "filter p xs = take (partition_point p xs) xs"
proof -
  let ?f = "\<lambda>i. if p (xs ! i) then Less else Greater" and ?i = "partition_point p xs"
  have "probe_ordered ?f (length xs)" using assms by (auto simp: probe_ordered_def)
  from binary_search_spec [OF this]
  have i: "?i \<le> length xs" "\<forall>j<?i. p (xs ! j)" "\<forall>j. ?i \<le> j \<longrightarrow> j < length xs \<longrightarrow> \<not> p (xs ! j)"
    by (auto simp: partition_point_def split: sum.splits if_splits)
  show "?i \<le> length xs" by (rule i(1))
  show "takeWhile p xs = take ?i xs"
    by (rule takeWhile_eq_take_P_nth) (use i in auto)
  have "filter p (take ?i xs) = take ?i xs" "filter p (drop ?i xs) = []"
    using i by (auto simp: filter_id_conv filter_empty_conv in_set_conv_nth)
  then show "filter p xs = take ?i xs"
    by (metis append.right_neutral append_take_drop_id filter_append)
qed

section \<open>The map\<close>

record ('k, 'v) ordered_map =
  entries :: "('k \<times> 'v) list"
  map_capacity :: usize

text \<open>A detached backing holds no entries: only its capacity matters. Growth of the live vector
  (\<open>Vec::try_reserve\<close>, which may over-allocate, and \<open>try_reserve_exact\<close>) asks the allocator for a
  total capacity and gets one at least that large, or nothing.\<close>

record vec_alloc =
  grant_amortized :: "usize \<Rightarrow> usize option"
  grant_exact :: "usize \<Rightarrow> usize option"

definition om_new :: "('k, 'v) ordered_map" where
  "om_new = \<lparr>entries = [], map_capacity = 0\<rparr>"

definition om_len :: "('k, 'v) ordered_map \<Rightarrow> usize" where
  "om_len m = length (entries m)"

definition om_find :: "('k::linorder, 'v) ordered_map \<Rightarrow> 'k \<Rightarrow> usize + usize" where
  "om_find m key = binary_search_by (\<lambda>i. cmp (fst (entries m ! i)) key) (length (entries m))"

definition om_get :: "('k::linorder, 'v) ordered_map \<Rightarrow> 'k \<Rightarrow> 'v option" where
  "om_get m key = (case om_find m key of Inr idx \<Rightarrow> Some (snd (entries m ! idx)) | Inl _ \<Rightarrow> None)"

text \<open>A write through \<open>get_mut\<close>.\<close>

definition om_get_mut :: "('k::linorder, 'v) ordered_map \<Rightarrow> 'k \<Rightarrow> ('v \<Rightarrow> 'v) \<Rightarrow> ('k, 'v) ordered_map" where
  "om_get_mut m key f =
     (case om_find m key of
        Inr idx \<Rightarrow> m\<lparr>entries := (entries m)[idx := (fst (entries m ! idx), f (snd (entries m ! idx)))]\<rparr>
      | Inl _ \<Rightarrow> m)"

definition om_contains_key :: "('k::linorder, 'v) ordered_map \<Rightarrow> 'k \<Rightarrow> bool" where
  "om_contains_key m key = (case om_find m key of Inr _ \<Rightarrow> True | Inl _ \<Rightarrow> False)"

definition vec_reserve ::
  "(usize \<Rightarrow> usize option) \<Rightarrow> usize \<Rightarrow> ('k, 'v) ordered_map \<Rightarrow> unit + ('k, 'v) ordered_map" where
  "vec_reserve g additional m =
     (if length (entries m) + additional \<le> map_capacity m then Ok m
      else case checked_add_usize (length (entries m)) additional of
        None \<Rightarrow> Err ()
      | Some required \<Rightarrow>
          (case g required of None \<Rightarrow> Err () | Some c \<Rightarrow> Ok (m\<lparr>map_capacity := c\<rparr>)))"

definition om_try_reserve :: "vec_alloc \<Rightarrow> usize \<Rightarrow> ('k, 'v) ordered_map \<Rightarrow> unit + ('k, 'v) ordered_map" where
  "om_try_reserve al additional m = vec_reserve (grant_amortized al) additional m"

definition om_try_reserve_exact ::
  "vec_alloc \<Rightarrow> usize \<Rightarrow> ('k, 'v) ordered_map \<Rightarrow> unit + ('k, 'v) ordered_map" where
  "om_try_reserve_exact al additional m = vec_reserve (grant_exact al) additional m"

definition om_try_prepare_backing_exact :: "vec_alloc \<Rightarrow> usize \<Rightarrow> unit + usize" where
  "om_try_prepare_backing_exact al required_capacity = ok_or (grant_exact al required_capacity) ()"

text \<open>The result on success is the capacity of the retired backing.\<close>

definition om_replace_backing_deferred ::
  "usize \<Rightarrow> ('k, 'v) ordered_map \<Rightarrow> ('k, 'v) ordered_map \<times> (usize + usize)" where
  "om_replace_backing_deferred prepared m =
     (if prepared < length (entries m) then (m, Err prepared)
      else (m\<lparr>map_capacity := prepared\<rparr>, Ok (map_capacity m)))"

definition om_replace_backing ::
  "usize \<Rightarrow> ('k, 'v) ordered_map \<Rightarrow> ('k, 'v) ordered_map \<times> (usize + usize)" where
  "om_replace_backing prepared m =
     (case om_replace_backing_deferred prepared m of
        (m', Inl p) \<Rightarrow> (m', Err p)
      | (m', Inr retired) \<Rightarrow> (m', Ok retired))"

definition insert_at :: "nat \<Rightarrow> 'a \<Rightarrow> 'a list \<Rightarrow> 'a list" where
  "insert_at i x xs = take i xs @ x # drop i xs"

definition remove_at :: "nat \<Rightarrow> 'a list \<Rightarrow> 'a list" where
  "remove_at i xs = take i xs @ drop (Suc i) xs"

definition om_try_insert ::
  "vec_alloc \<Rightarrow> 'k::linorder \<Rightarrow> 'v \<Rightarrow> ('k, 'v) ordered_map \<Rightarrow> ('k, 'v) ordered_map \<times> (unit + 'v option)" where
  "om_try_insert al key v m =
     (case om_find m key of
        Inr idx \<Rightarrow> (m\<lparr>entries := (entries m)[idx := (fst (entries m ! idx), v)]\<rparr>,
                   Ok (Some (snd (entries m ! idx))))
      | Inl idx \<Rightarrow>
          (case om_try_reserve al 1 m of
             Inl e \<Rightarrow> (m, Err e)
           | Inr m' \<Rightarrow> (m'\<lparr>entries := insert_at idx (key, v) (entries m')\<rparr>, Ok None)))"

definition om_insert_unique_reserved ::
  "'k::linorder \<Rightarrow> 'v \<Rightarrow> ('k, 'v) ordered_map \<Rightarrow> ('k, 'v) ordered_map \<times> ('k \<times> 'v + unit)" where
  "om_insert_unique_reserved key v m =
     (case om_find m key of
        Inr _ \<Rightarrow> (m, Err (key, v))
      | Inl idx \<Rightarrow>
          if length (entries m) = map_capacity m then (m, Err (key, v))
          else (m\<lparr>entries := insert_at idx (key, v) (entries m)\<rparr>, Ok ()))"

definition om_remove_entry ::
  "'k::linorder \<Rightarrow> ('k, 'v) ordered_map \<Rightarrow> ('k, 'v) ordered_map \<times> ('k \<times> 'v) option" where
  "om_remove_entry key m =
     (case om_find m key of
        Inr idx \<Rightarrow> (m\<lparr>entries := remove_at idx (entries m)\<rparr>, Some (entries m ! idx))
      | Inl _ \<Rightarrow> (m, None))"

definition om_remove ::
  "'k::linorder \<Rightarrow> ('k, 'v) ordered_map \<Rightarrow> ('k, 'v) ordered_map \<times> 'v option" where
  "om_remove key m =
     (case om_find m key of
        Inr idx \<Rightarrow> (m\<lparr>entries := remove_at idx (entries m)\<rparr>, Some (snd (entries m ! idx)))
      | Inl _ \<Rightarrow> (m, None))"

definition om_clear :: "('k, 'v) ordered_map \<Rightarrow> ('k, 'v) ordered_map" where
  "om_clear m = m\<lparr>entries := []\<rparr>"

definition om_retain :: "('k \<Rightarrow> 'v \<Rightarrow> bool) \<Rightarrow> ('k, 'v) ordered_map \<Rightarrow> ('k, 'v) ordered_map" where
  "om_retain keep m = m\<lparr>entries := filter (\<lambda>(k, v). keep k v) (entries m)\<rparr>"

definition om_try_clone :: "vec_alloc \<Rightarrow> ('k, 'v) ordered_map \<Rightarrow> unit + ('k, 'v) ordered_map" where
  "om_try_clone al m =
     (case grant_exact al (length (entries m)) of
        None \<Rightarrow> Err () | Some c \<Rightarrow> Ok \<lparr>entries = entries m, map_capacity = c\<rparr>)"

definition om_from_sorted_vec :: "('k \<times> 'v) list \<Rightarrow> usize \<Rightarrow> ('k, 'v) ordered_map" where
  "om_from_sorted_vec es c = \<lparr>entries = es, map_capacity = c\<rparr>"

section \<open>Ranges\<close>

datatype 'k bound = Included 'k | Excluded 'k | Unbounded

definition om_lower_bound :: "('k::linorder, 'v) ordered_map \<Rightarrow> 'k \<Rightarrow> usize" where
  "om_lower_bound m key = partition_point (\<lambda>e. fst e < key) (entries m)"

definition om_upper_bound :: "('k::linorder, 'v) ordered_map \<Rightarrow> 'k \<Rightarrow> usize" where
  "om_upper_bound m key = partition_point (\<lambda>e. fst e \<le> key) (entries m)"

definition om_bounds_to_indices ::
  "('k::linorder, 'v) ordered_map \<Rightarrow> 'k bound \<Rightarrow> 'k bound \<Rightarrow> usize \<times> usize" where
  "om_bounds_to_indices m s e =
     (let lo = (case s of Unbounded \<Rightarrow> 0 | Included k \<Rightarrow> om_lower_bound m k | Excluded k \<Rightarrow> om_upper_bound m k);
          hi = (case e of Unbounded \<Rightarrow> length (entries m) | Included k \<Rightarrow> om_upper_bound m k
                | Excluded k \<Rightarrow> om_lower_bound m k)
      in if hi < lo then (lo, lo) else (lo, hi))"

definition om_range :: "('k::linorder, 'v) ordered_map \<Rightarrow> 'k bound \<Rightarrow> 'k bound \<Rightarrow> ('k \<times> 'v) list" where
  "om_range m s e = (let (lo, hi) = om_bounds_to_indices m s e in take (hi - lo) (drop lo (entries m)))"

text \<open>Writes through \<open>range_mut\<close>: a function of key and value on the slice.\<close>

definition om_range_mut ::
  "('k::linorder, 'v) ordered_map \<Rightarrow> 'k bound \<Rightarrow> 'k bound \<Rightarrow> ('k \<Rightarrow> 'v \<Rightarrow> 'v) \<Rightarrow> ('k, 'v) ordered_map" where
  "om_range_mut m s e f =
     (let (lo, hi) = om_bounds_to_indices m s e in
      m\<lparr>entries := take lo (entries m) @ map (\<lambda>(k, v). (k, f k v)) (take (hi - lo) (drop lo (entries m))) @
          drop hi (entries m)\<rparr>)"

section \<open>Invariant and abstraction\<close>

definition om_sorted :: "('k::linorder \<times> 'v) list \<Rightarrow> bool" where
  "om_sorted es \<longleftrightarrow> sorted_wrt (<) (map fst es)"

definition om_wf :: "('k::linorder, 'v) ordered_map \<Rightarrow> bool" where
  "om_wf m \<longleftrightarrow> om_sorted (entries m) \<and> length (entries m) \<le> map_capacity m"

definition om_abs :: "('k, 'v) ordered_map \<Rightarrow> 'k \<rightharpoonup> 'v" where
  "om_abs m = map_of (entries m)"

lemma om_sorted_nth:
  "om_sorted es \<Longrightarrow> i < j \<Longrightarrow> j < length es \<Longrightarrow> fst (es ! i) < fst (es ! j)"
  by (auto simp: om_sorted_def sorted_wrt_map dest: sorted_wrt_nth_less)

lemma om_sorted_distinct: "om_sorted es \<Longrightarrow> distinct (map fst es)"
  by (simp add: om_sorted_def strict_sorted_iff)

lemma om_sorted_append:
  "om_sorted (xs @ ys) \<longleftrightarrow> om_sorted xs \<and> om_sorted ys \<and> (\<forall>x\<in>set xs. \<forall>y\<in>set ys. fst x < fst y)"
  by (auto simp: om_sorted_def sorted_wrt_append)

lemma om_sorted_Cons: "om_sorted (x # xs) \<longleftrightarrow> om_sorted xs \<and> (\<forall>y\<in>set xs. fst x < fst y)"
  by (auto simp: om_sorted_def)

lemma om_sorted_parts:
  assumes "om_sorted es"
  shows "om_sorted (take i es)" "om_sorted (drop i es)"
    "\<And>x y. x \<in> set (take i es) \<Longrightarrow> y \<in> set (drop i es) \<Longrightarrow> fst x < fst y"
  using assms om_sorted_append [of "take i es" "drop i es"] by auto

lemma om_sorted_filter: "om_sorted es \<Longrightarrow> om_sorted (filter p es)"
  by (simp add: om_sorted_def sorted_wrt_map sorted_wrt_filter)

lemma om_sorted_values: "map fst es' = map fst es \<Longrightarrow> om_sorted es' = om_sorted es"
  by (simp add: om_sorted_def)

lemma om_probe:
  assumes "om_sorted es"
  shows "probe_ordered (\<lambda>i. cmp (fst (es ! i)) key) (length es)"
  using om_sorted_nth [OF assms]
  by (fastforce simp: probe_ordered_def)

lemma om_find_cases:
  assumes "om_sorted (entries m)"
  obtains (found) i where "om_find m key = Ok i" "i < length (entries m)" "fst (entries m ! i) = key"
      "om_abs m key = Some (snd (entries m ! i))"
  | (absent) i where "om_find m key = Err i" "i \<le> length (entries m)"
      "\<forall>x\<in>set (take i (entries m)). fst x < key" "\<forall>x\<in>set (drop i (entries m)). key < fst x"
      "om_abs m key = None"
proof (cases "om_find m key")
  case (Inr i)
  with binary_search_spec [OF om_probe [OF assms, of key]]
  have i: "i < length (entries m)" "fst (entries m ! i) = key"
    by (simp_all add: om_find_def)
  then have "(key, snd (entries m ! i)) \<in> set (entries m)" by (metis nth_mem prod.collapse)
  with om_sorted_distinct [OF assms] have "om_abs m key = Some (snd (entries m ! i))"
    by (simp add: om_abs_def)
  with i Inr show ?thesis by (intro found)
next
  case (Inl i)
  with binary_search_spec [OF om_probe [OF assms, of key]]
  have i: "i \<le> length (entries m)" "\<forall>j<i. fst (entries m ! j) < key"
    "\<forall>j. i \<le> j \<longrightarrow> j < length (entries m) \<longrightarrow> key < fst (entries m ! j)"
    by (simp_all add: om_find_def)
  have t: "\<forall>x\<in>set (take i (entries m)). fst x < key"
  proof
    fix x assume "x \<in> set (take i (entries m))"
    then obtain j where "j < i" "entries m ! j = x" by (auto simp: in_set_conv_nth)
    then show "fst x < key" using i(2) by blast
  qed
  moreover have d: "\<forall>x\<in>set (drop i (entries m)). key < fst x"
  proof
    fix x assume "x \<in> set (drop i (entries m))"
    then obtain j where j: "j < length (drop i (entries m))" "drop i (entries m) ! j = x"
      unfolding in_set_conv_nth by blast
    then have "i + j < length (entries m)" "entries m ! (i + j) = x" using i(1) by simp_all
    then show "key < fst x" using i(3) le_add1 by blast
  qed
  moreover have "key \<notin> fst ` set (entries m)"
    using t d set_append [of "take i (entries m)" "drop i (entries m)"] by fastforce
  then have "om_abs m key = None" by (simp add: om_abs_def map_of_eq_None_iff)
  ultimately show ?thesis using Inl i(1) by (intro absent)
qed

lemma om_get_abs: "om_wf m \<Longrightarrow> om_get m key = om_abs m key"
  by (rule om_find_cases [of m key]) (auto simp: om_wf_def om_get_def)

lemma om_contains_abs: "om_wf m \<Longrightarrow> om_contains_key m key \<longleftrightarrow> om_abs m key \<noteq> None"
  by (rule om_find_cases [of m key]) (auto simp: om_wf_def om_contains_key_def)

lemma map_of_split: "map_of es = map_of (take i es) ++ map_of (drop i es)" if "distinct (map fst es)"
proof -
  have "map_of es = map_of (drop i es) ++ map_of (take i es)"
    by (metis append_take_drop_id map_of_append)
  moreover have "dom (map_of (take i es)) \<inter> dom (map_of (drop i es)) = {}"
    using that append_take_drop_id [of i es]
    by (metis distinct_append dom_map_of_conv_image_fst image_set map_append)
  ultimately show ?thesis by (simp add: map_add_comm)
qed

lemma insert_at_sorted:
  assumes "om_sorted es" "\<forall>x\<in>set (take i es). fst x < k" "\<forall>x\<in>set (drop i es). k < fst x"
  shows "om_sorted (insert_at i (k, v) es)" "map_of (insert_at i (k, v) es) = (map_of es)(k \<mapsto> v)"
proof -
  note p = om_sorted_parts [OF assms(1), where i = i]
  show s: "om_sorted (insert_at i (k, v) es)"
    using p assms(2,3) by (auto simp: insert_at_def om_sorted_append om_sorted_Cons)
  have "map_of (insert_at i (k, v) es) = (map_of (take i es) ++ map_of (drop i es))(k \<mapsto> v)"
  proof (rule ext)
    fix x
    have "map_of (take i es) k = None" "map_of (drop i es) k = None"
      using assms(2,3) by (fastforce simp: map_of_eq_None_iff)+
    moreover have "map_of (take i es) x = None \<or> map_of (drop i es) x = None"
    proof (rule ccontr)
      assume "\<not> ?thesis"
      then obtain a b where "(x, a) \<in> set (take i es)" "(x, b) \<in> set (drop i es)"
        by (auto dest: map_of_SomeD)
      from p(3) [OF this] show False by simp
    qed
    ultimately show "map_of (insert_at i (k, v) es) x = ((map_of (take i es) ++ map_of (drop i es))(k \<mapsto> v)) x"
      by (auto simp: insert_at_def map_add_def split: option.splits)
  qed
  then show "map_of (insert_at i (k, v) es) = (map_of es)(k \<mapsto> v)"
    using map_of_split [OF om_sorted_distinct [OF assms(1)], of i] by simp
qed

lemma map_of_remove:
  assumes "fst e \<notin> fst ` set (xs @ ys)"
  shows "map_of (xs @ ys) = (map_of (xs @ e # ys))(fst e := None)"
  using assms by (induction xs) (auto simp: fun_eq_iff map_of_eq_None_iff)

lemma remove_at_sorted:
  assumes s: "om_sorted es" and i: "i < length es"
  shows "om_sorted (remove_at i es)" "map_of (remove_at i es) = (map_of es)(fst (es ! i) := None)"
proof -
  have es: "es = take i es @ (es ! i) # drop (Suc i) es" using i by (simp add: id_take_nth_drop [symmetric])
  have "om_sorted (take i es @ (es ! i) # drop (Suc i) es)" using s es by simp
  then show "om_sorted (remove_at i es)"
    by (auto simp: remove_at_def om_sorted_append om_sorted_Cons)
  have no: "fst (es ! i) \<notin> fst ` set (take i es @ drop (Suc i) es)"
    using \<open>om_sorted (take i es @ (es ! i) # drop (Suc i) es)\<close>
    by (fastforce simp: om_sorted_append om_sorted_Cons)+
  have "map_of es = map_of (take i es @ (es ! i) # drop (Suc i) es)" using es by simp
  with map_of_remove [OF no] show "map_of (remove_at i es) = (map_of es)(fst (es ! i) := None)"
    by (simp only: remove_at_def)
qed

lemma update_value_sorted:
  assumes s: "om_sorted es" and i: "i < length es"
  shows "om_sorted (es[i := (fst (es ! i), v)])"
    "map_of (es[i := (fst (es ! i), v)]) = (map_of es)(fst (es ! i) \<mapsto> v)"
proof -
  have keys: "map fst (es[i := (fst (es ! i), v)]) = map fst es"
    using i by (simp add: map_update list_update_same_conv)
  then show s': "om_sorted (es[i := (fst (es ! i), v)])" using s om_sorted_values by blast
  have "map_of (es[i := (fst (es ! i), v)]) k = ((map_of es)(fst (es ! i) \<mapsto> v)) k" for k
  proof (cases "k = fst (es ! i)")
    case True
    then have "(k, v) \<in> set (es[i := (fst (es ! i), v)])" using i by (simp add: set_update_memI)
    with True om_sorted_distinct [OF s'] show ?thesis by simp
  next
    case False
    have "(k, x) \<in> set (es[i := (fst (es ! i), v)]) \<longleftrightarrow> (k, x) \<in> set es" for x
      using False i by (auto simp: in_set_conv_nth nth_list_update split: if_splits) (metis fst_conv)+
    then have "map_of (es[i := (fst (es ! i), v)]) k = Some x \<longleftrightarrow> map_of es k = Some x" for x
      using om_sorted_distinct [OF s] om_sorted_distinct [OF s'] by simp
    with False show ?thesis by (metis fun_upd_other not_None_eq)
  qed
  then show "map_of (es[i := (fst (es ! i), v)]) = (map_of es)(fst (es ! i) \<mapsto> v)" by blast
qed

section \<open>Operations\<close>

definition allocs_ok :: "vec_alloc \<Rightarrow> bool" where
  "allocs_ok al \<longleftrightarrow>
     (\<forall>n c. grant_amortized al n = Some c \<longrightarrow> n \<le> c) \<and> (\<forall>n c. grant_exact al n = Some c \<longrightarrow> n \<le> c)"

lemma vec_reserve_ok:
  assumes "vec_reserve g additional m = Ok m'" "\<And>n c. g n = Some c \<Longrightarrow> n \<le> c"
  shows "entries m' = entries m" "length (entries m) + additional \<le> map_capacity m'"
  using assms
  by (auto simp: vec_reserve_def checked split: if_splits option.splits)

lemma om_reserve_ok:
  assumes "om_wf m" "allocs_ok al"
    and "om_try_reserve al n m = Ok m' \<or> om_try_reserve_exact al n m = Ok m'"
  shows "om_wf m'" "om_abs m' = om_abs m" "entries m' = entries m" "length (entries m) + n \<le> map_capacity m'"
proof -
  show e: "entries m' = entries m" and c: "length (entries m) + n \<le> map_capacity m'"
    using assms(2,3) vec_reserve_ok [of _ n m m']
    by (auto simp: om_try_reserve_def om_try_reserve_exact_def allocs_ok_def)
  show "om_wf m'" "om_abs m' = om_abs m" using assms(1) e c by (simp_all add: om_wf_def om_abs_def)
qed

lemma insert_at_length: "length (insert_at i x xs) = Suc (length xs)"
  by (simp add: insert_at_def min_def)

lemma remove_at_length: "i < length xs \<Longrightarrow> length (remove_at i xs) = length xs - 1"
  by (simp add: remove_at_def)

lemma om_try_insert_ok:
  assumes wf: "om_wf m" and al: "allocs_ok al" and ins: "om_try_insert al key v m = (m', r)"
  shows "om_wf m' \<and>
    (case r of Inl _ \<Rightarrow> m' = m \<and> om_abs m key = None
     | Inr old \<Rightarrow> old = om_abs m key \<and> om_abs m' = (om_abs m)(key \<mapsto> v))"
proof -
  have s: "om_sorted (entries m)" using wf by (simp add: om_wf_def)
  show ?thesis
  proof (rule om_find_cases [OF s, of key])
    fix i assume i: "om_find m key = Ok i" "i < length (entries m)" "fst (entries m ! i) = key"
      "om_abs m key = Some (snd (entries m ! i))"
    from update_value_sorted [OF s i(2), of v] i wf ins show ?thesis
      by (auto simp: om_try_insert_def om_wf_def om_abs_def)
  next
    fix i assume i: "om_find m key = Err i" "i \<le> length (entries m)"
      "\<forall>x\<in>set (take i (entries m)). fst x < key" "\<forall>x\<in>set (drop i (entries m)). key < fst x"
      "om_abs m key = None"
    show ?thesis
    proof (cases "om_try_reserve al 1 m")
      case (Inl e)
      with i ins wf show ?thesis by (auto simp: om_try_insert_def)
    next
      case (Inr m1)
      note r = om_reserve_ok [OF wf al, of 1 m1]
      from insert_at_sorted [OF s i(3,4), of v] r Inr i ins show ?thesis
        by (auto simp: om_try_insert_def om_wf_def om_abs_def insert_at_length)
    qed
  qed
qed

lemma om_insert_unique_ok:
  assumes wf: "om_wf m" and ins: "om_insert_unique_reserved key v m = (m', r)"
  shows "om_wf m' \<and> map_capacity m' = map_capacity m \<and>
    (if om_abs m key = None \<and> length (entries m) < map_capacity m
     then r = Ok () \<and> om_abs m' = (om_abs m)(key \<mapsto> v) else r = Err (key, v) \<and> m' = m)"
proof -
  have s: "om_sorted (entries m)" and le: "length (entries m) \<le> map_capacity m"
    using wf by (simp_all add: om_wf_def)
  show ?thesis
  proof (rule om_find_cases [OF s, of key])
    fix i assume "om_find m key = Ok i" "om_abs m key = Some (snd (entries m ! i))"
    then show ?thesis using ins wf by (auto simp: om_insert_unique_reserved_def)
  next
    fix i assume i: "om_find m key = Err i" "i \<le> length (entries m)"
      "\<forall>x\<in>set (take i (entries m)). fst x < key" "\<forall>x\<in>set (drop i (entries m)). key < fst x"
      "om_abs m key = None"
    from insert_at_sorted [OF s i(3,4), of v] i ins wf le show ?thesis
      by (auto simp: om_insert_unique_reserved_def om_wf_def om_abs_def insert_at_length split: if_splits)
  qed
qed

lemma om_remove_ok:
  assumes wf: "om_wf m"
  shows "snd (om_remove key m) = om_abs m key" "om_wf (fst (om_remove key m))"
    "om_abs (fst (om_remove key m)) = (om_abs m)(key := None)"
    "snd (om_remove_entry key m) = map_option (Pair key) (om_abs m key)"
    "fst (om_remove_entry key m) = fst (om_remove key m)"
    "map_capacity (fst (om_remove key m)) = map_capacity m"
proof -
  have s: "om_sorted (entries m)" using wf by (simp add: om_wf_def)
  have "snd (om_remove key m) = om_abs m key \<and> om_wf (fst (om_remove key m)) \<and>
    om_abs (fst (om_remove key m)) = (om_abs m)(key := None) \<and>
    snd (om_remove_entry key m) = map_option (Pair key) (om_abs m key) \<and>
    fst (om_remove_entry key m) = fst (om_remove key m) \<and>
    map_capacity (fst (om_remove key m)) = map_capacity m"
  proof (rule om_find_cases [OF s, of key])
    fix i assume i: "om_find m key = Ok i" "i < length (entries m)" "fst (entries m ! i) = key"
      "om_abs m key = Some (snd (entries m ! i))"
    then have "entries m ! i = (key, snd (entries m ! i))" by (metis prod.collapse)
    with remove_at_sorted [OF s i(2)] i wf show ?thesis
      by (auto simp: om_remove_def om_remove_entry_def om_wf_def om_abs_def remove_at_length)
  next
    fix i assume "om_find m key = Err i" "om_abs m key = None"
    with wf show ?thesis by (auto simp: om_remove_def om_remove_entry_def)
  qed
  then show "snd (om_remove key m) = om_abs m key" "om_wf (fst (om_remove key m))"
    "om_abs (fst (om_remove key m)) = (om_abs m)(key := None)"
    "snd (om_remove_entry key m) = map_option (Pair key) (om_abs m key)"
    "fst (om_remove_entry key m) = fst (om_remove key m)"
    "map_capacity (fst (om_remove key m)) = map_capacity m" by blast+
qed

lemma map_of_filter_keep:
  assumes "distinct (map fst es)"
  shows "map_of (filter (\<lambda>(k, v). keep k v) es) k =
    (case map_of es k of None \<Rightarrow> None | Some v \<Rightarrow> if keep k v then Some v else None)"
  using assms
proof (induction es)
  case (Cons e es)
  then have "map_of es (fst e) = None" by (simp add: map_of_eq_None_iff)
  with Cons show ?case by (cases e) (auto split: option.splits)
qed simp

lemma om_retain_ok:
  assumes wf: "om_wf m"
  shows "om_wf (om_retain keep m)"
    "om_abs (om_retain keep m) = (\<lambda>k. case om_abs m k of None \<Rightarrow> None | Some v \<Rightarrow> if keep k v then Some v else None)"
proof -
  have s: "om_sorted (entries m)" and le: "length (entries m) \<le> map_capacity m"
    using wf by (simp_all add: om_wf_def)
  show "om_wf (om_retain keep m)"
    using s order_trans [OF length_filter_le le] by (simp add: om_wf_def om_retain_def om_sorted_filter)
  show "om_abs (om_retain keep m) =
      (\<lambda>k. case om_abs m k of None \<Rightarrow> None | Some v \<Rightarrow> if keep k v then Some v else None)"
    by (intro ext) (simp add: om_abs_def om_retain_def map_of_filter_keep [OF om_sorted_distinct [OF s]])
qed

lemma om_get_mut_ok:
  assumes wf: "om_wf m"
  shows "om_wf (om_get_mut m key f)"
    "om_abs (om_get_mut m key f) = (case om_abs m key of None \<Rightarrow> om_abs m | Some v \<Rightarrow> (om_abs m)(key \<mapsto> f v))"
proof -
  have s: "om_sorted (entries m)" using wf by (simp add: om_wf_def)
  have "om_wf (om_get_mut m key f) \<and> om_abs (om_get_mut m key f) =
      (case om_abs m key of None \<Rightarrow> om_abs m | Some v \<Rightarrow> (om_abs m)(key \<mapsto> f v))"
  proof (rule om_find_cases [OF s, of key])
    fix i assume i: "om_find m key = Ok i" "i < length (entries m)" "fst (entries m ! i) = key"
      "om_abs m key = Some (snd (entries m ! i))"
    with update_value_sorted [OF s i(2), of "f (snd (entries m ! i))"] wf show ?thesis
      by (simp add: om_get_mut_def om_wf_def om_abs_def)
  qed (use wf in \<open>simp add: om_get_mut_def\<close>)
  then show "om_wf (om_get_mut m key f)"
    "om_abs (om_get_mut m key f) = (case om_abs m key of None \<Rightarrow> om_abs m | Some v \<Rightarrow> (om_abs m)(key \<mapsto> f v))"
    by simp_all
qed

section \<open>Range queries\<close>

fun above :: "'k::linorder bound \<Rightarrow> 'k \<Rightarrow> bool" where
  "above (Included a) k \<longleftrightarrow> a \<le> k"
| "above (Excluded a) k \<longleftrightarrow> a < k"
| "above Unbounded k \<longleftrightarrow> True"

fun below :: "'k::linorder bound \<Rightarrow> 'k \<Rightarrow> bool" where
  "below (Included b) k \<longleftrightarrow> k \<le> b"
| "below (Excluded b) k \<longleftrightarrow> k < b"
| "below Unbounded k \<longleftrightarrow> True"

lemma slice_split:
  assumes "lo \<le> hi" "hi \<le> length es"
  shows "es = take lo es @ take (hi - lo) (drop lo es) @ drop hi es"
  using assms append_take_drop_id [of "hi - lo" "drop lo es"] by (simp add: append_assoc [symmetric])

lemma filter_slice:
  assumes "lo \<le> hi" "hi \<le> length es" "\<And>j. j < length es \<Longrightarrow> P (es ! j) \<longleftrightarrow> lo \<le> j \<and> j < hi"
  shows "filter P es = take (hi - lo) (drop lo es)"
proof -
  have 1: "filter P (take lo es) = []" using assms by (auto simp: filter_empty_conv in_set_conv_nth)
  have 2: "filter P (take (hi - lo) (drop lo es)) = take (hi - lo) (drop lo es)"
    using assms by (auto simp: filter_id_conv in_set_conv_nth)
  have 3: "filter P (drop hi es) = []" using assms by (auto simp: filter_empty_conv in_set_conv_nth)
  have "filter P es = filter P (take lo es @ take (hi - lo) (drop lo es) @ drop hi es)"
    using slice_split [OF assms(1,2)] by (rule arg_cong)
  then show ?thesis by (simp only: filter_append 1 2 3 append_Nil append_Nil2)
qed

lemma map_slice:
  assumes "lo \<le> hi" "hi \<le> length es" "\<And>j. j < length es \<Longrightarrow> P (es ! j) \<longleftrightarrow> lo \<le> j \<and> j < hi"
  shows "map (\<lambda>x. if P x then g x else x) es = take lo es @ map g (take (hi - lo) (drop lo es)) @ drop hi es"
    (is "map ?g es = _")
proof -
  have 1: "map ?g (take lo es) = take lo es" using assms by (auto intro!: map_idI simp: in_set_conv_nth)
  have 2: "map ?g (take (hi - lo) (drop lo es)) = map g (take (hi - lo) (drop lo es))"
    using assms by (auto simp: in_set_conv_nth)
  have 3: "map ?g (drop hi es) = drop hi es" using assms by (auto intro!: map_idI simp: in_set_conv_nth)
  have "map ?g es = map ?g (take lo es @ take (hi - lo) (drop lo es) @ drop hi es)"
    using slice_split [OF assms(1,2)] by (rule arg_cong)
  then show ?thesis by (simp only: map_append 1 2 3)
qed

lemma partition_point_nth:
  assumes "\<And>i j. i < j \<Longrightarrow> j < length xs \<Longrightarrow> p (xs ! j) \<Longrightarrow> p (xs ! i)"
  shows "partition_point p xs \<le> length xs" "\<And>j. j < partition_point p xs \<Longrightarrow> p (xs ! j)"
    "\<And>j. partition_point p xs \<le> j \<Longrightarrow> j < length xs \<Longrightarrow> \<not> p (xs ! j)"
proof -
  let ?f = "\<lambda>i. if p (xs ! i) then Less else Greater"
  have "probe_ordered ?f (length xs)" using assms by (auto simp: probe_ordered_def)
  from binary_search_spec [OF this]
  have "partition_point p xs \<le> length xs \<and> (\<forall>j<partition_point p xs. p (xs ! j)) \<and>
    (\<forall>j. partition_point p xs \<le> j \<longrightarrow> j < length xs \<longrightarrow> \<not> p (xs ! j))"
    by (auto simp: partition_point_def split: sum.splits if_splits)
  then show "partition_point p xs \<le> length xs" "\<And>j. j < partition_point p xs \<Longrightarrow> p (xs ! j)"
    "\<And>j. partition_point p xs \<le> j \<Longrightarrow> j < length xs \<Longrightarrow> \<not> p (xs ! j)" by auto
qed

lemma om_bounds_nth:
  assumes s: "om_sorted (entries m)"
  shows "om_lower_bound m k \<le> length (entries m)" "om_upper_bound m k \<le> length (entries m)"
    "\<And>j. j < om_lower_bound m k \<Longrightarrow> fst (entries m ! j) < k"
    "\<And>j. om_lower_bound m k \<le> j \<Longrightarrow> j < length (entries m) \<Longrightarrow> \<not> fst (entries m ! j) < k"
    "\<And>j. j < om_upper_bound m k \<Longrightarrow> fst (entries m ! j) \<le> k"
    "\<And>j. om_upper_bound m k \<le> j \<Longrightarrow> j < length (entries m) \<Longrightarrow> \<not> fst (entries m ! j) \<le> k"
proof -
  have lt: "fst (entries m ! i) < k" if "i < j" "j < length (entries m)" "fst (entries m ! j) < k" for i j
    using om_sorted_nth [OF s that(1,2)] that(3) by (rule less_trans)
  have le: "fst (entries m ! i) \<le> k" if "i < j" "j < length (entries m)" "fst (entries m ! j) \<le> k" for i j
    using om_sorted_nth [OF s that(1,2)] that(3) by (rule order_less_le_trans [THEN less_imp_le])
  note L = partition_point_nth [of "entries m" "\<lambda>x. fst x < k", OF lt, simplified]
  note U = partition_point_nth [of "entries m" "\<lambda>x. fst x \<le> k", OF le, simplified]
  show "om_lower_bound m k \<le> length (entries m)" "om_upper_bound m k \<le> length (entries m)"
    "\<And>j. j < om_lower_bound m k \<Longrightarrow> fst (entries m ! j) < k"
    "\<And>j. om_lower_bound m k \<le> j \<Longrightarrow> j < length (entries m) \<Longrightarrow> \<not> fst (entries m ! j) < k"
    "\<And>j. j < om_upper_bound m k \<Longrightarrow> fst (entries m ! j) \<le> k"
    "\<And>j. om_upper_bound m k \<le> j \<Longrightarrow> j < length (entries m) \<Longrightarrow> \<not> fst (entries m ! j) \<le> k"
    using L U by (auto simp: om_lower_bound_def om_upper_bound_def not_less not_le)
qed

lemma om_indices:
  assumes sorted: "om_sorted (entries m)" and lh: "om_bounds_to_indices m s e = (lo, hi)"
  shows "lo \<le> hi" "hi \<le> length (entries m)"
    "\<And>j. j < length (entries m) \<Longrightarrow>
       above s (fst (entries m ! j)) \<and> below e (fst (entries m ! j)) \<longleftrightarrow> lo \<le> j \<and> j < hi"
proof -
  let ?es = "entries m"
  define l where "l = (case s of Unbounded \<Rightarrow> 0 | Included k \<Rightarrow> om_lower_bound m k | Excluded k \<Rightarrow> om_upper_bound m k)"
  define h where "h = (case e of Unbounded \<Rightarrow> length ?es | Included k \<Rightarrow> om_upper_bound m k
                | Excluded k \<Rightarrow> om_lower_bound m k)"
  note b = om_bounds_nth [OF sorted]
  have l: "l \<le> length ?es" by (cases s) (simp_all add: l_def b(1,2))
  have h: "h \<le> length ?es" by (cases e) (simp_all add: h_def b(1,2))
  have out: "\<not> above s (fst (?es ! j))" if "j < l" for j
    using that by (cases s) (auto simp: l_def not_le not_less dest: b(3,5))
  have inn: "above s (fst (?es ! j))" if "l \<le> j" "j < length ?es" for j
    using that by (cases s) (auto simp: l_def dest: b(4,6))
  have inn': "below e (fst (?es ! j))" if "j < h" "j < length ?es" for j
    using that by (cases e) (auto simp: h_def dest: b(3,5))
  have out': "\<not> below e (fst (?es ! j))" if "h \<le> j" "j < length ?es" for j
    using that by (cases e) (auto simp: h_def dest: b(4,6))
  have lh': "lo = l \<and> hi = (if h < l then l else h)"
    using lh by (auto simp: om_bounds_to_indices_def Let_def l_def h_def split: if_splits)
  show "lo \<le> hi" "hi \<le> length ?es" using lh' l h by auto
  have "above s (fst (?es ! j)) \<longleftrightarrow> l \<le> j" "below e (fst (?es ! j)) \<longleftrightarrow> j < h" if "j < length ?es" for j
    using out inn [OF _ that] inn' [OF _ that] out' [OF _ that] not_le by blast+
  then show "above s (fst (?es ! j)) \<and> below e (fst (?es ! j)) \<longleftrightarrow> lo \<le> j \<and> j < hi" if "j < length ?es" for j
    using that lh' by auto
qed

lemma om_range_filter:
  assumes "om_wf m"
  shows "om_range m s e = filter (\<lambda>x. above s (fst x) \<and> below e (fst x)) (entries m)"
proof -
  obtain lo hi where lh: "om_bounds_to_indices m s e = (lo, hi)" by fastforce
  have sorted: "om_sorted (entries m)" using assms by (simp add: om_wf_def)
  show ?thesis
    using filter_slice [of lo hi "entries m" "\<lambda>x. above s (fst x) \<and> below e (fst x)", OF om_indices [OF sorted lh]]
    by (simp add: om_range_def lh)
qed

lemma om_range_mut_map:
  assumes "om_wf m"
  shows "om_range_mut m s e f = m\<lparr>entries := map (\<lambda>x. if above s (fst x) \<and> below e (fst x)
      then (case x of (k, v) \<Rightarrow> (k, f k v)) else x) (entries m)\<rparr>"
proof -
  obtain lo hi where lh: "om_bounds_to_indices m s e = (lo, hi)" by fastforce
  have sorted: "om_sorted (entries m)" using assms by (simp add: om_wf_def)
  show ?thesis
    using map_slice [of lo hi "entries m" "\<lambda>x. above s (fst x) \<and> below e (fst x)" "\<lambda>(k, v). (k, f k v)",
        OF om_indices [OF sorted lh]]
    by (simp add: om_range_mut_def lh)
qed

lemma map_of_map_if:
  "map_of (map (\<lambda>x. if P (fst x) then (case x of (k, v) \<Rightarrow> (k, f k v)) else x) es) k =
     (if P k then map_option (f k) (map_of es k) else map_of es k)"
  by (induction es) auto

lemma om_range_mut_ok:
  assumes wf: "om_wf m"
  shows "om_wf (om_range_mut m s e f)"
    "om_abs (om_range_mut m s e f) =
       (\<lambda>k. if above s k \<and> below e k then map_option (f k) (om_abs m k) else om_abs m k)"
proof -
  have keys: "map fst (map (\<lambda>x. if above s (fst x) \<and> below e (fst x)
      then (case x of (k, v) \<Rightarrow> (k, f k v)) else x) (entries m)) = map fst (entries m)"
    by (auto split: prod.splits)
  show "om_wf (om_range_mut m s e f)"
    using wf om_sorted_values [OF keys] by (simp add: om_range_mut_map om_wf_def)
  show "om_abs (om_range_mut m s e f) =
      (\<lambda>k. if above s k \<and> below e k then map_option (f k) (om_abs m k) else om_abs m k)"
    by (simp add: om_range_mut_map [OF wf] om_abs_def fun_eq_iff
        map_of_map_if [where P = "\<lambda>k. above s k \<and> below e k"])
qed

section \<open>Refinement of the finite map\<close>

text \<open>The calls a client makes, the code's answer to each, and the abstract transition the finite
  map makes with that answer.\<close>

datatype ('k, 'v) om_call =
    Call_Insert 'k 'v
  | Call_InsertUnique 'k 'v
  | Call_Remove 'k
  | Call_RemoveEntry 'k
  | Call_Update 'k "'v \<Rightarrow> 'v"
  | Call_Get 'k
  | Call_Contains 'k
  | Call_Retain "'k \<Rightarrow> 'v \<Rightarrow> bool"
  | Call_Reserve usize
  | Call_ReserveExact usize
  | Call_ReplaceBacking usize
  | Call_Clear
  | Call_Range "'k bound" "'k bound"
  | Call_RangeMut "'k bound" "'k bound" "'k \<Rightarrow> 'v \<Rightarrow> 'v"

datatype ('k, 'v) om_reply =
    Reply_Alloc_Error
  | Reply_Done
  | Reply_Returned 'k 'v
  | Reply_Value "'v option"
  | Reply_Entry "('k \<times> 'v) option"
  | Reply_Bool bool
  | Reply_Entries "('k \<times> 'v) list"

fun om_exec ::
  "vec_alloc \<Rightarrow> ('k::linorder, 'v) om_call \<Rightarrow> ('k, 'v) ordered_map \<Rightarrow> ('k, 'v) ordered_map \<times> ('k, 'v) om_reply"
where
  "om_exec al (Call_Insert k v) m =
     (case om_try_insert al k v m of (m', Inl _) \<Rightarrow> (m', Reply_Alloc_Error) | (m', Inr old) \<Rightarrow> (m', Reply_Value old))"
| "om_exec al (Call_InsertUnique k v) m =
     (case om_insert_unique_reserved k v m of
        (m', Inl (k', v')) \<Rightarrow> (m', Reply_Returned k' v') | (m', Inr _) \<Rightarrow> (m', Reply_Done))"
| "om_exec al (Call_Remove k) m = (case om_remove k m of (m', old) \<Rightarrow> (m', Reply_Value old))"
| "om_exec al (Call_RemoveEntry k) m = (case om_remove_entry k m of (m', old) \<Rightarrow> (m', Reply_Entry old))"
| "om_exec al (Call_Update k f) m = (om_get_mut m k f, Reply_Done)"
| "om_exec al (Call_Get k) m = (m, Reply_Value (om_get m k))"
| "om_exec al (Call_Contains k) m = (m, Reply_Bool (om_contains_key m k))"
| "om_exec al (Call_Retain keep) m = (om_retain keep m, Reply_Done)"
| "om_exec al (Call_Reserve n) m =
     (case om_try_reserve al n m of Inl _ \<Rightarrow> (m, Reply_Alloc_Error) | Inr m' \<Rightarrow> (m', Reply_Done))"
| "om_exec al (Call_ReserveExact n) m =
     (case om_try_reserve_exact al n m of Inl _ \<Rightarrow> (m, Reply_Alloc_Error) | Inr m' \<Rightarrow> (m', Reply_Done))"
| "om_exec al (Call_ReplaceBacking n) m =
     (case om_try_prepare_backing_exact al n of
        Inl _ \<Rightarrow> (m, Reply_Alloc_Error)
      | Inr c \<Rightarrow> (case om_replace_backing c m of (m', Inl _) \<Rightarrow> (m', Reply_Alloc_Error) | (m', Inr _) \<Rightarrow> (m', Reply_Done)))"
| "om_exec al Call_Clear m = (om_clear m, Reply_Done)"
| "om_exec al (Call_Range s e) m = (m, Reply_Entries (om_range m s e))"
| "om_exec al (Call_RangeMut s e f) m = (om_range_mut m s e f, Reply_Done)"

fun map_step ::
  "('k::linorder, 'v) om_call \<Rightarrow> ('k \<rightharpoonup> 'v) \<Rightarrow> ('k, 'v) om_reply \<Rightarrow> ('k \<rightharpoonup> 'v) \<Rightarrow> bool" where
  "map_step (Call_Insert k v) M r M' \<longleftrightarrow>
     r = Reply_Value (M k) \<and> M' = M(k \<mapsto> v) \<or> r = Reply_Alloc_Error \<and> M k = None \<and> M' = M"
| "map_step (Call_InsertUnique k v) M r M' \<longleftrightarrow>
     r = Reply_Done \<and> M k = None \<and> M' = M(k \<mapsto> v) \<or> r = Reply_Returned k v \<and> M' = M"
| "map_step (Call_Remove k) M r M' \<longleftrightarrow> r = Reply_Value (M k) \<and> M' = M(k := None)"
| "map_step (Call_RemoveEntry k) M r M' \<longleftrightarrow> r = Reply_Entry (map_option (Pair k) (M k)) \<and> M' = M(k := None)"
| "map_step (Call_Update k f) M r M' \<longleftrightarrow> r = Reply_Done \<and> M' = M(k := map_option f (M k))"
| "map_step (Call_Get k) M r M' \<longleftrightarrow> r = Reply_Value (M k) \<and> M' = M"
| "map_step (Call_Contains k) M r M' \<longleftrightarrow> r = Reply_Bool (M k \<noteq> None) \<and> M' = M"
| "map_step (Call_Retain keep) M r M' \<longleftrightarrow>
     r = Reply_Done \<and> M' = (\<lambda>k. Option.bind (M k) (\<lambda>v. if keep k v then Some v else None))"
| "map_step (Call_Reserve n) M r M' \<longleftrightarrow> r \<in> {Reply_Done, Reply_Alloc_Error} \<and> M' = M"
| "map_step (Call_ReserveExact n) M r M' \<longleftrightarrow> r \<in> {Reply_Done, Reply_Alloc_Error} \<and> M' = M"
| "map_step (Call_ReplaceBacking n) M r M' \<longleftrightarrow> r \<in> {Reply_Done, Reply_Alloc_Error} \<and> M' = M"
| "map_step Call_Clear M r M' \<longleftrightarrow> r = Reply_Done \<and> M' = Map.empty"
| "map_step (Call_Range s e) M r M' \<longleftrightarrow> M' = M \<and>
     (\<exists>es. r = Reply_Entries es \<and> om_sorted es \<and>
       map_of es = (\<lambda>k. if above s k \<and> below e k then M k else None))"
| "map_step (Call_RangeMut s e f) M r M' \<longleftrightarrow>
     r = Reply_Done \<and> M' = (\<lambda>k. if above s k \<and> below e k then map_option (f k) (M k) else M k)"

fun om_trace ::
  "(vec_alloc \<times> ('k::linorder, 'v) om_call) list \<Rightarrow> ('k, 'v) ordered_map \<Rightarrow>
   ('k, 'v) ordered_map \<times> ('k, 'v) om_reply list" where
  "om_trace [] m = (m, [])"
| "om_trace ((al, c) # cs) m =
     (case om_exec al c m of (m1, r) \<Rightarrow> (case om_trace cs m1 of (m2, rs) \<Rightarrow> (m2, r # rs)))"

fun map_trace ::
  "('k::linorder, 'v) om_call list \<Rightarrow> ('k \<rightharpoonup> 'v) \<Rightarrow> ('k, 'v) om_reply list \<Rightarrow> ('k \<rightharpoonup> 'v) \<Rightarrow> bool" where
  "map_trace [] M rs M' \<longleftrightarrow> rs = [] \<and> M' = M"
| "map_trace (c # cs) M rs M' \<longleftrightarrow>
     (\<exists>r rs' M1. rs = r # rs' \<and> map_step c M r M1 \<and> map_trace cs M1 rs' M')"

lemma map_of_filter_key:
  "map_of (filter (\<lambda>x. P (fst x)) es) k = (if P k then map_of es k else None)"
  by (induction es) auto

lemma om_range_step:
  assumes "om_wf m"
  shows "om_sorted (om_range m s e) \<and>
    map_of (om_range m s e) = (\<lambda>k. if above s k \<and> below e k then om_abs m k else None)"
proof -
  have "om_sorted (entries m)" using assms by (simp add: om_wf_def)
  then show ?thesis
    by (simp add: om_range_filter [OF assms] om_sorted_filter om_abs_def fun_eq_iff
        map_of_filter_key [where P = "\<lambda>k. above s k \<and> below e k"])
qed

lemma om_replace_ok:
  assumes "om_wf m" "om_replace_backing c m = (m', r)"
  shows "om_wf m' \<and> om_abs m' = om_abs m \<and> entries m' = entries m"
  using assms
  by (auto simp: om_replace_backing_def om_replace_backing_deferred_def om_wf_def om_abs_def split: if_splits)

lemma om_exec_refines:
  assumes wf: "om_wf m" and al: "allocs_ok al"
  shows "om_wf (fst (om_exec al c m)) \<and> map_step c (om_abs m) (snd (om_exec al c m)) (om_abs (fst (om_exec al c m)))"
proof (cases c)
  case (Call_Insert k v)
  obtain m' r where "om_try_insert al k v m = (m', r)" by fastforce
  with om_try_insert_ok [OF wf al this] Call_Insert show ?thesis by (cases r) auto
next
  case (Call_InsertUnique k v)
  obtain m' r where "om_insert_unique_reserved k v m = (m', r)" by fastforce
  with om_insert_unique_ok [OF wf this] Call_InsertUnique show ?thesis by (cases r) (auto split: if_splits)
next
  case (Call_Remove k)
  with om_remove_ok [OF wf, of k] show ?thesis by (simp add: case_prod_beta)
next
  case (Call_RemoveEntry k)
  with om_remove_ok [OF wf, of k] show ?thesis by (simp add: case_prod_beta)
next
  case (Call_Update k f)
  with om_get_mut_ok [OF wf, of k f] show ?thesis by (auto simp: fun_upd_idem split: option.splits)
next
  case (Call_Retain keep)
  with om_retain_ok [OF wf, of keep] show ?thesis by (auto simp: fun_eq_iff split: option.splits)
next
  case (Call_Reserve n)
  with om_reserve_ok [OF wf al] wf show ?thesis by (cases "om_try_reserve al n m") auto
next
  case (Call_ReserveExact n)
  with om_reserve_ok [OF wf al] wf show ?thesis by (cases "om_try_reserve_exact al n m") auto
next
  case (Call_ReplaceBacking n)
  with om_replace_ok [OF wf] wf show ?thesis by (auto split: sum.splits prod.splits)
next
  case (Call_Range s e)
  with om_range_step [OF wf] wf show ?thesis by simp
next
  case (Call_RangeMut s e f)
  with om_range_mut_ok [OF wf] show ?thesis by simp
qed (use wf in \<open>auto simp: om_get_abs om_contains_abs om_clear_def om_wf_def om_abs_def om_sorted_def\<close>)

lemma om_trace_refines:
  assumes "om_wf m" "\<forall>(al, c) \<in> set cs. allocs_ok al"
  shows "case om_trace cs m of (m', rs) \<Rightarrow> om_wf m' \<and> map_trace (map snd cs) (om_abs m) rs (om_abs m')"
  using assms
proof (induction cs arbitrary: m)
  case (Cons ac cs)
  obtain al c where ac: "ac = (al, c)" by fastforce
  obtain m1 r where e: "om_exec al c m = (m1, r)" by fastforce
  have step: "om_wf m1" "map_step c (om_abs m) r (om_abs m1)"
    using om_exec_refines [OF Cons.prems(1), of al c] Cons.prems(2) e ac by auto
  from Cons.IH [OF step(1)] Cons.prems(2) step(2) show ?case
    by (auto simp: ac e split: prod.splits)
qed simp

lemma om_abs_new: "om_abs om_new = Map.empty"
  by (simp add: om_abs_def om_new_def)

lemma om_wf_new: "om_wf om_new"
  by (simp add: om_wf_def om_new_def om_sorted_def)

lemmas om_eval = om_new_def om_try_insert_def om_find_def om_try_reserve_def vec_reserve_def om_remove_def
  om_range_def om_bounds_to_indices_def om_lower_bound_def om_upper_bound_def partition_point_def
  binary_search_by_def bsearch_loop.simps cmp_def insert_at_def remove_at_def Let_def
  checked_add_usize_def usize_max_def

text \<open>C14: a \<open>FallibleOrderedMap\<close> used through any sequence of calls, each under its own allocator
  outcome (including one that refuses every growth), behaves as the finite map it denotes: every
  reply and every state change is a transition of the abstract map, an allocation failure or a
  rejected insertion leaves the map as it was, a range query (inverted ranges included) returns
  exactly the entries between its bounds in ascending key order, and the entries stay strictly
  ascending within the capacity.\<close>

theorem ordered_map_refines:
  assumes "\<forall>(al, c) \<in> set cs. allocs_ok al" "om_trace cs om_new = (m', rs)"
  shows "om_wf m' \<and> map_trace (map snd cs) Map.empty rs (om_abs m')"
  using om_trace_refines [OF om_wf_new assms(1)] assms(2) by (simp add: om_abs_new)

theorem ordered_map_refines_witness:
  "let al = \<lparr>grant_amortized = (\<lambda>n. if n \<le> 2 then Some (2 * n) else None), grant_exact = Some\<rparr>;
       cs = [(al, Call_Insert (20::nat) ''b''), (al, Call_Insert 10 ''a''), (al, Call_Insert 30 ''c''),
             (al, Call_Remove 20), (al, Call_Range (Included 5) (Excluded 20))];
       m' = fst (om_trace cs om_new); rs = snd (om_trace cs om_new)
   in rs = [Reply_Value None, Reply_Value None, Reply_Alloc_Error, Reply_Value (Some ''b''), Reply_Entries [(10, ''a'')]] \<and>
      om_wf m' \<and> map_trace (map snd cs) Map.empty rs (om_abs m')"
proof -
  define al where "al = \<lparr>grant_amortized = (\<lambda>n::nat. if n \<le> 2 then Some (2 * n) else None), grant_exact = Some\<rparr>"
  define cs where "cs = [(al, Call_Insert (20::nat) ''b''), (al, Call_Insert 10 ''a''), (al, Call_Insert 30 ''c''),
             (al, Call_Remove 20), (al, Call_Range (Included 5) (Excluded 20))]"
  have al: "\<forall>(al, c) \<in> set cs. allocs_ok al"
    by (auto simp: cs_def al_def allocs_ok_def split: if_splits)
  have "snd (om_trace cs om_new) =
      [Reply_Value None, Reply_Value None, Reply_Alloc_Error, Reply_Value (Some ''b''), Reply_Entries [(10, ''a'')]]"
    by (simp add: cs_def al_def om_eval)
  moreover have "om_wf (fst (om_trace cs om_new)) \<and>
      map_trace (map snd cs) Map.empty (snd (om_trace cs om_new)) (om_abs (fst (om_trace cs om_new)))"
    by (rule ordered_map_refines [OF al]) simp
  ultimately show ?thesis unfolding Let_def cs_def al_def by blast
qed

section \<open>Reserved capacity makes a batch of insertions total\<close>






end
