(* ===== verification/Admitted.thy ===== *)
theory Admitted
  imports HeapClient FallibleMap
begin

text \<open>
  The retained containers of \<^verbatim>\<open>kernel/mm/admitted.rs\<close>: detached preparation of backing under a
  rollback-armed reservation, and \<open>AdmittedVec\<close> and \<open>AdmittedDeque\<close> over it. A container is its
  elements in order, the capacity of its backing, its lifetime charge and its heap class; the
  heap ledger is the record of calls of \<open>HeapClient\<close>, and what the allocator grants for an exact
  request is a parameter. Element types have a non-zero size, as every instance in the kernel
  does. An operation returns the ledger state, the container and its result; a growth outside
  admission would be the outcome \<open>None\<close>.
\<close>

section \<open>Preparation\<close>

datatype admitted_alloc_error =
    Admission heap_admission_error
  | AllocationFailed
  | CapacityInvariant

definition growth_target :: "usize \<Rightarrow> usize \<Rightarrow> admitted_alloc_error + usize" where
  "growth_target current required =
     (if required \<le> current then Ok current
      else case checked_mul_usize (max current 4) 2 of
        None \<Rightarrow> Err (Admission ArithmeticOverflow)
      | Some doubled \<Rightarrow> Ok (max required doubled))"

record elem_layout =
  elem_size :: usize
  elem_align :: usize

definition charge_of :: "elem_layout \<Rightarrow> usize \<Rightarrow> heap_admission_error + usize" where
  "charge_of ly capacity = vec_charge_bytes (elem_size ly) (elem_align ly) capacity"

definition reserve_vec ::
  "'h heap_calls \<Rightarrow> elem_layout \<Rightarrow> heap_class \<Rightarrow> usize \<Rightarrow> 'h \<Rightarrow>
   ('h \<times> (admitted_alloc_error + heap_reservation)) option" where
  "reserve_vec hp ly cls capacity h =
     (case charge_of ly capacity of
        Inl e \<Rightarrow> Some (h, Err (Admission e))
      | Inr b \<Rightarrow> do {
          (h1, r) \<leftarrow> reserve_heap hp cls b h;
          Some (h1, case r of Inl e \<Rightarrow> Err (Admission e) | Inr x \<Rightarrow> Ok x) })"

record prepared_capacity =
  prep_capacity :: usize
  prep_reservation :: heap_reservation

record retired_capacity =
  ret_capacity :: usize
  ret_charge :: "heap_charge option"
  ret_class :: heap_class

text \<open>An early return drops the detached backing and then its reservation.\<close>

definition abandon ::
  "'h heap_calls \<Rightarrow> heap_reservation \<Rightarrow> 'e \<Rightarrow> 'h \<Rightarrow> ('h \<times> ('e + 'b)) option" where
  "abandon hp x e h = do { h1 \<leftarrow> drop_heap_reservation hp x h; Some (h1, Err e) }"

definition prepared_try_new ::
  "'h heap_calls \<Rightarrow> elem_layout \<Rightarrow> (usize \<Rightarrow> usize option) \<Rightarrow> heap_class \<Rightarrow> usize \<Rightarrow> 'h \<Rightarrow>
   ('h \<times> (admitted_alloc_error + prepared_capacity)) option" where
  "prepared_try_new hp ly g cls target h = do {
     (h1, r) \<leftarrow> reserve_vec hp ly cls target h;
     case r of
       Inl e \<Rightarrow> Some (h1, Err e)
     | Inr reservation \<Rightarrow>
         (case g target of
            None \<Rightarrow> abandon hp reservation AllocationFailed h1
          | Some granted \<Rightarrow>
              (case charge_of ly granted of
                 Inl e \<Rightarrow> abandon hp reservation (Admission e) h1
               | Inr actual \<Rightarrow> do {
                   (h2, reservation', res) \<leftarrow> resize_heap hp reservation actual h1;
                   case res of
                     Inl e \<Rightarrow> abandon hp reservation' (Admission e) h2
                   | Inr _ \<Rightarrow> Some (h2, Ok \<lparr>prep_capacity = granted, prep_reservation = reservation'\<rparr>) })) }"

definition drop_retired :: "'h heap_calls \<Rightarrow> retired_capacity \<Rightarrow> 'h \<Rightarrow> 'h option" where
  "drop_retired hp rt h = drop_charge_opt hp (ret_charge rt) h"

section \<open>\<open>AdmittedVec\<close>\<close>

record 'a admitted =
  av_values :: "'a list"
  av_capacity :: usize
  av_charge :: "heap_charge option"
  av_class :: heap_class

definition vec_new :: "heap_class \<Rightarrow> 'a admitted" where
  "vec_new cls = \<lparr>av_values = [], av_capacity = 0, av_charge = None, av_class = cls\<rparr>"

definition drop_admitted :: "'h heap_calls \<Rightarrow> 'a admitted \<Rightarrow> 'h \<Rightarrow> 'h option" where
  "drop_admitted hp a h = drop_charge_opt hp (av_charge a) h"

definition vec_get :: "'a admitted \<Rightarrow> usize \<Rightarrow> 'a option" where
  "vec_get a i = (if i < length (av_values a) then Some (av_values a ! i) else None)"

definition vec_get_mut :: "'a admitted \<Rightarrow> usize \<Rightarrow> ('a \<Rightarrow> 'a) \<Rightarrow> 'a admitted" where
  "vec_get_mut a i f =
     (if i < length (av_values a) then a\<lparr>av_values := (av_values a)[i := f (av_values a ! i)]\<rparr> else a)"

definition vec_try_adopt ::
  "'h heap_calls \<Rightarrow> elem_layout \<Rightarrow> 'a list \<Rightarrow> usize \<Rightarrow> heap_class \<Rightarrow> 'h \<Rightarrow>
   ('h \<times> (admitted_alloc_error + 'a admitted)) option" where
  "vec_try_adopt hp ly xs capacity cls h = do {
     (h1, r) \<leftarrow> reserve_vec hp ly cls capacity h;
     case r of
       Inl e \<Rightarrow> Some (h1, Err e)
     | Inr reservation \<Rightarrow> do {
         (h2, k) \<leftarrow> commit_heap hp reservation h1;
         Some (h2, case k of
             Inl e \<Rightarrow> Err (Admission e)
           | Inr c \<Rightarrow> Ok \<lparr>av_values = xs, av_capacity = capacity, av_charge = Some c, av_class = cls\<rparr>) } }"

definition vec_prepare_target ::
  "'h heap_calls \<Rightarrow> elem_layout \<Rightarrow> (usize \<Rightarrow> usize option) \<Rightarrow> 'a admitted \<Rightarrow> usize \<Rightarrow> 'h \<Rightarrow>
   ('h \<times> (admitted_alloc_error + prepared_capacity)) option" where
  "vec_prepare_target hp ly g a target h =
     (if target < length (av_values a) then Some (h, Err CapacityInvariant)
      else prepared_try_new hp ly g (av_class a) target h)"

definition wrap_some :: "'h \<times> ('e + 'b) \<Rightarrow> 'h \<times> ('e + 'b option)" where
  "wrap_some hr = (fst hr, case snd hr of Inl e \<Rightarrow> Err e | Inr p \<Rightarrow> Ok (Some p))"

definition vec_prepare_capacity_for ::
  "'h heap_calls \<Rightarrow> elem_layout \<Rightarrow> (usize \<Rightarrow> usize option) \<Rightarrow> 'a admitted \<Rightarrow> usize \<Rightarrow> 'h \<Rightarrow>
   ('h \<times> (admitted_alloc_error + prepared_capacity option)) option" where
  "vec_prepare_capacity_for hp ly g a additional h =
     (case checked_add_usize (length (av_values a)) additional of
        None \<Rightarrow> Some (h, Err (Admission ArithmeticOverflow))
      | Some required \<Rightarrow>
          if required \<le> av_capacity a then Some (h, Ok None)
          else case growth_target (av_capacity a) required of
            Inl e \<Rightarrow> Some (h, Err e)
          | Inr preferred \<Rightarrow> do {
              (h1, r) \<leftarrow> vec_prepare_target hp ly g a preferred h;
              case r of
                Inr p \<Rightarrow> Some (h1, Ok (Some p))
              | Inl e \<Rightarrow>
                  if preferred \<noteq> required
                  then map_option wrap_some (vec_prepare_target hp ly g a required h1)
                  else Some (h1, Err e) })"

definition vec_prepare_exact_capacity ::
  "'h heap_calls \<Rightarrow> elem_layout \<Rightarrow> (usize \<Rightarrow> usize option) \<Rightarrow> 'a admitted \<Rightarrow> usize \<Rightarrow> 'h \<Rightarrow>
   ('h \<times> (admitted_alloc_error + prepared_capacity option)) option" where
  "vec_prepare_exact_capacity hp ly g a required h =
     (if required \<le> av_capacity a then Some (h, Ok None)
      else map_option wrap_some (vec_prepare_target hp ly g a required h))"

definition vec_install_prepared_deferred ::
  "'h heap_calls \<Rightarrow> prepared_capacity \<Rightarrow> 'a admitted \<Rightarrow> 'h \<Rightarrow>
   ('h \<times> 'a admitted \<times> (admitted_alloc_error + retired_capacity)) option" where
  "vec_install_prepared_deferred hp p a h =
     (if prep_capacity p < length (av_values a) \<or> hold_class (prep_reservation p) \<noteq> av_class a
      then do {
        h1 \<leftarrow> drop_heap_reservation hp (prep_reservation p) h;
        Some (h1, a, Err CapacityInvariant) }
      else do {
        (h1, r) \<leftarrow> commit_heap hp (prep_reservation p) h;
        case r of
          Inl _ \<Rightarrow> Some (h1, a, Err CapacityInvariant)
        | Inr replacement_charge \<Rightarrow>
            Some (h1, a\<lparr>av_capacity := prep_capacity p, av_charge := Some replacement_charge\<rparr>,
              Ok \<lparr>ret_capacity = av_capacity a, ret_charge = av_charge a, ret_class = av_class a\<rparr>) })"

definition vec_install_prepared ::
  "'h heap_calls \<Rightarrow> prepared_capacity \<Rightarrow> 'a admitted \<Rightarrow> 'h \<Rightarrow>
   ('h \<times> 'a admitted \<times> (admitted_alloc_error + unit)) option" where
  "vec_install_prepared hp p a h = do {
     (h1, a1, r) \<leftarrow> vec_install_prepared_deferred hp p a h;
     case r of
       Inl e \<Rightarrow> Some (h1, a1, Err e)
     | Inr retired \<Rightarrow> do { h2 \<leftarrow> drop_retired hp retired h1; Some (h2, a1, Ok ()) } }"

definition vec_try_reserve ::
  "'h heap_calls \<Rightarrow> elem_layout \<Rightarrow> (usize \<Rightarrow> usize option) \<Rightarrow> usize \<Rightarrow> 'a admitted \<Rightarrow> 'h \<Rightarrow>
   ('h \<times> 'a admitted \<times> (admitted_alloc_error + unit)) option" where
  "vec_try_reserve hp ly g additional a h = do {
     (h1, r) \<leftarrow> vec_prepare_capacity_for hp ly g a additional h;
     case r of
       Inl e \<Rightarrow> Some (h1, a, Err e)
     | Inr None \<Rightarrow> Some (h1, a, Ok ())
     | Inr (Some p) \<Rightarrow> vec_install_prepared hp p a h1 }"

definition vec_try_reserve_exact ::
  "'h heap_calls \<Rightarrow> elem_layout \<Rightarrow> (usize \<Rightarrow> usize option) \<Rightarrow> usize \<Rightarrow> 'a admitted \<Rightarrow> 'h \<Rightarrow>
   ('h \<times> 'a admitted \<times> (admitted_alloc_error + unit)) option" where
  "vec_try_reserve_exact hp ly g additional a h =
     (case checked_add_usize (length (av_values a)) additional of
        None \<Rightarrow> Some (h, a, Err (Admission ArithmeticOverflow))
      | Some required \<Rightarrow> do {
          (h1, r) \<leftarrow> vec_prepare_exact_capacity hp ly g a required h;
          case r of
            Inl e \<Rightarrow> Some (h1, a, Err e)
          | Inr None \<Rightarrow> Some (h1, a, Ok ())
          | Inr (Some p) \<Rightarrow> vec_install_prepared hp p a h1 })"

definition vec_push_reserved :: "'a \<Rightarrow> 'a admitted \<Rightarrow> 'a admitted \<times> ('a + unit)" where
  "vec_push_reserved v a =
     (if length (av_values a) = av_capacity a then (a, Err v)
      else (a\<lparr>av_values := av_values a @ [v]\<rparr>, Ok ()))"

definition vec_try_push ::
  "'h heap_calls \<Rightarrow> elem_layout \<Rightarrow> (usize \<Rightarrow> usize option) \<Rightarrow> 'a \<Rightarrow> 'a admitted \<Rightarrow> 'h \<Rightarrow>
   ('h \<times> 'a admitted \<times> (admitted_alloc_error \<times> 'a + unit)) option" where
  "vec_try_push hp ly g v a h = do {
     (h1, a1, r) \<leftarrow> vec_try_reserve hp ly g 1 a h;
     case r of
       Inl e \<Rightarrow> Some (h1, a1, Err (e, v))
     | Inr _ \<Rightarrow>
         (case vec_push_reserved v a1 of
            (a2, Inl v') \<Rightarrow> Some (h1, a2, Err (CapacityInvariant, v'))
          | (a2, Inr _) \<Rightarrow> Some (h1, a2, Ok ())) }"

definition vec_take_empty_capacity :: "'a admitted \<Rightarrow> 'a admitted \<times> retired_capacity option" where
  "vec_take_empty_capacity a =
     (if av_values a \<noteq> [] \<or> av_capacity a = 0 then (a, None)
      else (a\<lparr>av_values := [], av_capacity := 0, av_charge := None\<rparr>,
        Some \<lparr>ret_capacity = av_capacity a, ret_charge = av_charge a, ret_class = av_class a\<rparr>))"

definition vec_reclaim_if_empty ::
  "'h heap_calls \<Rightarrow> 'a admitted \<Rightarrow> 'h \<Rightarrow> ('h \<times> 'a admitted) option" where
  "vec_reclaim_if_empty hp a h =
     (case vec_take_empty_capacity a of
        (a1, None) \<Rightarrow> Some (h, a1)
      | (a1, Some retired) \<Rightarrow> do { h1 \<leftarrow> drop_retired hp retired h; Some (h1, a1) })"

definition vec_remove_retaining_capacity :: "usize \<Rightarrow> 'a admitted \<Rightarrow> 'a admitted \<times> 'a option" where
  "vec_remove_retaining_capacity i a =
     (if length (av_values a) \<le> i then (a, None)
      else (a\<lparr>av_values := remove_at i (av_values a)\<rparr>, Some (av_values a ! i)))"

definition vec_remove ::
  "'h heap_calls \<Rightarrow> usize \<Rightarrow> 'a admitted \<Rightarrow> 'h \<Rightarrow> ('h \<times> 'a admitted \<times> 'a option) option" where
  "vec_remove hp i a h =
     (if length (av_values a) \<le> i then Some (h, a, None)
      else do {
        (h1, a1) \<leftarrow> vec_reclaim_if_empty hp (a\<lparr>av_values := remove_at i (av_values a)\<rparr>) h;
        Some (h1, a1, Some (av_values a ! i)) })"

definition list_pop :: "'a list \<Rightarrow> 'a list \<times> 'a option" where
  "list_pop xs = (if xs = [] then ([], None) else (butlast xs, Some (last xs)))"

definition vec_pop ::
  "'h heap_calls \<Rightarrow> 'a admitted \<Rightarrow> 'h \<Rightarrow> ('h \<times> 'a admitted \<times> 'a option) option" where
  "vec_pop hp a h =
     (case list_pop (av_values a) of (xs, v) \<Rightarrow> do {
        (h1, a1) \<leftarrow> vec_reclaim_if_empty hp (a\<lparr>av_values := xs\<rparr>) h;
        Some (h1, a1, v) })"

definition vec_retain_capacity :: "('a \<Rightarrow> bool) \<Rightarrow> 'a admitted \<Rightarrow> 'a admitted" where
  "vec_retain_capacity keep a = a\<lparr>av_values := filter keep (av_values a)\<rparr>"

definition vec_retain ::
  "'h heap_calls \<Rightarrow> ('a \<Rightarrow> bool) \<Rightarrow> 'a admitted \<Rightarrow> 'h \<Rightarrow> ('h \<times> 'a admitted) option" where
  "vec_retain hp keep a h = vec_reclaim_if_empty hp (a\<lparr>av_values := filter keep (av_values a)\<rparr>) h"

definition vec_clear_retaining_capacity :: "'a admitted \<Rightarrow> 'a admitted" where
  "vec_clear_retaining_capacity a = a\<lparr>av_values := []\<rparr>"

definition vec_clear :: "'h heap_calls \<Rightarrow> 'a admitted \<Rightarrow> 'h \<Rightarrow> ('h \<times> 'a admitted) option" where
  "vec_clear hp a h = vec_reclaim_if_empty hp (a\<lparr>av_values := []\<rparr>) h"

text \<open>\<open>Vec::extend_from_slice\<close> inside the admitted capacity; beyond it the vector would grow
  without admission.\<close>

definition extend_within :: "'a list \<Rightarrow> 'a admitted \<Rightarrow> 'a admitted option" where
  "extend_within src a =
     (if length (av_values a) + length src \<le> av_capacity a
      then Some (a\<lparr>av_values := av_values a @ src\<rparr>) else None)"

definition vec_try_copy_from_slice ::
  "'h heap_calls \<Rightarrow> elem_layout \<Rightarrow> (usize \<Rightarrow> usize option) \<Rightarrow> heap_class \<Rightarrow> 'a list \<Rightarrow> 'h \<Rightarrow>
   ('h \<times> (admitted_alloc_error + 'a admitted)) option" where
  "vec_try_copy_from_slice hp ly g cls src h = do {
     (h1, r) \<leftarrow> vec_prepare_exact_capacity hp ly g (vec_new cls :: 'a admitted) (length src) h;
     case r of
       Inl e \<Rightarrow> do { h2 \<leftarrow> drop_admitted hp (vec_new cls :: 'a admitted) h1; Some (h2, Err e) }
     | Inr None \<Rightarrow> do { out \<leftarrow> extend_within src (vec_new cls); Some (h1, Ok out) }
     | Inr (Some p) \<Rightarrow> do {
         (h2, out, k) \<leftarrow> vec_install_prepared hp p (vec_new cls) h1;
         case k of
           Inl e \<Rightarrow> do { h3 \<leftarrow> drop_admitted hp out h2; Some (h3, Err e) }
         | Inr _ \<Rightarrow> do { out1 \<leftarrow> extend_within src out; Some (h2, Ok out1) } } }"

definition vec_try_extend_from_slice ::
  "'h heap_calls \<Rightarrow> elem_layout \<Rightarrow> (usize \<Rightarrow> usize option) \<Rightarrow> 'a list \<Rightarrow> 'a admitted \<Rightarrow> 'h \<Rightarrow>
   ('h \<times> 'a admitted \<times> (admitted_alloc_error + unit)) option" where
  "vec_try_extend_from_slice hp ly g src a h = do {
     (h1, a1, r) \<leftarrow> vec_try_reserve_exact hp ly g (length src) a h;
     case r of
       Inl e \<Rightarrow> Some (h1, a1, Err e)
     | Inr _ \<Rightarrow> do { a2 \<leftarrow> extend_within src a1; Some (h1, a2, Ok ()) } }"

section \<open>Contract of the vector operations\<close>

text \<open>A grant for an exact request is at least as large as the request. A container's charge is
  exactly the charge of its capacity, in its own class.\<close>

definition grant_ok :: "(usize \<Rightarrow> usize option) \<Rightarrow> bool" where
  "grant_ok g \<longleftrightarrow> (\<forall>n c. g n = Some c \<longrightarrow> n \<le> c)"

definition backing_ok :: "elem_layout \<Rightarrow> heap_class \<Rightarrow> usize \<Rightarrow> heap_charge option \<Rightarrow> bool" where
  "backing_ok ly cls capacity k \<longleftrightarrow>
     (case k of None \<Rightarrow> capacity = 0
      | Some c \<Rightarrow> hold_class c = cls \<and> charge_of ly capacity = Ok (hold_bytes c))"

definition adm_ok :: "elem_layout \<Rightarrow> 'a admitted \<Rightarrow> bool" where
  "adm_ok ly a \<longleftrightarrow> length (av_values a) \<le> av_capacity a \<and> backing_ok ly (av_class a) (av_capacity a) (av_charge a)"

definition prep_ok :: "elem_layout \<Rightarrow> heap_class \<Rightarrow> usize \<Rightarrow> prepared_capacity \<Rightarrow> bool" where
  "prep_ok ly cls target p \<longleftrightarrow> target \<le> prep_capacity p \<and> hold_class (prep_reservation p) = cls \<and>
     charge_of ly (prep_capacity p) = Ok (hold_bytes (prep_reservation p))"

lemma charge_of_bound: "charge_of ly c = Ok b \<Longrightarrow> b \<le> usize_max"
  by (auto simp: charge_of_def dest: charge_bytes_bound(2))

lemma growth_target_ge: "growth_target c n = Ok m \<Longrightarrow> n \<le> m"
  by (auto simp: growth_target_def split: if_splits option.splits)

lemma adm_ok_new: "adm_ok ly (vec_new cls)"
  by (simp add: adm_ok_def vec_new_def backing_ok_def)

lemma adm_ok_shrink: "adm_ok ly a \<Longrightarrow> length xs \<le> length (av_values a) \<Longrightarrow> adm_ok ly (a\<lparr>av_values := xs\<rparr>)"
  by (simp add: adm_ok_def)

text \<open>What one call leaves behind: a well-formed container whose charge is the only one it holds.\<close>

definition adm_at ::
  "('h \<Rightarrow> heap_reservation multiset \<Rightarrow> heap_charge multiset \<Rightarrow> bool) \<Rightarrow> heap_reservation multiset \<Rightarrow>
   heap_charge multiset \<Rightarrow> elem_layout \<Rightarrow> 'h \<Rightarrow> 'a admitted \<Rightarrow> bool" where
  "adm_at hinv R C ly h a \<longleftrightarrow> hinv h R (opt_ms (av_charge a) + C) \<and> adm_ok ly a"

context heap_client
begin

lemma reserve_vec:
  assumes "hinv h R C"
  shows "runs (reserve_vec hp ly cls n h)
    (\<lambda>(h', r). case r of Inl _ \<Rightarrow> hinv h' R C
       | Inr x \<Rightarrow> hold_class x = cls \<and> charge_of ly n = Ok (hold_bytes x) \<and> hinv h' (add_mset x R) C)"
proof (cases "charge_of ly n")
  case (Inr b)
  show ?thesis unfolding reserve_vec_def Inr sum.case
    by (rule runs_bind [OF reserve [OF assms charge_of_bound [OF Inr]]]) (auto split: sum.splits)
qed (use assms in \<open>simp add: reserve_vec_def\<close>)

lemma abandon:
  "hinv h (add_mset x R) C \<Longrightarrow> runs (abandon hp x e h) (\<lambda>(h', r). r = Err e \<and> hinv h' R C)"
  unfolding abandon_def by (rule runs_bind [OF drop_res]) simp_all

lemma prepare:
  assumes inv: "hinv h R C" and g: "grant_ok g"
  shows "runs (prepared_try_new hp ly g cls target h)
    (\<lambda>(h', r). case r of Inl _ \<Rightarrow> hinv h' R C
       | Inr p \<Rightarrow> prep_ok ly cls target p \<and> hinv h' (add_mset (prep_reservation p) R) C)"
    (is "runs _ ?Q")
  unfolding prepared_try_new_def
proof (rule runs_bind [OF reserve_vec [OF inv, of ly cls target]], clarify)
  fix h1 and r :: "admitted_alloc_error + heap_reservation"
  assume 1: "case r of Inl _ \<Rightarrow> hinv h1 R C
       | Inr x \<Rightarrow> hold_class x = cls \<and> charge_of ly target = Ok (hold_bytes x) \<and> hinv h1 (add_mset x R) C"
  have ab: "runs (abandon hp x e h') ?Q" if "hinv h' (add_mset x R) C" for x e h'
    by (rule runs_mono [OF abandon [OF that]]) auto
  show "runs (case r of
       Inl e \<Rightarrow> Some (h1, Err e)
     | Inr reservation \<Rightarrow>
         (case g target of
            None \<Rightarrow> abandon hp reservation AllocationFailed h1
          | Some granted \<Rightarrow>
              (case charge_of ly granted of
                 Inl e \<Rightarrow> abandon hp reservation (Admission e) h1
               | Inr actual \<Rightarrow> do {
                   (h2, reservation', res) \<leftarrow> resize_heap hp reservation actual h1;
                   case res of
                     Inl e \<Rightarrow> abandon hp reservation' (Admission e) h2
                   | Inr _ \<Rightarrow> Some (h2, Ok \<lparr>prep_capacity = granted, prep_reservation = reservation'\<rparr>) }))) ?Q"
  proof (cases r)
    case x: (Inr x)
    with 1 have h1: "hinv h1 (add_mset x R) C" "hold_class x = cls" by simp_all
    show ?thesis
    proof (cases "g target")
      case (Some granted)
      show ?thesis
      proof (cases "charge_of ly granted")
        case actual: (Inr actual)
        show ?thesis unfolding x Some actual sum.case option.case
        proof (rule runs_bind [OF resize [OF h1(1) charge_of_bound [OF actual]]], clarify)
          fix h2 x' and res :: "heap_admission_error + unit"
          assume 2: "hinv h2 (add_mset (case res of Inl _ \<Rightarrow> x | Inr _ \<Rightarrow> x\<lparr>hold_bytes := actual\<rparr>) R) C"
          show "runs (case res of
                Inl e \<Rightarrow> abandon hp (case res of Inl _ \<Rightarrow> x | Inr _ \<Rightarrow> x\<lparr>hold_bytes := actual\<rparr>) (Admission e) h2
              | Inr _ \<Rightarrow> Some (h2, Ok \<lparr>prep_capacity = granted,
                  prep_reservation = (case res of Inl _ \<Rightarrow> x | Inr _ \<Rightarrow> x\<lparr>hold_bytes := actual\<rparr>)\<rparr>)) ?Q"
          proof (cases res)
            case (Inl e)
            with ab [of h2 x "Admission e"] 2 show ?thesis by simp
          next
            case (Inr u)
            with 2 Some g actual h1 show ?thesis by (simp add: grant_ok_def prep_ok_def)
          qed
        qed
      qed (use ab [OF h1(1)] x Some in simp)
    qed (use ab [OF h1(1)] x in simp)
  qed (use 1 in simp)
qed

lemma prepare_target:
  assumes "hinv h R C" "grant_ok g"
  shows "runs (vec_prepare_target hp ly g a target h)
    (\<lambda>(h', r). case r of Inl _ \<Rightarrow> hinv h' R C
       | Inr p \<Rightarrow> prep_ok ly (av_class a) target p \<and> length (av_values a) \<le> target \<and>
           hinv h' (add_mset (prep_reservation p) R) C)"
proof (cases "target < length (av_values a)")
  case False
  then show ?thesis unfolding vec_prepare_target_def
    by (simp, intro runs_mono [OF prepare [OF assms, of ly "av_class a" target]]) (auto split: sum.splits)
qed (use assms in \<open>simp add: vec_prepare_target_def\<close>)

text \<open>The two ways of preparing growth share their outcome: nothing is needed, or the detached
  backing has room for what was asked.\<close>

definition growth_post where
  "growth_post R C ly a required = (\<lambda>(h', r). case r of
       Inl _ \<Rightarrow> hinv h' R C
     | Inr None \<Rightarrow> hinv h' R C \<and> required \<le> av_capacity a
     | Inr (Some p) \<Rightarrow> prep_ok ly (av_class a) required p \<and> length (av_values a) \<le> prep_capacity p \<and>
         hinv h' (add_mset (prep_reservation p) R) C)"

lemma prepare_wrapped:
  assumes "hinv h R C" "grant_ok g"
  shows "runs (map_option wrap_some (vec_prepare_target hp ly g a required h)) (growth_post R C ly a required)"
  unfolding runs_simps
  by (rule runs_mono [OF prepare_target [OF assms]])
    (auto simp: wrap_some_def growth_post_def prep_ok_def split: sum.splits)

lemma prepare_exact:
  assumes "hinv h R C" "grant_ok g"
  shows "runs (vec_prepare_exact_capacity hp ly g a required h) (growth_post R C ly a required)"
proof (cases "required \<le> av_capacity a")
  case False
  then show ?thesis using prepare_wrapped [OF assms] by (simp add: vec_prepare_exact_capacity_def)
qed (use assms in \<open>simp add: vec_prepare_exact_capacity_def growth_post_def\<close>)

lemma prepare_for:
  assumes inv: "hinv h R C" and g: "grant_ok g"
  shows "runs (vec_prepare_capacity_for hp ly g a n h) (growth_post R C ly a (length (av_values a) + n))"
proof -
  define required where "required = length (av_values a) + n"
  have *: "runs (do {
        (h1, r) \<leftarrow> vec_prepare_target hp ly g a preferred h;
        case r of
          Inr p \<Rightarrow> Some (h1, Ok (Some p))
        | Inl e \<Rightarrow> if preferred \<noteq> required
            then map_option wrap_some (vec_prepare_target hp ly g a required h1) else Some (h1, Err e) })
      (growth_post R C ly a required)" if "required \<le> preferred" for preferred
  proof (rule runs_bind [OF prepare_target [OF inv g]], clarify)
    fix h1 and r :: "admitted_alloc_error + prepared_capacity"
    assume 1: "case r of Inl _ \<Rightarrow> hinv h1 R C
       | Inr p \<Rightarrow> prep_ok ly (av_class a) preferred p \<and> length (av_values a) \<le> preferred \<and>
           hinv h1 (add_mset (prep_reservation p) R) C"
    show "runs (case r of
          Inr p \<Rightarrow> Some (h1, Ok (Some p))
        | Inl e \<Rightarrow> if preferred \<noteq> required
            then map_option wrap_some (vec_prepare_target hp ly g a required h1) else Some (h1, Err e))
       (growth_post R C ly a required)"
    proof (cases r)
      case (Inl e)
      with 1 have "hinv h1 R C" by simp
      from prepare_wrapped [OF this g, of ly a required] this Inl show ?thesis by (simp add: growth_post_def)
    next
      case (Inr p)
      with 1 that show ?thesis by (simp add: growth_post_def prep_ok_def)
    qed
  qed
  show ?thesis
  proof (cases "checked_add_usize (length (av_values a)) n")
    case (Some m)
    then have m: "m = required" by (simp add: checked required_def)
    show ?thesis
    proof (cases "growth_target (av_capacity a) required")
      case (Inr preferred)
      from * [OF growth_target_ge [OF Inr]] inv show ?thesis
        unfolding vec_prepare_capacity_for_def required_def [symmetric]
        by (simp add: Some m Inr) (simp add: growth_post_def)
    qed (use inv in \<open>simp add: vec_prepare_capacity_for_def required_def [symmetric] Some m growth_post_def\<close>)
  qed (use inv in \<open>simp add: vec_prepare_capacity_for_def growth_post_def\<close>)
qed

lemma install_deferred:
  assumes inv: "hinv h (add_mset (prep_reservation p) R) (opt_ms (av_charge a) + C)" and ok: "adm_ok ly a"
    and bytes: "charge_of ly (prep_capacity p) = Ok (hold_bytes (prep_reservation p))"
  shows "runs (vec_install_prepared_deferred hp p a h) (\<lambda>(h', a', r).
    if prep_capacity p < length (av_values a) \<or> hold_class (prep_reservation p) \<noteq> av_class a
    then r = Err CapacityInvariant \<and> a' = a \<and> hinv h' R (opt_ms (av_charge a) + C)
    else (\<exists>rt. r = Ok rt \<and> hinv h' R (opt_ms (ret_charge rt) + (opt_ms (av_charge a') + C))) \<and>
      adm_ok ly a' \<and> av_values a' = av_values a \<and> av_class a' = av_class a \<and> av_capacity a' = prep_capacity p)"
proof (cases "prep_capacity p < length (av_values a) \<or> hold_class (prep_reservation p) \<noteq> av_class a")
  case True
  then show ?thesis using drop_res [OF inv] by (simp add: vec_install_prepared_deferred_def)
next
  case False
  then have r: "runs (commit_heap hp (prep_reservation p) h) (\<lambda>(h1, r). \<exists>c. r = Ok c \<and>
      hold_class c = av_class a \<and> hold_bytes c = hold_bytes (prep_reservation p) \<and>
      hinv h1 R (add_mset c (opt_ms (av_charge a) + C)))"
    using commit [OF inv] by simp
  show ?thesis
    using False unfolding vec_install_prepared_deferred_def
    by (simp, intro runs_mono [OF r]) (use ok bytes in \<open>auto simp: adm_ok_def backing_ok_def\<close>)
qed

lemma install:
  assumes inv: "hinv h (add_mset (prep_reservation p) R) (opt_ms (av_charge a) + C)" and ok: "adm_ok ly a"
    and p: "prep_ok ly (av_class a) n p" "length (av_values a) \<le> prep_capacity p"
  shows "runs (vec_install_prepared hp p a h) (\<lambda>(h', a', r). r = Ok () \<and> adm_at hinv R C ly h' a' \<and>
    av_values a' = av_values a \<and> av_class a' = av_class a \<and> n \<le> av_capacity a')"
  unfolding vec_install_prepared_def
proof (rule runs_bind [OF install_deferred [OF inv ok]], goal_cases)
  case (2 x)
  then obtain h1 a1 rt where x: "x = (h1, a1, Ok rt)" "hinv h1 R (opt_ms (ret_charge rt) + (opt_ms (av_charge a1) + C))"
    "adm_ok ly a1" "av_values a1 = av_values a" "av_class a1 = av_class a" "av_capacity a1 = prep_capacity p"
    using p by (cases x) (auto simp: prep_ok_def)
  from drop_opt [OF x(2)] x p show ?case
    by (simp add: drop_retired_def adm_at_def prep_ok_def)
qed (use p in \<open>simp add: prep_ok_def\<close>)

text \<open>Growth keeps the elements; after success there is room for what was asked, after failure
  nothing has changed.\<close>

definition reserve_post where
  "reserve_post R C ly a required = (\<lambda>(h', a', r). adm_at hinv R C ly h' a' \<and>
     (case r of Inl _ \<Rightarrow> a' = a
      | Inr _ \<Rightarrow> av_values a' = av_values a \<and> av_class a' = av_class a \<and> required \<le> av_capacity a'))"

lemma grow:
  assumes at: "adm_at hinv R C ly h a" and m: "runs m (growth_post R (opt_ms (av_charge a) + C) ly a required)"
  shows "runs (do {
       (h1, r) \<leftarrow> m;
       case r of
         Inl e \<Rightarrow> Some (h1, a, Err e)
       | Inr None \<Rightarrow> Some (h1, a, Ok ())
       | Inr (Some p) \<Rightarrow> vec_install_prepared hp p a h1 }) (reserve_post R C ly a required)"
proof (rule runs_bind [OF m], clarify)
  fix h1 and r :: "admitted_alloc_error + prepared_capacity option"
  assume 1: "growth_post R (opt_ms (av_charge a) + C) ly a required (h1, r)"
  have ok: "adm_ok ly a" using at by (simp add: adm_at_def)
  consider e where "r = Inl e" | "r = Inr None" | p where "r = Inr (Some p)"
    by (metis option.exhaust sum.exhaust)
  then show "runs (case r of
         Inl e \<Rightarrow> Some (h1, a, Err e)
       | Inr None \<Rightarrow> Some (h1, a, Ok ())
       | Inr (Some p) \<Rightarrow> vec_install_prepared hp p a h1) (reserve_post R C ly a required)"
  proof cases
    case 3
    with 1 have "hinv h1 (add_mset (prep_reservation p) R) (opt_ms (av_charge a) + C)"
      "prep_ok ly (av_class a) required p" "length (av_values a) \<le> prep_capacity p"
      by (simp_all add: growth_post_def)
    from runs_mono [OF install [OF this(1) ok this(2,3)], of "reserve_post R C ly a required"] 3 show ?thesis
      by (simp add: reserve_post_def split_beta)
  qed (use 1 ok in \<open>simp_all add: growth_post_def reserve_post_def adm_at_def\<close>)
qed

lemma try_reserve:
  assumes "adm_at hinv R C ly h a" "grant_ok g"
  shows "runs (vec_try_reserve hp ly g n a h) (reserve_post R C ly a (length (av_values a) + n))"
  unfolding vec_try_reserve_def
  using assms by (intro grow prepare_for) (auto simp: adm_at_def)

lemma try_reserve_exact:
  assumes "adm_at hinv R C ly h a" "grant_ok g"
  shows "runs (vec_try_reserve_exact hp ly g n a h) (reserve_post R C ly a (length (av_values a) + n))"
proof (cases "checked_add_usize (length (av_values a)) n")
  case (Some m)
  then have m: "m = length (av_values a) + n" by (simp add: checked)
  show ?thesis unfolding vec_try_reserve_exact_def Some option.case m
    using assms by (intro grow prepare_exact) (auto simp: adm_at_def)
qed (use assms in \<open>simp add: vec_try_reserve_exact_def reserve_post_def\<close>)

lemma reclaim:
  assumes "adm_at hinv R C ly h a"
  shows "runs (vec_reclaim_if_empty hp a h) (\<lambda>(h', a'). adm_at hinv R C ly h' a' \<and>
    av_values a' = av_values a \<and> av_class a' = av_class a \<and> (av_values a = [] \<longrightarrow> av_capacity a' = 0))"
proof (cases "av_values a \<noteq> [] \<or> av_capacity a = 0")
  case False
  let ?a = "a\<lparr>av_values := [], av_capacity := 0, av_charge := None\<rparr>"
  have d: "runs (drop_charge_opt hp (av_charge a) h) (\<lambda>h'. hinv h' R C)"
    using assms by (intro drop_opt) (simp add: adm_at_def)
  have eq: "vec_reclaim_if_empty hp a h = map_option (\<lambda>h1. (h1, ?a)) (drop_charge_opt hp (av_charge a) h)"
    using False by (simp add: vec_reclaim_if_empty_def vec_take_empty_capacity_def drop_retired_def map_conv_bind_option comp_def)
  show ?thesis unfolding eq runs_simps
    by (rule runs_mono [OF d]) (use False in \<open>simp add: adm_at_def adm_ok_def backing_ok_def\<close>)
next
  case True
  then have "vec_reclaim_if_empty hp a h = Some (h, a)"
    by (simp add: vec_reclaim_if_empty_def vec_take_empty_capacity_def)
  with assms True show ?thesis by (cases "av_values a = []") simp_all
qed

lemma extend_from_reserve:
  assumes "reserve_post R C ly a (length (av_values a) + length src) (h1, a1, Ok ())"
  shows "runs (extend_within src a1) (\<lambda>a2. adm_at hinv R C ly h1 a2 \<and>
    av_class a2 = av_class a \<and> av_values a2 = av_values a @ src)"
  using assms by (auto simp: reserve_post_def extend_within_def adm_at_def adm_ok_def)

end

section \<open>A vector used through any sequence of calls\<close>

datatype 'a vec_call =
    Vec_Reserve usize
  | Vec_ReserveExact usize
  | Vec_Push 'a
  | Vec_PushReserved 'a
  | Vec_Extend "'a list"
  | Vec_Remove usize
  | Vec_RemoveRetaining usize
  | Vec_Pop
  | Vec_Retain "'a \<Rightarrow> bool"
  | Vec_RetainCapacity "'a \<Rightarrow> bool"
  | Vec_Clear
  | Vec_ClearRetaining
  | Vec_Update usize "'a \<Rightarrow> 'a"
  | Vec_Reclaim

datatype 'a seq_reply =
    Seq_Done
  | Seq_Failed admitted_alloc_error
  | Seq_Rejected 'a
  | Seq_Value "'a option"

definition unit_reply :: "'h \<times> 'a admitted \<times> (admitted_alloc_error + unit) \<Rightarrow> 'h \<times> 'a admitted \<times> 'a seq_reply" where
  "unit_reply = (\<lambda>(h, a, r). (h, a, case r of Inl e \<Rightarrow> Seq_Failed e | Inr _ \<Rightarrow> Seq_Done))"

definition push_reply :: "'h \<times> 'a admitted \<times> (admitted_alloc_error \<times> 'a + unit) \<Rightarrow> 'h \<times> 'a admitted \<times> 'a seq_reply" where
  "push_reply = (\<lambda>(h, a, r). (h, a, case r of Inl (e, v) \<Rightarrow> Seq_Rejected v | Inr _ \<Rightarrow> Seq_Done))"

fun vec_exec ::
  "'h heap_calls \<Rightarrow> elem_layout \<Rightarrow> (usize \<Rightarrow> usize option) \<Rightarrow> 'a vec_call \<Rightarrow> 'a admitted \<Rightarrow> 'h \<Rightarrow>
   ('h \<times> 'a admitted \<times> 'a seq_reply) option" where
  "vec_exec hp ly g (Vec_Reserve n) a h = map_option unit_reply (vec_try_reserve hp ly g n a h)"
| "vec_exec hp ly g (Vec_ReserveExact n) a h = map_option unit_reply (vec_try_reserve_exact hp ly g n a h)"
| "vec_exec hp ly g (Vec_Push v) a h = map_option push_reply (vec_try_push hp ly g v a h)"
| "vec_exec hp ly g (Vec_PushReserved v) a h =
     (case vec_push_reserved v a of (a', Inl w) \<Rightarrow> Some (h, a', Seq_Rejected w) | (a', Inr _) \<Rightarrow> Some (h, a', Seq_Done))"
| "vec_exec hp ly g (Vec_Extend xs) a h = map_option unit_reply (vec_try_extend_from_slice hp ly g xs a h)"
| "vec_exec hp ly g (Vec_Remove i) a h = map_option (\<lambda>(h, a, v). (h, a, Seq_Value v)) (vec_remove hp i a h)"
| "vec_exec hp ly g (Vec_RemoveRetaining i) a h =
     (case vec_remove_retaining_capacity i a of (a', v) \<Rightarrow> Some (h, a', Seq_Value v))"
| "vec_exec hp ly g Vec_Pop a h = map_option (\<lambda>(h, a, v). (h, a, Seq_Value v)) (vec_pop hp a h)"
| "vec_exec hp ly g (Vec_Retain keep) a h = map_option (\<lambda>(h, a). (h, a, Seq_Done)) (vec_retain hp keep a h)"
| "vec_exec hp ly g (Vec_RetainCapacity keep) a h = Some (h, vec_retain_capacity keep a, Seq_Done)"
| "vec_exec hp ly g Vec_Clear a h = map_option (\<lambda>(h, a). (h, a, Seq_Done)) (vec_clear hp a h)"
| "vec_exec hp ly g Vec_ClearRetaining a h = Some (h, vec_clear_retaining_capacity a, Seq_Done)"
| "vec_exec hp ly g (Vec_Update i f) a h = Some (h, vec_get_mut a i f, Seq_Value (vec_get a i))"
| "vec_exec hp ly g Vec_Reclaim a h = map_option (\<lambda>(h, a). (h, a, Seq_Done)) (vec_reclaim_if_empty hp a h)"

text \<open>The list a vector stands for. A failed growth or push leaves it alone, and a rejected
  element comes back to the caller.\<close>

fun list_step :: "'a vec_call \<Rightarrow> 'a list \<Rightarrow> 'a seq_reply \<Rightarrow> 'a list \<Rightarrow> bool" where
  "list_step (Vec_Reserve n) xs r ys \<longleftrightarrow> ys = xs \<and> (r = Seq_Done \<or> (\<exists>e. r = Seq_Failed e))"
| "list_step (Vec_ReserveExact n) xs r ys \<longleftrightarrow> ys = xs \<and> (r = Seq_Done \<or> (\<exists>e. r = Seq_Failed e))"
| "list_step (Vec_Push v) xs r ys \<longleftrightarrow> r = Seq_Done \<and> ys = xs @ [v] \<or> r = Seq_Rejected v \<and> ys = xs"
| "list_step (Vec_PushReserved v) xs r ys \<longleftrightarrow> r = Seq_Done \<and> ys = xs @ [v] \<or> r = Seq_Rejected v \<and> ys = xs"
| "list_step (Vec_Extend vs) xs r ys \<longleftrightarrow> r = Seq_Done \<and> ys = xs @ vs \<or> (\<exists>e. r = Seq_Failed e) \<and> ys = xs"
| "list_step (Vec_Remove i) xs r ys \<longleftrightarrow>
     (if i < length xs then r = Seq_Value (Some (xs ! i)) \<and> ys = remove_at i xs else r = Seq_Value None \<and> ys = xs)"
| "list_step (Vec_RemoveRetaining i) xs r ys \<longleftrightarrow>
     (if i < length xs then r = Seq_Value (Some (xs ! i)) \<and> ys = remove_at i xs else r = Seq_Value None \<and> ys = xs)"
| "list_step Vec_Pop xs r ys \<longleftrightarrow>
     (if xs = [] then r = Seq_Value None \<and> ys = [] else r = Seq_Value (Some (last xs)) \<and> ys = butlast xs)"
| "list_step (Vec_Retain keep) xs r ys \<longleftrightarrow> r = Seq_Done \<and> ys = filter keep xs"
| "list_step (Vec_RetainCapacity keep) xs r ys \<longleftrightarrow> r = Seq_Done \<and> ys = filter keep xs"
| "list_step Vec_Clear xs r ys \<longleftrightarrow> r = Seq_Done \<and> ys = []"
| "list_step Vec_ClearRetaining xs r ys \<longleftrightarrow> r = Seq_Done \<and> ys = []"
| "list_step (Vec_Update i f) xs r ys \<longleftrightarrow>
     (if i < length xs then r = Seq_Value (Some (xs ! i)) \<and> ys = xs[i := f (xs ! i)] else r = Seq_Value None \<and> ys = xs)"
| "list_step Vec_Reclaim xs r ys \<longleftrightarrow> r = Seq_Done \<and> ys = xs"

fun vec_reclaims :: "'a vec_call \<Rightarrow> bool" where
  "vec_reclaims (Vec_Retain _) = True"
| "vec_reclaims Vec_Pop = True"
| "vec_reclaims Vec_Clear = True"
| "vec_reclaims Vec_Reclaim = True"
| "vec_reclaims _ = False"

fun vec_trace ::
  "'h heap_calls \<Rightarrow> elem_layout \<Rightarrow> ((usize \<Rightarrow> usize option) \<times> 'a vec_call) list \<Rightarrow> 'a admitted \<Rightarrow> 'h \<Rightarrow>
   ('h \<times> 'a admitted \<times> 'a seq_reply list) option" where
  "vec_trace hp ly [] a h = Some (h, a, [])"
| "vec_trace hp ly ((g, c) # cs) a h = do {
     (h1, a1, r) \<leftarrow> vec_exec hp ly g c a h;
     (h2, a2, rs) \<leftarrow> vec_trace hp ly cs a1 h1;
     Some (h2, a2, r # rs) }"

fun steps :: "('c \<Rightarrow> 's \<Rightarrow> 'r \<Rightarrow> 's \<Rightarrow> bool) \<Rightarrow> 'c list \<Rightarrow> 's \<Rightarrow> 'r list \<Rightarrow> 's \<Rightarrow> bool" where
  "steps step [] s rs s' \<longleftrightarrow> rs = [] \<and> s' = s"
| "steps step (c # cs) s rs s' \<longleftrightarrow> (\<exists>r rs' s1. rs = r # rs' \<and> step c s r s1 \<and> steps step cs s1 rs' s')"

context heap_client
begin

definition seq_post where
  "seq_post R C ly a P = (\<lambda>(h', a', r). adm_at hinv R C ly h' a' \<and> av_class a' = av_class a \<and> P (av_values a) r (av_values a'))"

lemma reserve_done:
  assumes "runs m (reserve_post R C ly a n)"
  shows "runs (map_option unit_reply m)
    (seq_post R C ly a (\<lambda>xs r ys. ys = xs \<and> (r = Seq_Done \<or> (\<exists>e. r = Seq_Failed e))))"
  unfolding runs_simps
proof (rule runs_mono [OF assms], clarify)
  fix h' a' and r :: "admitted_alloc_error + unit"
  assume "reserve_post R C ly a n (h', a', r)"
  then show "seq_post R C ly a (\<lambda>xs r ys. ys = xs \<and> (r = Seq_Done \<or> (\<exists>e. r = Seq_Failed e))) (unit_reply (h', a', r))"
    by (cases r) (auto simp: reserve_post_def unit_reply_def seq_post_def)
qed

lemma try_push:
  assumes "adm_at hinv R C ly h a" "grant_ok g"
  shows "runs (map_option push_reply (vec_try_push hp ly g v a h))
    (seq_post R C ly a (\<lambda>xs r ys. r = Seq_Done \<and> ys = xs @ [v] \<or> r = Seq_Rejected v \<and> ys = xs))"
  unfolding runs_simps vec_try_push_def
proof (rule runs_mono [OF try_reserve [OF assms]], clarify)
  fix h1 a1 and r :: "admitted_alloc_error + unit"
  assume "reserve_post R C ly a (length (av_values a) + 1) (h1, a1, r)"
  then show "runs (case r of
       Inl e \<Rightarrow> Some (h1, a1, Err (e, v))
     | Inr _ \<Rightarrow>
         (case vec_push_reserved v a1 of
            (a2, Inl v') \<Rightarrow> Some (h1, a2, Err (CapacityInvariant, v'))
          | (a2, Inr _) \<Rightarrow> Some (h1, a2, Ok ())))
      (\<lambda>x. seq_post R C ly a (\<lambda>xs r ys. r = Seq_Done \<and> ys = xs @ [v] \<or> r = Seq_Rejected v \<and> ys = xs) (push_reply x))"
    by (cases r) (auto simp: reserve_post_def vec_push_reserved_def seq_post_def push_reply_def adm_at_def adm_ok_def)
qed

lemma try_extend:
  assumes "adm_at hinv R C ly h a" "grant_ok g"
  shows "runs (map_option unit_reply (vec_try_extend_from_slice hp ly g src a h))
    (seq_post R C ly a (\<lambda>xs r ys. r = Seq_Done \<and> ys = xs @ src \<or> (\<exists>e. r = Seq_Failed e) \<and> ys = xs))"
  unfolding runs_simps vec_try_extend_from_slice_def
proof (rule runs_mono [OF try_reserve_exact [OF assms]], clarify)
  fix h1 a1 and r :: "admitted_alloc_error + unit"
  assume 1: "reserve_post R C ly a (length (av_values a) + length src) (h1, a1, r)"
  show "runs (case r of Inl e \<Rightarrow> Some (h1, a1, Err e)
     | Inr _ \<Rightarrow> do { a2 \<leftarrow> extend_within src a1; Some (h1, a2, Ok ()) })
      (\<lambda>x. seq_post R C ly a (\<lambda>xs r ys. r = Seq_Done \<and> ys = xs @ src \<or> (\<exists>e. r = Seq_Failed e) \<and> ys = xs) (unit_reply x))"
  proof (cases r)
    case (Inr u)
    with extend_from_reserve [of R C ly a src h1 a1] 1 show ?thesis
      by (simp add: seq_post_def unit_reply_def)
  qed (use 1 in \<open>auto simp: reserve_post_def seq_post_def unit_reply_def\<close>)
qed

lemma reclaim_to:
  assumes "adm_at hinv R C ly h a" "length xs \<le> length (av_values a)"
  shows "runs (vec_reclaim_if_empty hp (a\<lparr>av_values := xs\<rparr>) h) (\<lambda>(h', a'). adm_at hinv R C ly h' a' \<and>
    av_class a' = av_class a \<and> av_values a' = xs \<and> (av_values a' = [] \<longrightarrow> av_capacity a' = 0))"
proof -
  have at: "adm_at hinv R C ly h (a\<lparr>av_values := xs\<rparr>)" using assms by (simp add: adm_at_def adm_ok_shrink)
  show ?thesis by (rule runs_mono [OF reclaim [OF at]]) auto
qed

lemma vec_exec:
  assumes at: "adm_at hinv R C ly h a" and g: "grant_ok g"
  shows "runs (vec_exec hp ly g c a h) (\<lambda>(h', a', r). adm_at hinv R C ly h' a' \<and> av_class a' = av_class a \<and>
    list_step c (av_values a) r (av_values a') \<and> (vec_reclaims c \<and> av_values a' = [] \<longrightarrow> av_capacity a' = 0))"
proof (cases c)
  case (Vec_Reserve n)
  with reserve_done [OF try_reserve [OF at g]] show ?thesis by (simp add: seq_post_def)
next
  case (Vec_ReserveExact n)
  with reserve_done [OF try_reserve_exact [OF at g]] show ?thesis by (simp add: seq_post_def)
next
  case (Vec_Push v)
  with try_push [OF at g, of v] show ?thesis by (simp add: seq_post_def)
next
  case (Vec_Extend xs)
  with try_extend [OF at g, of xs] show ?thesis by (simp add: seq_post_def)
next
  case (Vec_Remove i)
  show ?thesis
  proof (cases "i < length (av_values a)")
    case True
    then have "length (remove_at i (av_values a)) \<le> length (av_values a)" by (simp add: remove_at_length)
    from reclaim_to [OF at this] True Vec_Remove show ?thesis
      by (simp add: vec_remove_def case_prod_beta' runs_def) force
  qed (use at Vec_Remove in \<open>simp add: vec_remove_def\<close>)
next
  case Vec_Pop
  have "length (fst (list_pop (av_values a))) \<le> length (av_values a)" by (simp add: list_pop_def)
  from reclaim_to [OF at this] Vec_Pop show ?thesis
    by (simp add: vec_pop_def case_prod_beta' runs_def list_pop_def) force
next
  case (Vec_Retain keep)
  from reclaim_to [OF at, of "filter keep (av_values a)"] Vec_Retain show ?thesis
    by (simp add: vec_retain_def case_prod_beta')
next
  case Vec_Clear
  from reclaim_to [OF at, of "[]"] Vec_Clear show ?thesis
    by (simp add: vec_clear_def case_prod_beta')
next
  case Vec_Reclaim
  from reclaim_to [OF at, of "av_values a"] Vec_Reclaim show ?thesis
    by (simp add: case_prod_beta')
qed (use at in \<open>auto simp: vec_push_reserved_def vec_remove_retaining_capacity_def vec_retain_capacity_def
      vec_clear_retaining_capacity_def vec_get_mut_def vec_get_def adm_at_def adm_ok_def remove_at_length
      intro: order_trans [OF length_filter_le]\<close>)

lemma vec_trace:
  assumes "adm_at hinv R C ly h a" "\<forall>(g, c) \<in> set cs. grant_ok g"
  shows "runs (vec_trace hp ly cs a h) (\<lambda>(h', a', rs). adm_at hinv R C ly h' a' \<and> av_class a' = av_class a \<and>
    steps list_step (map snd cs) (av_values a) rs (av_values a') \<and>
    (cs \<noteq> [] \<and> vec_reclaims (snd (last cs)) \<and> av_values a' = [] \<longrightarrow> av_capacity a' = 0))"
  using assms
proof (induction cs arbitrary: a h)
  case (Cons x cs)
  obtain g c where x: "x = (g, c)" by fastforce
  have g: "grant_ok g" using Cons.prems(2) x by simp
  from vec_exec [OF Cons.prems(1) g, of c]
  obtain h1 a1 r where 1: "vec_exec hp ly g c a h = Some (h1, a1, r)" "adm_at hinv R C ly h1 a1"
    "av_class a1 = av_class a" "list_step c (av_values a) r (av_values a1)"
    "vec_reclaims c \<and> av_values a1 = [] \<longrightarrow> av_capacity a1 = 0" by (auto simp: runs_def)
  from Cons.IH [OF 1(2)] Cons.prems(2)
  obtain h2 a2 rs where 2: "vec_trace hp ly cs a1 h1 = Some (h2, a2, rs)" "adm_at hinv R C ly h2 a2"
    "av_class a2 = av_class a1" "steps list_step (map snd cs) (av_values a1) rs (av_values a2)"
    "cs \<noteq> [] \<and> vec_reclaims (snd (last cs)) \<and> av_values a2 = [] \<longrightarrow> av_capacity a2 = 0" by (auto simp: runs_def)
  have "a2 = a1" if "cs = []" using 2(1) that by simp
  with 1 2 x show ?case by auto
qed simp

end

end
