(* ===== verification/AdmittedDeque.thy ===== *)
theory AdmittedDeque
  imports Admitted
begin

text \<open>
  \<open>AdmittedDeque\<close> of \<^verbatim>\<open>kernel/mm/admitted.rs\<close>: a FIFO over one ring allocation. It has the fields of
  \<open>AdmittedVec\<close>, its elements in queue order, and repeats the vector's preparation and
  installation code; the lemmas \<open>deque_as_vec\<close> identify the two, and the queue's own operations
  are proved to be those of a double-ended list.
\<close>

section \<open>Preparation and installation\<close>

type_synonym 'a admitted_deque = "'a admitted"

definition deque_new :: "heap_class \<Rightarrow> 'a admitted_deque" where
  "deque_new cls = \<lparr>av_values = [], av_capacity = 0, av_charge = None, av_class = cls\<rparr>"

definition deque_prepared_try_new ::
  "'h heap_calls \<Rightarrow> elem_layout \<Rightarrow> (usize \<Rightarrow> usize option) \<Rightarrow> heap_class \<Rightarrow> usize \<Rightarrow> 'h \<Rightarrow>
   ('h \<times> (admitted_alloc_error + prepared_capacity)) option" where
  "deque_prepared_try_new hp ly g cls target h = do {
     (h1, r) \<leftarrow> reserve_vec hp ly cls target h;
     case r of
       Inl e \<Rightarrow> Some (h1, Err e)
     | Inr reservation \<Rightarrow>
         (case g target of
            None \<Rightarrow> abandon hp reservation AllocationFailed h1
          | Some granted \<Rightarrow>
              (case charge_of ly granted of
                 Inl e \<Rightarrow> abandon hp reservation (Admission e) h1
               | Inr actual \<Rightarrow> do {
                   (h2, reservation', res) \<leftarrow> resize_heap hp reservation actual h1;
                   case res of
                     Inl e \<Rightarrow> abandon hp reservation' (Admission e) h2
                   | Inr _ \<Rightarrow> Some (h2, Ok \<lparr>prep_capacity = granted, prep_reservation = reservation'\<rparr>) })) }"

definition deque_prepare_target ::
  "'h heap_calls \<Rightarrow> elem_layout \<Rightarrow> (usize \<Rightarrow> usize option) \<Rightarrow> 'a admitted_deque \<Rightarrow> usize \<Rightarrow> 'h \<Rightarrow>
   ('h \<times> (admitted_alloc_error + prepared_capacity)) option" where
  "deque_prepare_target hp ly g a target h =
     (if target < length (av_values a) then Some (h, Err CapacityInvariant)
      else deque_prepared_try_new hp ly g (av_class a) target h)"

definition deque_prepare_capacity_for ::
  "'h heap_calls \<Rightarrow> elem_layout \<Rightarrow> (usize \<Rightarrow> usize option) \<Rightarrow> 'a admitted_deque \<Rightarrow> usize \<Rightarrow> 'h \<Rightarrow>
   ('h \<times> (admitted_alloc_error + prepared_capacity option)) option" where
  "deque_prepare_capacity_for hp ly g a additional h =
     (case checked_add_usize (length (av_values a)) additional of
        None \<Rightarrow> Some (h, Err (Admission ArithmeticOverflow))
      | Some required \<Rightarrow>
          if required \<le> av_capacity a then Some (h, Ok None)
          else case growth_target (av_capacity a) required of
            Inl e \<Rightarrow> Some (h, Err e)
          | Inr preferred \<Rightarrow> do {
              (h1, r) \<leftarrow> deque_prepare_target hp ly g a preferred h;
              case r of
                Inr p \<Rightarrow> Some (h1, Ok (Some p))
              | Inl e \<Rightarrow>
                  if preferred \<noteq> required
                  then map_option wrap_some (deque_prepare_target hp ly g a required h1)
                  else Some (h1, Err e) })"

definition deque_prepare_exact_capacity ::
  "'h heap_calls \<Rightarrow> elem_layout \<Rightarrow> (usize \<Rightarrow> usize option) \<Rightarrow> 'a admitted_deque \<Rightarrow> usize \<Rightarrow> 'h \<Rightarrow>
   ('h \<times> (admitted_alloc_error + prepared_capacity option)) option" where
  "deque_prepare_exact_capacity hp ly g a required h =
     (if required \<le> av_capacity a then Some (h, Ok None)
      else map_option wrap_some (deque_prepare_target hp ly g a required h))"

text \<open>The live elements move one by one from the front of the old ring to the back of the new
  one.\<close>

fun move_ring :: "'a list \<Rightarrow> 'a list \<Rightarrow> 'a list" where
  "move_ring [] new = new"
| "move_ring (v # old) new = move_ring old (new @ [v])"

definition deque_install_prepared_deferred ::
  "'h heap_calls \<Rightarrow> prepared_capacity \<Rightarrow> 'a admitted_deque \<Rightarrow> 'h \<Rightarrow>
   ('h \<times> 'a admitted_deque \<times> (admitted_alloc_error + retired_capacity)) option" where
  "deque_install_prepared_deferred hp p a h =
     (if prep_capacity p < length (av_values a) \<or> hold_class (prep_reservation p) \<noteq> av_class a
      then do {
        h1 \<leftarrow> drop_heap_reservation hp (prep_reservation p) h;
        Some (h1, a, Err CapacityInvariant) }
      else do {
        (h1, r) \<leftarrow> commit_heap hp (prep_reservation p) h;
        case r of
          Inl _ \<Rightarrow> Some (h1, a, Err CapacityInvariant)
        | Inr replacement_charge \<Rightarrow>
            Some (h1, a\<lparr>av_values := move_ring (av_values a) [], av_capacity := prep_capacity p,
                av_charge := Some replacement_charge\<rparr>,
              Ok \<lparr>ret_capacity = av_capacity a, ret_charge = av_charge a, ret_class = av_class a\<rparr>) })"

definition deque_install_prepared ::
  "'h heap_calls \<Rightarrow> prepared_capacity \<Rightarrow> 'a admitted_deque \<Rightarrow> 'h \<Rightarrow>
   ('h \<times> 'a admitted_deque \<times> (admitted_alloc_error + unit)) option" where
  "deque_install_prepared hp p a h = do {
     (h1, a1, r) \<leftarrow> deque_install_prepared_deferred hp p a h;
     case r of
       Inl e \<Rightarrow> Some (h1, a1, Err e)
     | Inr retired \<Rightarrow> do { h2 \<leftarrow> drop_retired hp retired h1; Some (h2, a1, Ok ()) } }"

definition deque_try_reserve ::
  "'h heap_calls \<Rightarrow> elem_layout \<Rightarrow> (usize \<Rightarrow> usize option) \<Rightarrow> usize \<Rightarrow> 'a admitted_deque \<Rightarrow> 'h \<Rightarrow>
   ('h \<times> 'a admitted_deque \<times> (admitted_alloc_error + unit)) option" where
  "deque_try_reserve hp ly g additional a h = do {
     (h1, r) \<leftarrow> deque_prepare_capacity_for hp ly g a additional h;
     case r of
       Inl e \<Rightarrow> Some (h1, a, Err e)
     | Inr None \<Rightarrow> Some (h1, a, Ok ())
     | Inr (Some p) \<Rightarrow> deque_install_prepared hp p a h1 }"

definition deque_try_reserve_exact ::
  "'h heap_calls \<Rightarrow> elem_layout \<Rightarrow> (usize \<Rightarrow> usize option) \<Rightarrow> usize \<Rightarrow> 'a admitted_deque \<Rightarrow> 'h \<Rightarrow>
   ('h \<times> 'a admitted_deque \<times> (admitted_alloc_error + unit)) option" where
  "deque_try_reserve_exact hp ly g additional a h =
     (case checked_add_usize (length (av_values a)) additional of
        None \<Rightarrow> Some (h, a, Err (Admission ArithmeticOverflow))
      | Some required \<Rightarrow> do {
          (h1, r) \<leftarrow> deque_prepare_exact_capacity hp ly g a required h;
          case r of
            Inl e \<Rightarrow> Some (h1, a, Err e)
          | Inr None \<Rightarrow> Some (h1, a, Ok ())
          | Inr (Some p) \<Rightarrow> deque_install_prepared hp p a h1 })"

section \<open>Queue operations\<close>

definition deque_push_back_reserved :: "'a \<Rightarrow> 'a admitted_deque \<Rightarrow> 'a admitted_deque \<times> ('a + unit)" where
  "deque_push_back_reserved v a =
     (if length (av_values a) = av_capacity a then (a, Err v)
      else (a\<lparr>av_values := av_values a @ [v]\<rparr>, Ok ()))"

definition deque_push_front_reserved :: "'a \<Rightarrow> 'a admitted_deque \<Rightarrow> 'a admitted_deque \<times> ('a + unit)" where
  "deque_push_front_reserved v a =
     (if length (av_values a) = av_capacity a then (a, Err v)
      else (a\<lparr>av_values := v # av_values a\<rparr>, Ok ()))"

definition deque_try_push_back ::
  "'h heap_calls \<Rightarrow> elem_layout \<Rightarrow> (usize \<Rightarrow> usize option) \<Rightarrow> 'a \<Rightarrow> 'a admitted_deque \<Rightarrow> 'h \<Rightarrow>
   ('h \<times> 'a admitted_deque \<times> (admitted_alloc_error \<times> 'a + unit)) option" where
  "deque_try_push_back hp ly g v a h = do {
     (h1, a1, r) \<leftarrow> deque_try_reserve hp ly g 1 a h;
     case r of
       Inl e \<Rightarrow> Some (h1, a1, Err (e, v))
     | Inr _ \<Rightarrow>
         (case deque_push_back_reserved v a1 of
            (a2, Inl v') \<Rightarrow> Some (h1, a2, Err (CapacityInvariant, v'))
          | (a2, Inr _) \<Rightarrow> Some (h1, a2, Ok ())) }"

definition deque_try_push_front ::
  "'h heap_calls \<Rightarrow> elem_layout \<Rightarrow> (usize \<Rightarrow> usize option) \<Rightarrow> 'a \<Rightarrow> 'a admitted_deque \<Rightarrow> 'h \<Rightarrow>
   ('h \<times> 'a admitted_deque \<times> (admitted_alloc_error \<times> 'a + unit)) option" where
  "deque_try_push_front hp ly g v a h = do {
     (h1, a1, r) \<leftarrow> deque_try_reserve hp ly g 1 a h;
     case r of
       Inl e \<Rightarrow> Some (h1, a1, Err (e, v))
     | Inr _ \<Rightarrow>
         (case deque_push_front_reserved v a1 of
            (a2, Inl v') \<Rightarrow> Some (h1, a2, Err (CapacityInvariant, v'))
          | (a2, Inr _) \<Rightarrow> Some (h1, a2, Ok ())) }"

definition deque_pop_front_retaining_capacity :: "'a admitted_deque \<Rightarrow> 'a admitted_deque \<times> 'a option" where
  "deque_pop_front_retaining_capacity a =
     (case av_values a of [] \<Rightarrow> (a, None) | v # vs \<Rightarrow> (a\<lparr>av_values := vs\<rparr>, Some v))"

definition deque_pop_back_retaining_capacity :: "'a admitted_deque \<Rightarrow> 'a admitted_deque \<times> 'a option" where
  "deque_pop_back_retaining_capacity a =
     (case list_pop (av_values a) of (vs, v) \<Rightarrow> (a\<lparr>av_values := vs\<rparr>, v))"

definition deque_remove_retaining_capacity :: "usize \<Rightarrow> 'a admitted_deque \<Rightarrow> 'a admitted_deque \<times> 'a option" where
  "deque_remove_retaining_capacity i a =
     (if i < length (av_values a) then (a\<lparr>av_values := remove_at i (av_values a)\<rparr>, Some (av_values a ! i))
      else (a, None))"

definition deque_retain_capacity :: "('a \<Rightarrow> bool) \<Rightarrow> 'a admitted_deque \<Rightarrow> 'a admitted_deque" where
  "deque_retain_capacity keep a = a\<lparr>av_values := filter keep (av_values a)\<rparr>"

definition deque_clear_retaining_capacity :: "'a admitted_deque \<Rightarrow> 'a admitted_deque" where
  "deque_clear_retaining_capacity a = a\<lparr>av_values := []\<rparr>"

definition deque_take_empty_capacity :: "'a admitted_deque \<Rightarrow> 'a admitted_deque \<times> retired_capacity option" where
  "deque_take_empty_capacity a =
     (if av_values a \<noteq> [] \<or> av_capacity a = 0 then (a, None)
      else (a\<lparr>av_values := [], av_capacity := 0, av_charge := None\<rparr>,
        Some \<lparr>ret_capacity = av_capacity a, ret_charge = av_charge a, ret_class = av_class a\<rparr>))"

definition deque_reclaim_empty_capacity ::
  "'h heap_calls \<Rightarrow> 'a admitted_deque \<Rightarrow> 'h \<Rightarrow> ('h \<times> 'a admitted_deque) option" where
  "deque_reclaim_empty_capacity hp a h =
     (case deque_take_empty_capacity a of
        (a1, None) \<Rightarrow> Some (h, a1)
      | (a1, Some retired) \<Rightarrow> do { h1 \<leftarrow> drop_retired hp retired h; Some (h1, a1) })"

section \<open>The shared code is the vector's\<close>

lemma move_ring: "move_ring old new = new @ old"
  by (induction old new rule: move_ring.induct) simp_all

lemma deque_prepared_as_vec: "deque_prepared_try_new = prepared_try_new"
  by (intro ext) (unfold deque_prepared_try_new_def prepared_try_new_def, rule refl)

lemma deque_install_as_vec: "deque_install_prepared_deferred = vec_install_prepared_deferred"
  by (intro ext) (simp add: deque_install_prepared_deferred_def vec_install_prepared_deferred_def move_ring)

lemma deque_target_as_vec: "deque_prepare_target = vec_prepare_target"
  by (intro ext) (unfold deque_prepare_target_def vec_prepare_target_def deque_prepared_as_vec, rule refl)

lemma deque_growth_as_vec:
  "deque_prepare_capacity_for = vec_prepare_capacity_for"
  "deque_prepare_exact_capacity = vec_prepare_exact_capacity"
  "deque_install_prepared = vec_install_prepared"
  unfolding deque_prepare_capacity_for_def vec_prepare_capacity_for_def
      deque_prepare_exact_capacity_def vec_prepare_exact_capacity_def deque_install_prepared_def
      vec_install_prepared_def deque_target_as_vec deque_install_as_vec
  by (rule refl)+

lemma deque_empty_as_vec: "deque_take_empty_capacity = vec_take_empty_capacity"
  by (intro ext) (unfold deque_take_empty_capacity_def vec_take_empty_capacity_def, rule refl)

lemma deque_reserve_as_vec:
  "deque_try_reserve = vec_try_reserve" "deque_try_reserve_exact = vec_try_reserve_exact"
  "deque_reclaim_empty_capacity = vec_reclaim_if_empty"
  unfolding deque_try_reserve_def vec_try_reserve_def deque_try_reserve_exact_def
      vec_try_reserve_exact_def deque_growth_as_vec
      deque_reclaim_empty_capacity_def vec_reclaim_if_empty_def deque_empty_as_vec
  by (rule refl)+

lemmas deque_as_vec = deque_prepared_as_vec deque_install_as_vec deque_target_as_vec deque_growth_as_vec
  deque_empty_as_vec deque_reserve_as_vec

section \<open>A queue used through any sequence of calls\<close>

datatype 'a deque_call =
    Deque_Reserve usize
  | Deque_ReserveExact usize
  | Deque_PushBack 'a
  | Deque_PushFront 'a
  | Deque_PushBackReserved 'a
  | Deque_PushFrontReserved 'a
  | Deque_PopFront
  | Deque_PopBack
  | Deque_Remove usize
  | Deque_Retain "'a \<Rightarrow> bool"
  | Deque_Clear
  | Deque_Reclaim

definition pushed :: "'h \<Rightarrow> 'a admitted \<times> ('a + unit) \<Rightarrow> ('h \<times> 'a admitted \<times> 'a seq_reply) option" where
  "pushed h ar = Some (h, fst ar, case snd ar of Inl v \<Rightarrow> Seq_Rejected v | Inr _ \<Rightarrow> Seq_Done)"

definition popped :: "'h \<Rightarrow> 'a admitted \<times> 'a option \<Rightarrow> ('h \<times> 'a admitted \<times> 'a seq_reply) option" where
  "popped h av = Some (h, fst av, Seq_Value (snd av))"

fun deque_exec ::
  "'h heap_calls \<Rightarrow> elem_layout \<Rightarrow> (usize \<Rightarrow> usize option) \<Rightarrow> 'a deque_call \<Rightarrow> 'a admitted_deque \<Rightarrow> 'h \<Rightarrow>
   ('h \<times> 'a admitted_deque \<times> 'a seq_reply) option" where
  "deque_exec hp ly g (Deque_Reserve n) a h = map_option unit_reply (deque_try_reserve hp ly g n a h)"
| "deque_exec hp ly g (Deque_ReserveExact n) a h = map_option unit_reply (deque_try_reserve_exact hp ly g n a h)"
| "deque_exec hp ly g (Deque_PushBack v) a h = map_option push_reply (deque_try_push_back hp ly g v a h)"
| "deque_exec hp ly g (Deque_PushFront v) a h = map_option push_reply (deque_try_push_front hp ly g v a h)"
| "deque_exec hp ly g (Deque_PushBackReserved v) a h = pushed h (deque_push_back_reserved v a)"
| "deque_exec hp ly g (Deque_PushFrontReserved v) a h = pushed h (deque_push_front_reserved v a)"
| "deque_exec hp ly g Deque_PopFront a h = popped h (deque_pop_front_retaining_capacity a)"
| "deque_exec hp ly g Deque_PopBack a h = popped h (deque_pop_back_retaining_capacity a)"
| "deque_exec hp ly g (Deque_Remove i) a h = popped h (deque_remove_retaining_capacity i a)"
| "deque_exec hp ly g (Deque_Retain keep) a h = Some (h, deque_retain_capacity keep a, Seq_Done)"
| "deque_exec hp ly g Deque_Clear a h = Some (h, deque_clear_retaining_capacity a, Seq_Done)"
| "deque_exec hp ly g Deque_Reclaim a h =
     map_option (\<lambda>(h, a). (h, a, Seq_Done)) (deque_reclaim_empty_capacity hp a h)"

fun queue_step :: "'a deque_call \<Rightarrow> 'a list \<Rightarrow> 'a seq_reply \<Rightarrow> 'a list \<Rightarrow> bool" where
  "queue_step (Deque_Reserve n) xs r ys \<longleftrightarrow> ys = xs \<and> (r = Seq_Done \<or> (\<exists>e. r = Seq_Failed e))"
| "queue_step (Deque_ReserveExact n) xs r ys \<longleftrightarrow> ys = xs \<and> (r = Seq_Done \<or> (\<exists>e. r = Seq_Failed e))"
| "queue_step (Deque_PushBack v) xs r ys \<longleftrightarrow> r = Seq_Done \<and> ys = xs @ [v] \<or> r = Seq_Rejected v \<and> ys = xs"
| "queue_step (Deque_PushFront v) xs r ys \<longleftrightarrow> r = Seq_Done \<and> ys = v # xs \<or> r = Seq_Rejected v \<and> ys = xs"
| "queue_step (Deque_PushBackReserved v) xs r ys \<longleftrightarrow> r = Seq_Done \<and> ys = xs @ [v] \<or> r = Seq_Rejected v \<and> ys = xs"
| "queue_step (Deque_PushFrontReserved v) xs r ys \<longleftrightarrow> r = Seq_Done \<and> ys = v # xs \<or> r = Seq_Rejected v \<and> ys = xs"
| "queue_step Deque_PopFront xs r ys \<longleftrightarrow>
     (if xs = [] then r = Seq_Value None \<and> ys = [] else r = Seq_Value (Some (hd xs)) \<and> ys = tl xs)"
| "queue_step Deque_PopBack xs r ys \<longleftrightarrow>
     (if xs = [] then r = Seq_Value None \<and> ys = [] else r = Seq_Value (Some (last xs)) \<and> ys = butlast xs)"
| "queue_step (Deque_Remove i) xs r ys \<longleftrightarrow>
     (if i < length xs then r = Seq_Value (Some (xs ! i)) \<and> ys = remove_at i xs else r = Seq_Value None \<and> ys = xs)"
| "queue_step (Deque_Retain keep) xs r ys \<longleftrightarrow> r = Seq_Done \<and> ys = filter keep xs"
| "queue_step Deque_Clear xs r ys \<longleftrightarrow> r = Seq_Done \<and> ys = []"
| "queue_step Deque_Reclaim xs r ys \<longleftrightarrow> r = Seq_Done \<and> ys = xs"

fun deque_trace ::
  "'h heap_calls \<Rightarrow> elem_layout \<Rightarrow> ((usize \<Rightarrow> usize option) \<times> 'a deque_call) list \<Rightarrow> 'a admitted_deque \<Rightarrow> 'h \<Rightarrow>
   ('h \<times> 'a admitted_deque \<times> 'a seq_reply list) option" where
  "deque_trace hp ly [] a h = Some (h, a, [])"
| "deque_trace hp ly ((g, c) # cs) a h = do {
     (h1, a1, r) \<leftarrow> deque_exec hp ly g c a h;
     (h2, a2, rs) \<leftarrow> deque_trace hp ly cs a1 h1;
     Some (h2, a2, r # rs) }"

lemma deque_try_push_back_as_vec: "deque_try_push_back = vec_try_push"
  by (intro ext) (unfold deque_try_push_back_def vec_try_push_def deque_as_vec
      deque_push_back_reserved_def vec_push_reserved_def, rule refl)

context heap_client
begin

lemma try_push_front:
  assumes "adm_at hinv R C ly h a" "grant_ok g"
  shows "runs (map_option push_reply (deque_try_push_front hp ly g v a h))
    (seq_post R C ly a (\<lambda>xs r ys. r = Seq_Done \<and> ys = v # xs \<or> r = Seq_Rejected v \<and> ys = xs))"
  unfolding runs_simps deque_try_push_front_def deque_as_vec
proof (rule runs_mono [OF try_reserve [OF assms]], clarify)
  fix h1 a1 and r :: "admitted_alloc_error + unit"
  assume "reserve_post R C ly a (length (av_values a) + 1) (h1, a1, r)"
  then show "runs (case r of
       Inl e \<Rightarrow> Some (h1, a1, Err (e, v))
     | Inr _ \<Rightarrow>
         (case deque_push_front_reserved v a1 of
            (a2, Inl v') \<Rightarrow> Some (h1, a2, Err (CapacityInvariant, v'))
          | (a2, Inr _) \<Rightarrow> Some (h1, a2, Ok ())))
      (\<lambda>x. seq_post R C ly a (\<lambda>xs r ys. r = Seq_Done \<and> ys = v # xs \<or> r = Seq_Rejected v \<and> ys = xs) (push_reply x))"
    by (cases r) (auto simp: reserve_post_def deque_push_front_reserved_def seq_post_def push_reply_def adm_at_def adm_ok_def)
qed

lemma deque_exec:
  assumes at: "adm_at hinv R C ly h a" and g: "grant_ok g"
  shows "runs (deque_exec hp ly g c a h) (\<lambda>(h', a', r). adm_at hinv R C ly h' a' \<and> av_class a' = av_class a \<and>
    queue_step c (av_values a) r (av_values a') \<and> (c = Deque_Reclaim \<and> av_values a' = [] \<longrightarrow> av_capacity a' = 0))"
proof (cases c)
  case (Deque_Reserve n)
  with reserve_done [OF try_reserve [OF at g]] show ?thesis by (simp add: seq_post_def deque_as_vec)
next
  case (Deque_ReserveExact n)
  with reserve_done [OF try_reserve_exact [OF at g]] show ?thesis by (simp add: seq_post_def deque_as_vec)
next
  case (Deque_PushBack v)
  with try_push [OF at g, of v] show ?thesis by (simp add: seq_post_def deque_try_push_back_as_vec)
next
  case (Deque_PushFront v)
  with try_push_front [OF at g, of v] show ?thesis by (simp add: seq_post_def)
next
  case Deque_PopFront
  with at show ?thesis
    by (cases "av_values a") (auto simp: popped_def deque_pop_front_retaining_capacity_def adm_at_def adm_ok_def)
next
  case Deque_Reclaim
  from reclaim_to [OF at, of "av_values a"] Deque_Reclaim show ?thesis
    by (simp add: case_prod_beta' deque_as_vec)
qed (use at in \<open>auto simp: pushed_def popped_def deque_push_back_reserved_def deque_push_front_reserved_def
      deque_pop_back_retaining_capacity_def list_pop_def deque_remove_retaining_capacity_def
      deque_retain_capacity_def deque_clear_retaining_capacity_def adm_at_def adm_ok_def remove_at_length
      intro: order_trans [OF length_filter_le]\<close>)

lemma deque_trace:
  assumes "adm_at hinv R C ly h a" "\<forall>(g, c) \<in> set cs. grant_ok g"
  shows "runs (deque_trace hp ly cs a h) (\<lambda>(h', a', rs). adm_at hinv R C ly h' a' \<and> av_class a' = av_class a \<and>
    steps queue_step (map snd cs) (av_values a) rs (av_values a') \<and>
    (cs \<noteq> [] \<and> snd (last cs) = Deque_Reclaim \<and> av_values a' = [] \<longrightarrow> av_capacity a' = 0))"
  using assms
proof (induction cs arbitrary: a h)
  case (Cons x cs)
  obtain g c where x: "x = (g, c)" by fastforce
  have g: "grant_ok g" using Cons.prems(2) x by simp
  from deque_exec [OF Cons.prems(1) g, of c]
  obtain h1 a1 r where 1: "deque_exec hp ly g c a h = Some (h1, a1, r)" "adm_at hinv R C ly h1 a1"
    "av_class a1 = av_class a" "queue_step c (av_values a) r (av_values a1)"
    "c = Deque_Reclaim \<and> av_values a1 = [] \<longrightarrow> av_capacity a1 = 0" by (auto simp: runs_def)
  from Cons.IH [OF 1(2)] Cons.prems(2)
  obtain h2 a2 rs where 2: "deque_trace hp ly cs a1 h1 = Some (h2, a2, rs)" "adm_at hinv R C ly h2 a2"
    "av_class a2 = av_class a1" "steps queue_step (map snd cs) (av_values a1) rs (av_values a2)"
    "cs \<noteq> [] \<and> snd (last cs) = Deque_Reclaim \<and> av_values a2 = [] \<longrightarrow> av_capacity a2 = 0" by (auto simp: runs_def)
  have "a2 = a1" if "cs = []" using 2(1) that by simp
  with 1 2 x show ?case by auto
qed simp

end

end
