(* ===== verification/AdmittedMap.thy ===== *)
theory AdmittedMap
  imports Admitted
begin

text \<open>
  \<open>AdmittedMap\<close> and \<open>AdmittedSet\<close> of \<^verbatim>\<open>kernel/mm/admitted.rs\<close>: the ordered map of \<open>FallibleMap\<close> with an
  admitted backing, and the set over it. \<open>as_vec\<close> views a map as the sequence of its entries; the
  growth code is shown to be the vector's under that view, so its contract carries over. The
  allocator outcome is the \<open>vec_alloc\<close> of \<open>FallibleMap\<close>: the admitted map asks it for exact
  backings only.
\<close>

section \<open>Preparation and installation\<close>

record ('k, 'v) admitted_map =
  am_map :: "('k, 'v) ordered_map"
  am_charge :: "heap_charge option"
  am_class :: heap_class

definition map_prepared_try_new ::
  "'h heap_calls \<Rightarrow> elem_layout \<Rightarrow> vec_alloc \<Rightarrow> heap_class \<Rightarrow> usize \<Rightarrow> 'h \<Rightarrow>
   ('h \<times> (admitted_alloc_error + prepared_capacity)) option" where
  "map_prepared_try_new hp ly al cls target h = do {
     (h1, r) \<leftarrow> reserve_vec hp ly cls target h;
     case r of
       Inl e \<Rightarrow> Some (h1, Err e)
     | Inr reservation \<Rightarrow>
         (case om_try_prepare_backing_exact al target of
            Inl _ \<Rightarrow> abandon hp reservation AllocationFailed h1
          | Inr granted \<Rightarrow>
              (case charge_of ly granted of
                 Inl e \<Rightarrow> abandon hp reservation (Admission e) h1
               | Inr actual \<Rightarrow> do {
                   (h2, reservation', res) \<leftarrow> resize_heap hp reservation actual h1;
                   case res of
                     Inl e \<Rightarrow> abandon hp reservation' (Admission e) h2
                   | Inr _ \<Rightarrow> Some (h2, Ok \<lparr>prep_capacity = granted, prep_reservation = reservation'\<rparr>) })) }"

definition map_new :: "heap_class \<Rightarrow> ('k, 'v) admitted_map" where
  "map_new cls = \<lparr>am_map = om_new, am_charge = None, am_class = cls\<rparr>"

definition map_prepare_target ::
  "'h heap_calls \<Rightarrow> elem_layout \<Rightarrow> vec_alloc \<Rightarrow> ('k, 'v) admitted_map \<Rightarrow> usize \<Rightarrow> 'h \<Rightarrow>
   ('h \<times> (admitted_alloc_error + prepared_capacity)) option" where
  "map_prepare_target hp ly al m target h =
     (if target < om_len (am_map m) then Some (h, Err CapacityInvariant)
      else map_prepared_try_new hp ly al (am_class m) target h)"

definition map_prepare_capacity_for ::
  "'h heap_calls \<Rightarrow> elem_layout \<Rightarrow> vec_alloc \<Rightarrow> ('k, 'v) admitted_map \<Rightarrow> usize \<Rightarrow> 'h \<Rightarrow>
   ('h \<times> (admitted_alloc_error + prepared_capacity option)) option" where
  "map_prepare_capacity_for hp ly al m additional h =
     (case checked_add_usize (om_len (am_map m)) additional of
        None \<Rightarrow> Some (h, Err (Admission ArithmeticOverflow))
      | Some required \<Rightarrow>
          if required \<le> map_capacity (am_map m) then Some (h, Ok None)
          else case growth_target (map_capacity (am_map m)) required of
            Inl e \<Rightarrow> Some (h, Err e)
          | Inr preferred \<Rightarrow> do {
              (h1, r) \<leftarrow> map_prepare_target hp ly al m preferred h;
              case r of
                Inr p \<Rightarrow> Some (h1, Ok (Some p))
              | Inl e \<Rightarrow>
                  if preferred \<noteq> required
                  then map_option wrap_some (map_prepare_target hp ly al m required h1)
                  else Some (h1, Err e) })"

definition map_install_prepared_deferred ::
  "'h heap_calls \<Rightarrow> prepared_capacity \<Rightarrow> ('k, 'v) admitted_map \<Rightarrow> 'h \<Rightarrow>
   ('h \<times> ('k, 'v) admitted_map \<times> (admitted_alloc_error + retired_capacity)) option" where
  "map_install_prepared_deferred hp p m h =
     (if prep_capacity p < om_len (am_map m) \<or> hold_class (prep_reservation p) \<noteq> am_class m
      then do {
        h1 \<leftarrow> drop_heap_reservation hp (prep_reservation p) h;
        Some (h1, m, Err CapacityInvariant) }
      else do {
        (h1, r) \<leftarrow> commit_heap hp (prep_reservation p) h;
        case r of
          Inl _ \<Rightarrow> Some (h1, m, Err CapacityInvariant)
        | Inr replacement_charge \<Rightarrow>
            (case om_replace_backing_deferred (prep_capacity p) (am_map m) of
               (om, Inl _) \<Rightarrow> do {
                 h2 \<leftarrow> drop_heap_charge hp replacement_charge h1;
                 Some (h2, m\<lparr>am_map := om\<rparr>, Err CapacityInvariant) }
             | (om, Inr retired_backing) \<Rightarrow>
                 Some (h1, m\<lparr>am_map := om, am_charge := Some replacement_charge\<rparr>,
                   Ok \<lparr>ret_capacity = retired_backing, ret_charge = am_charge m, ret_class = am_class m\<rparr>)) })"

definition map_install_prepared ::
  "'h heap_calls \<Rightarrow> prepared_capacity \<Rightarrow> ('k, 'v) admitted_map \<Rightarrow> 'h \<Rightarrow>
   ('h \<times> ('k, 'v) admitted_map \<times> (admitted_alloc_error + unit)) option" where
  "map_install_prepared hp p m h = do {
     (h1, m1, r) \<leftarrow> map_install_prepared_deferred hp p m h;
     case r of
       Inl e \<Rightarrow> Some (h1, m1, Err e)
     | Inr retired \<Rightarrow> do { h2 \<leftarrow> drop_retired hp retired h1; Some (h2, m1, Ok ()) } }"

definition map_restore_retired_deferred ::
  "retired_capacity \<Rightarrow> ('k, 'v) admitted_map \<Rightarrow>
   ('k, 'v) admitted_map \<times> (retired_capacity + retired_capacity)" where
  "map_restore_retired_deferred retired m =
     (if ret_capacity retired < om_len (am_map m) \<or> ret_class retired \<noteq> am_class m then (m, Err retired)
      else case om_replace_backing_deferred (ret_capacity retired) (am_map m) of
        (om, Inl backing) \<Rightarrow>
          (m\<lparr>am_map := om\<rparr>, Err \<lparr>ret_capacity = backing, ret_charge = ret_charge retired, ret_class = am_class m\<rparr>)
      | (om, Inr displaced) \<Rightarrow>
          (m\<lparr>am_map := om, am_charge := ret_charge retired\<rparr>,
           Ok \<lparr>ret_capacity = displaced, ret_charge = am_charge m, ret_class = am_class m\<rparr>))"

definition map_ensure_capacity_for ::
  "'h heap_calls \<Rightarrow> elem_layout \<Rightarrow> vec_alloc \<Rightarrow> usize \<Rightarrow> ('k, 'v) admitted_map \<Rightarrow> 'h \<Rightarrow>
   ('h \<times> ('k, 'v) admitted_map \<times> (admitted_alloc_error + unit)) option" where
  "map_ensure_capacity_for hp ly al additional m h = do {
     (h1, r) \<leftarrow> map_prepare_capacity_for hp ly al m additional h;
     case r of
       Inl e \<Rightarrow> Some (h1, m, Err e)
     | Inr None \<Rightarrow> Some (h1, m, Ok ())
     | Inr (Some p) \<Rightarrow> map_install_prepared hp p m h1 }"

definition map_try_reserve ::
  "'h heap_calls \<Rightarrow> elem_layout \<Rightarrow> vec_alloc \<Rightarrow> usize \<Rightarrow> ('k, 'v) admitted_map \<Rightarrow> 'h \<Rightarrow>
   ('h \<times> ('k, 'v) admitted_map \<times> (admitted_alloc_error + unit)) option" where
  "map_try_reserve hp ly al additional m h = map_ensure_capacity_for hp ly al additional m h"

section \<open>Construction from a sorted vector\<close>

fun strictly_ascending :: "('k::linorder \<times> 'v) list \<Rightarrow> bool" where
  "strictly_ascending (a # b # es) = (fst a < fst b \<and> strictly_ascending (b # es))"
| "strictly_ascending _ = True"

text \<open>A failed build hands mapped the reservation when it is still armed.\<close>

definition map_from_sorted_vec_with_reservation ::
  "'h heap_calls \<Rightarrow> elem_layout \<Rightarrow> ('k::linorder \<times> 'v) list \<Rightarrow> usize \<Rightarrow> heap_reservation \<Rightarrow> 'h \<Rightarrow>
   ('h \<times> (heap_reservation option \<times> admitted_alloc_error + ('k, 'v) admitted_map)) option" where
  "map_from_sorted_vec_with_reservation hp ly es capacity reservation h =
     (if \<not> strictly_ascending es then Some (h, Err (Some reservation, CapacityInvariant))
      else case charge_of ly capacity of
        Inl e \<Rightarrow> Some (h, Err (Some reservation, Admission e))
      | Inr capacity_bytes \<Rightarrow> do {
          (h1, reservation1, r) \<leftarrow> resize_heap hp reservation capacity_bytes h;
          case r of
            Inl e \<Rightarrow> Some (h1, Err (Some reservation1, Admission e))
          | Inr _ \<Rightarrow> do {
              (h2, k) \<leftarrow> commit_heap hp reservation1 h1;
              case k of
                Inl e \<Rightarrow> Some (h2, Err (None, Admission e))
              | Inr c \<Rightarrow> Some (h2, Ok \<lparr>am_map = om_from_sorted_vec es capacity,
                    am_charge = Some c, am_class = hold_class reservation1\<rparr>) } })"

definition map_from_sorted_vec_charged ::
  "'h heap_calls \<Rightarrow> elem_layout \<Rightarrow> ('k::linorder \<times> 'v) list \<Rightarrow> usize \<Rightarrow> heap_class \<Rightarrow> 'h \<Rightarrow>
   ('h \<times> (heap_reservation option \<times> admitted_alloc_error + ('k, 'v) admitted_map)) option" where
  "map_from_sorted_vec_charged hp ly es capacity cls h =
     (case charge_of ly capacity of
        Inl e \<Rightarrow> Some (h, Err (None, Admission e))
      | Inr capacity_bytes \<Rightarrow> do {
          (h1, r) \<leftarrow> reserve_heap hp cls capacity_bytes h;
          case r of
            Inl e \<Rightarrow> Some (h1, Err (None, Admission e))
          | Inr reservation \<Rightarrow> map_from_sorted_vec_with_reservation hp ly es capacity reservation h1 })"

section \<open>Map operations\<close>

definition map_insert_unique_reserved ::
  "'k::linorder \<Rightarrow> 'v \<Rightarrow> ('k, 'v) admitted_map \<Rightarrow> ('k, 'v) admitted_map \<times> ('k \<times> 'v + unit)" where
  "map_insert_unique_reserved key v m =
     (case om_insert_unique_reserved key v (am_map m) of (om, r) \<Rightarrow> (m\<lparr>am_map := om\<rparr>, r))"

definition map_try_insert ::
  "'h heap_calls \<Rightarrow> elem_layout \<Rightarrow> vec_alloc \<Rightarrow> 'k::linorder \<Rightarrow> 'v \<Rightarrow> ('k, 'v) admitted_map \<Rightarrow> 'h \<Rightarrow>
   ('h \<times> ('k, 'v) admitted_map \<times> (admitted_alloc_error + 'v option)) option" where
  "map_try_insert hp ly al key v m h =
     (if om_contains_key (am_map m) key then
        (case om_try_insert al key v (am_map m) of
           (om, Inl _) \<Rightarrow> Some (h, m\<lparr>am_map := om\<rparr>, Err CapacityInvariant)
         | (om, Inr old) \<Rightarrow> Some (h, m\<lparr>am_map := om\<rparr>, Ok old))
      else do {
        (h1, m1, r) \<leftarrow> map_ensure_capacity_for hp ly al 1 m h;
        case r of
          Inl e \<Rightarrow> Some (h1, m1, Err e)
        | Inr _ \<Rightarrow>
            (case map_insert_unique_reserved key v m1 of
               (m2, Inl _) \<Rightarrow> Some (h1, m2, Err CapacityInvariant)
             | (m2, Inr _) \<Rightarrow> Some (h1, m2, Ok None)) })"

definition map_take_empty_capacity ::
  "('k, 'v) admitted_map \<Rightarrow> ('k, 'v) admitted_map \<times> retired_capacity option" where
  "map_take_empty_capacity m =
     (if om_len (am_map m) \<noteq> 0 \<or> map_capacity (am_map m) = 0 then (m, None)
      else case om_replace_backing_deferred 0 (am_map m) of
        (om, Inl _) \<Rightarrow> (m\<lparr>am_map := om\<rparr>, None)
      | (om, Inr retired_backing) \<Rightarrow>
          (m\<lparr>am_map := om, am_charge := None\<rparr>,
           Some \<lparr>ret_capacity = retired_backing, ret_charge = am_charge m, ret_class = am_class m\<rparr>))"

definition map_reclaim_empty_capacity ::
  "'h heap_calls \<Rightarrow> ('k, 'v) admitted_map \<Rightarrow> 'h \<Rightarrow> ('h \<times> ('k, 'v) admitted_map) option" where
  "map_reclaim_empty_capacity hp m h =
     (case map_take_empty_capacity m of
        (m1, None) \<Rightarrow> Some (h, m1)
      | (m1, Some retired) \<Rightarrow> do { h1 \<leftarrow> drop_retired hp retired h; Some (h1, m1) })"

definition map_remove_retaining_capacity ::
  "'k::linorder \<Rightarrow> ('k, 'v) admitted_map \<Rightarrow> ('k, 'v) admitted_map \<times> 'v option" where
  "map_remove_retaining_capacity key m =
     (case om_remove key (am_map m) of (om, v) \<Rightarrow> (m\<lparr>am_map := om\<rparr>, v))"

definition map_remove ::
  "'h heap_calls \<Rightarrow> 'k::linorder \<Rightarrow> ('k, 'v) admitted_map \<Rightarrow> 'h \<Rightarrow> ('h \<times> ('k, 'v) admitted_map \<times> 'v option) option"
where
  "map_remove hp key m h =
     (case map_remove_retaining_capacity key m of (m1, v) \<Rightarrow> do {
        (h1, m2) \<leftarrow> map_reclaim_empty_capacity hp m1 h; Some (h1, m2, v) })"

definition map_remove_entry_retaining_capacity ::
  "'k::linorder \<Rightarrow> ('k, 'v) admitted_map \<Rightarrow> ('k, 'v) admitted_map \<times> ('k \<times> 'v) option" where
  "map_remove_entry_retaining_capacity key m =
     (case om_remove_entry key (am_map m) of (om, v) \<Rightarrow> (m\<lparr>am_map := om\<rparr>, v))"

definition map_remove_entry ::
  "'h heap_calls \<Rightarrow> 'k::linorder \<Rightarrow> ('k, 'v) admitted_map \<Rightarrow> 'h \<Rightarrow>
   ('h \<times> ('k, 'v) admitted_map \<times> ('k \<times> 'v) option) option" where
  "map_remove_entry hp key m h =
     (case map_remove_entry_retaining_capacity key m of (m1, v) \<Rightarrow> do {
        (h1, m2) \<leftarrow> map_reclaim_empty_capacity hp m1 h; Some (h1, m2, v) })"

definition map_retain ::
  "'h heap_calls \<Rightarrow> ('k \<Rightarrow> 'v \<Rightarrow> bool) \<Rightarrow> ('k, 'v) admitted_map \<Rightarrow> 'h \<Rightarrow> ('h \<times> ('k, 'v) admitted_map) option" where
  "map_retain hp keep m h = map_reclaim_empty_capacity hp (m\<lparr>am_map := om_retain keep (am_map m)\<rparr>) h"

definition map_clear ::
  "'h heap_calls \<Rightarrow> ('k, 'v) admitted_map \<Rightarrow> 'h \<Rightarrow> ('h \<times> ('k, 'v) admitted_map) option" where
  "map_clear hp m h = map_reclaim_empty_capacity hp (m\<lparr>am_map := om_clear (am_map m)\<rparr>) h"

definition map_get :: "('k::linorder, 'v) admitted_map \<Rightarrow> 'k \<Rightarrow> 'v option" where
  "map_get m key = om_get (am_map m) key"

definition map_get_mut :: "('k::linorder, 'v) admitted_map \<Rightarrow> 'k \<Rightarrow> ('v \<Rightarrow> 'v) \<Rightarrow> ('k, 'v) admitted_map" where
  "map_get_mut m key f = m\<lparr>am_map := om_get_mut (am_map m) key f\<rparr>"

definition map_contains_key :: "('k::linorder, 'v) admitted_map \<Rightarrow> 'k \<Rightarrow> bool" where
  "map_contains_key m key = om_contains_key (am_map m) key"

definition map_range :: "('k::linorder, 'v) admitted_map \<Rightarrow> 'k bound \<Rightarrow> 'k bound \<Rightarrow> ('k \<times> 'v) list" where
  "map_range m s e = om_range (am_map m) s e"

definition map_range_mut ::
  "('k::linorder, 'v) admitted_map \<Rightarrow> 'k bound \<Rightarrow> 'k bound \<Rightarrow> ('k \<Rightarrow> 'v \<Rightarrow> 'v) \<Rightarrow> ('k, 'v) admitted_map" where
  "map_range_mut m s e f = m\<lparr>am_map := om_range_mut (am_map m) s e f\<rparr>"

section \<open>Growth is the vector's\<close>

definition as_vec :: "('k, 'v) admitted_map \<Rightarrow> ('k \<times> 'v) admitted" where
  "as_vec m = \<lparr>av_values = entries (am_map m), av_capacity = map_capacity (am_map m),
     av_charge = am_charge m, av_class = am_class m\<rparr>"

definition of_vec :: "('k \<times> 'v) admitted \<Rightarrow> ('k, 'v) admitted_map" where
  "of_vec a = \<lparr>am_map = \<lparr>entries = av_values a, map_capacity = av_capacity a\<rparr>,
     am_charge = av_charge a, am_class = av_class a\<rparr>"

lemma of_as_vec [simp]: "of_vec (as_vec m) = m" "as_vec (of_vec a) = a"
  by (simp_all add: of_vec_def as_vec_def)

lemma as_vec_sel [simp]:
  "av_values (as_vec m) = entries (am_map m)" "av_capacity (as_vec m) = map_capacity (am_map m)"
  "av_charge (as_vec m) = am_charge m" "av_class (as_vec m) = am_class m"
  by (simp_all add: as_vec_def)

lemma map_prepared_as_vec: "map_prepared_try_new hp ly al = prepared_try_new hp ly (grant_exact al)"
proof (intro ext)
  fix cls target h
  show "map_prepared_try_new hp ly al cls target h = prepared_try_new hp ly (grant_exact al) cls target h"
    unfolding map_prepared_try_new_def prepared_try_new_def om_try_prepare_backing_exact_def
    by (cases "grant_exact al target") (simp_all add: split_def split: sum.splits)
qed

lemma map_target_as_vec:
  "map_prepare_target hp ly al m = vec_prepare_target hp ly (grant_exact al) (as_vec m)"
  by (intro ext) (unfold map_prepare_target_def vec_prepare_target_def map_prepared_as_vec om_len_def as_vec_sel, rule refl)

lemma map_growth_as_vec:
  "map_prepare_capacity_for hp ly al m = vec_prepare_capacity_for hp ly (grant_exact al) (as_vec m)"
  by (intro ext) (unfold map_prepare_capacity_for_def vec_prepare_capacity_for_def map_target_as_vec
      om_len_def as_vec_sel, rule refl)

definition mapped :: "('h \<times> ('k \<times> 'v) admitted \<times> 'r) option \<Rightarrow> ('h \<times> ('k, 'v) admitted_map \<times> 'r) option" where
  "mapped = map_option (\<lambda>(h, a, r). (h, of_vec a, r))"

lemma mapped_bind:
  "mapped (Option.bind x f) = Option.bind x (\<lambda>y. mapped (f y))"
  "Option.bind (mapped y) g = Option.bind y (\<lambda>(h, a, r). g (h, of_vec a, r))"
  by (cases x, simp_all add: mapped_def) (cases y, simp_all add: split_def)

lemma map_install_as_vec:
  "map_install_prepared_deferred hp p m h = mapped (vec_install_prepared_deferred hp p (as_vec m) h)"
proof (cases "prep_capacity p < om_len (am_map m) \<or> hold_class (prep_reservation p) \<noteq> am_class m")
  case True
  then show ?thesis
    unfolding map_install_prepared_deferred_def vec_install_prepared_deferred_def
    by (simp add: om_len_def mapped_bind) (simp add: mapped_def)
next
  case False
  then show ?thesis
    unfolding map_install_prepared_deferred_def vec_install_prepared_deferred_def
    by (cases "commit_heap hp (prep_reservation p) h"; cases m; cases "am_map m")
      (auto simp: om_len_def om_replace_backing_deferred_def mapped_def of_vec_def as_vec_def split: sum.splits)
qed

lemma map_install_drop_as_vec:
  "map_install_prepared hp p m h = mapped (vec_install_prepared hp p (as_vec m) h)"
  unfolding map_install_prepared_def vec_install_prepared_def map_install_as_vec mapped_bind
  by (rule bind_option_cong) (auto simp: mapped_def map_conv_bind_option split: sum.splits)

lemma map_reserve_as_vec:
  "map_ensure_capacity_for hp ly al n m h = mapped (vec_try_reserve hp ly (grant_exact al) n (as_vec m) h)"
  unfolding map_ensure_capacity_for_def vec_try_reserve_def map_growth_as_vec mapped_bind map_install_drop_as_vec
  by (rule bind_option_cong) (auto simp: mapped_def split: sum.splits option.splits)

lemma map_take_empty_as_vec:
  "map_take_empty_capacity m = (case vec_take_empty_capacity (as_vec m) of (a, r) \<Rightarrow> (of_vec a, r))"
  by (auto simp: map_take_empty_capacity_def vec_take_empty_capacity_def om_len_def om_replace_backing_deferred_def
      of_vec_def as_vec_def)

lemma map_reclaim_as_vec:
  "map_reclaim_empty_capacity hp m h = map_option (\<lambda>(h, a). (h, of_vec a)) (vec_reclaim_if_empty hp (as_vec m) h)"
  unfolding map_reclaim_empty_capacity_def vec_reclaim_if_empty_def map_take_empty_as_vec
  by (auto simp: split_def map_conv_bind_option comp_def split: option.splits)

section \<open>A map used through any sequence of calls\<close>

datatype ('k, 'v) amap_call =
    AMap_Insert 'k 'v
  | AMap_InsertUnique 'k 'v
  | AMap_Remove 'k
  | AMap_RemoveRetaining 'k
  | AMap_RemoveEntry 'k
  | AMap_RemoveEntryRetaining 'k
  | AMap_Update 'k "'v \<Rightarrow> 'v"
  | AMap_Get 'k
  | AMap_Contains 'k
  | AMap_Range "'k bound" "'k bound"
  | AMap_RangeMut "'k bound" "'k bound" "'k \<Rightarrow> 'v \<Rightarrow> 'v"
  | AMap_Retain "'k \<Rightarrow> 'v \<Rightarrow> bool"
  | AMap_Reserve usize
  | AMap_Reclaim
  | AMap_Clear

text \<open>The abstract call on the finite map: admission is not visible in it.\<close>

fun amap_spec :: "('k, 'v) amap_call \<Rightarrow> ('k, 'v) om_call" where
  "amap_spec (AMap_Insert k v) = Call_Insert k v"
| "amap_spec (AMap_InsertUnique k v) = Call_InsertUnique k v"
| "amap_spec (AMap_Remove k) = Call_Remove k"
| "amap_spec (AMap_RemoveRetaining k) = Call_Remove k"
| "amap_spec (AMap_RemoveEntry k) = Call_RemoveEntry k"
| "amap_spec (AMap_RemoveEntryRetaining k) = Call_RemoveEntry k"
| "amap_spec (AMap_Update k f) = Call_Update k f"
| "amap_spec (AMap_Get k) = Call_Get k"
| "amap_spec (AMap_Contains k) = Call_Contains k"
| "amap_spec (AMap_Range s e) = Call_Range s e"
| "amap_spec (AMap_RangeMut s e f) = Call_RangeMut s e f"
| "amap_spec (AMap_Retain keep) = Call_Retain keep"
| "amap_spec (AMap_Reserve n) = Call_Reserve n"
| "amap_spec AMap_Reclaim = Call_Reserve 0"
| "amap_spec AMap_Clear = Call_Clear"

definition finished :: "'h \<times> ('k, 'v) admitted_map \<Rightarrow> 'h \<times> ('k, 'v) admitted_map \<times> ('k, 'v) om_reply" where
  "finished hm = (fst hm, snd hm, Reply_Done)"

fun amap_exec ::
  "'h heap_calls \<Rightarrow> elem_layout \<Rightarrow> vec_alloc \<Rightarrow> ('k::linorder, 'v) amap_call \<Rightarrow> ('k, 'v) admitted_map \<Rightarrow> 'h \<Rightarrow>
   ('h \<times> ('k, 'v) admitted_map \<times> ('k, 'v) om_reply) option" where
  "amap_exec hp ly al (AMap_Insert k v) m h =
     map_option (\<lambda>(h, m, r). (h, m, case r of Inl _ \<Rightarrow> Reply_Alloc_Error | Inr old \<Rightarrow> Reply_Value old))
       (map_try_insert hp ly al k v m h)"
| "amap_exec hp ly al (AMap_InsertUnique k v) m h =
     (case map_insert_unique_reserved k v m of
        (m', Inl (k', v')) \<Rightarrow> Some (h, m', Reply_Returned k' v') | (m', Inr _) \<Rightarrow> Some (h, m', Reply_Done))"
| "amap_exec hp ly al (AMap_Remove k) m h =
     map_option (\<lambda>(h, m, v). (h, m, Reply_Value v)) (map_remove hp k m h)"
| "amap_exec hp ly al (AMap_RemoveRetaining k) m h =
     (case map_remove_retaining_capacity k m of (m', v) \<Rightarrow> Some (h, m', Reply_Value v))"
| "amap_exec hp ly al (AMap_RemoveEntry k) m h =
     map_option (\<lambda>(h, m, v). (h, m, Reply_Entry v)) (map_remove_entry hp k m h)"
| "amap_exec hp ly al (AMap_RemoveEntryRetaining k) m h =
     (case map_remove_entry_retaining_capacity k m of (m', v) \<Rightarrow> Some (h, m', Reply_Entry v))"
| "amap_exec hp ly al (AMap_Update k f) m h = Some (h, map_get_mut m k f, Reply_Done)"
| "amap_exec hp ly al (AMap_Get k) m h = Some (h, m, Reply_Value (map_get m k))"
| "amap_exec hp ly al (AMap_Contains k) m h = Some (h, m, Reply_Bool (map_contains_key m k))"
| "amap_exec hp ly al (AMap_Range s e) m h = Some (h, m, Reply_Entries (map_range m s e))"
| "amap_exec hp ly al (AMap_RangeMut s e f) m h = Some (h, map_range_mut m s e f, Reply_Done)"
| "amap_exec hp ly al (AMap_Retain keep) m h = map_option finished (map_retain hp keep m h)"
| "amap_exec hp ly al (AMap_Reserve n) m h =
     map_option (\<lambda>(h, m, r). (h, m, case r of Inl _ \<Rightarrow> Reply_Alloc_Error | Inr _ \<Rightarrow> Reply_Done))
       (map_try_reserve hp ly al n m h)"
| "amap_exec hp ly al AMap_Reclaim m h = map_option finished (map_reclaim_empty_capacity hp m h)"
| "amap_exec hp ly al AMap_Clear m h = map_option finished (map_clear hp m h)"

fun amap_trace ::
  "'h heap_calls \<Rightarrow> elem_layout \<Rightarrow> (vec_alloc \<times> ('k::linorder, 'v) amap_call) list \<Rightarrow> ('k, 'v) admitted_map \<Rightarrow> 'h \<Rightarrow>
   ('h \<times> ('k, 'v) admitted_map \<times> ('k, 'v) om_reply list) option" where
  "amap_trace hp ly [] m h = Some (h, m, [])"
| "amap_trace hp ly ((al, c) # cs) m h = do {
     (h1, m1, r) \<leftarrow> amap_exec hp ly al c m h;
     (h2, m2, rs) \<leftarrow> amap_trace hp ly cs m1 h1;
     Some (h2, m2, r # rs) }"

fun amap_reclaims :: "('k, 'v) amap_call \<Rightarrow> bool" where
  "amap_reclaims (AMap_Remove _) = True"
| "amap_reclaims (AMap_RemoveEntry _) = True"
| "amap_reclaims (AMap_Retain _) = True"
| "amap_reclaims AMap_Reclaim = True"
| "amap_reclaims AMap_Clear = True"
| "amap_reclaims _ = False"

definition amap_at ::
  "('h \<Rightarrow> heap_reservation multiset \<Rightarrow> heap_charge multiset \<Rightarrow> bool) \<Rightarrow> heap_reservation multiset \<Rightarrow>
   heap_charge multiset \<Rightarrow> elem_layout \<Rightarrow> 'h \<Rightarrow> ('k::linorder, 'v) admitted_map \<Rightarrow> bool" where
  "amap_at hinv R C ly h m \<longleftrightarrow> adm_at hinv R C ly h (as_vec m) \<and> om_wf (am_map m)"

abbreviation amap_abs :: "('k, 'v) admitted_map \<Rightarrow> 'k \<rightharpoonup> 'v" where
  "amap_abs m \<equiv> om_abs (am_map m)"

lemma grant_exact_ok: "allocs_ok al \<Longrightarrow> grant_ok (grant_exact al)"
  by (simp add: allocs_ok_def grant_ok_def)

lemma amap_at_update:
  assumes "amap_at hinv R C ly h m" "om_wf om" "map_capacity om = map_capacity (am_map m)"
  shows "amap_at hinv R C ly h (m\<lparr>am_map := om\<rparr>)"
  using assms by (auto simp: amap_at_def adm_at_def adm_ok_def om_wf_def)

lemma capacity_kept [simp]:
  "map_capacity (om_retain keep m) = map_capacity m" "map_capacity (om_get_mut m k f) = map_capacity m"
  "map_capacity (om_clear m) = map_capacity m" "map_capacity (om_range_mut m s e f2) = map_capacity m"
  by (auto simp: om_retain_def om_get_mut_def om_clear_def om_range_mut_def split: sum.splits prod.splits)

context heap_client
begin

definition amap_post where
  "amap_post R C ly m c = (\<lambda>(h', m', r). amap_at hinv R C ly h' m' \<and> am_class m' = am_class m \<and>
     map_step (amap_spec c) (amap_abs m) r (amap_abs m') \<and>
     (amap_reclaims c \<and> entries (am_map m') = [] \<longrightarrow> map_capacity (am_map m') = 0))"

lemma amap_reserve:
  assumes at: "amap_at hinv R C ly h m" and al: "allocs_ok al"
  shows "runs (map_ensure_capacity_for hp ly al n m h) (\<lambda>(h', m', r). amap_at hinv R C ly h' m' \<and>
    am_class m' = am_class m \<and> entries (am_map m') = entries (am_map m) \<and>
    (case r of Inl _ \<Rightarrow> m' = m | Inr _ \<Rightarrow> length (entries (am_map m)) + n \<le> map_capacity (am_map m')))"
proof -
  have v: "adm_at hinv R C ly h (as_vec m)" using at by (simp add: amap_at_def)
  show ?thesis unfolding map_reserve_as_vec mapped_def runs_simps
  proof (rule runs_mono [OF try_reserve [OF v grant_exact_ok [OF al]]])
    fix x
    assume x: "reserve_post R C ly (as_vec m) (length (av_values (as_vec m)) + n) x"
    obtain h' a r where "x = (h', a, r)" by (cases x)
    with x at show "case (case x of (h, a, r) \<Rightarrow> (h, of_vec a, r)) of (h', m', r) \<Rightarrow> amap_at hinv R C ly h' m' \<and>
        am_class m' = am_class m \<and> entries (am_map m') = entries (am_map m) \<and>
        (case r of Inl _ \<Rightarrow> m' = m | Inr _ \<Rightarrow> length (entries (am_map m)) + n \<le> map_capacity (am_map m'))"
      by (cases r) (auto simp: reserve_post_def amap_at_def adm_at_def adm_ok_def om_wf_def of_vec_def)
  qed
qed

lemma amap_reclaim:
  assumes at: "amap_at hinv R C ly h m"
  shows "runs (map_reclaim_empty_capacity hp m h) (\<lambda>(h', m'). amap_at hinv R C ly h' m' \<and>
    am_class m' = am_class m \<and> amap_abs m' = amap_abs m \<and>
    (entries (am_map m') = [] \<longrightarrow> map_capacity (am_map m') = 0))"
proof -
  have v: "adm_at hinv R C ly h (as_vec m)" using at by (simp add: amap_at_def)
  show ?thesis unfolding map_reclaim_as_vec runs_simps
    by (rule runs_mono [OF reclaim [OF v]])
      (use at in \<open>auto simp: amap_at_def adm_at_def adm_ok_def om_wf_def om_abs_def of_vec_def\<close>)
qed

lemma amap_reclaim_after:
  assumes at: "amap_at hinv R C ly h m" and om: "om_wf om" "map_capacity om = map_capacity (am_map m)"
  shows "runs (map_reclaim_empty_capacity hp (m\<lparr>am_map := om\<rparr>) h) (\<lambda>(h', m'). amap_at hinv R C ly h' m' \<and>
    am_class m' = am_class m \<and> amap_abs m' = om_abs om \<and>
    (entries (am_map m') = [] \<longrightarrow> map_capacity (am_map m') = 0))"
  using amap_reclaim [OF amap_at_update [OF assms]] by simp

lemma amap_insert:
  assumes at: "amap_at hinv R C ly h m" and al: "allocs_ok al"
  shows "runs (amap_exec hp ly al (AMap_Insert k v) m h) (amap_post R C ly m (AMap_Insert k v))"
proof -
  have wf: "om_wf (am_map m)" using at by (simp add: amap_at_def)
  show ?thesis
  proof (cases "om_contains_key (am_map m) k")
    case True
    obtain om r where r: "om_try_insert al k v (am_map m) = (om, r)" by fastforce
    from True have "\<exists>i. om_find (am_map m) k = Ok i" by (auto simp: om_contains_key_def split: sum.splits)
    then have "r \<noteq> Err ()" "map_capacity om = map_capacity (am_map m)"
      using r by (auto simp: om_try_insert_def)
    with om_try_insert_ok [OF wf al r] r True at show ?thesis
      by (cases r) (auto simp: map_try_insert_def amap_post_def amap_at_update)
  next
    case False
    then have none: "amap_abs m k = None" using om_contains_abs [OF wf] by simp
    show ?thesis using False
    proof (simp add: map_try_insert_def, intro runs_mono [OF amap_reserve [OF at al]], clarify)
      fix h1 m1 and r :: "admitted_alloc_error + unit"
      assume 1: "amap_at hinv R C ly h1 m1" "am_class m1 = am_class m" "entries (am_map m1) = entries (am_map m)"
        "case r of Inl _ \<Rightarrow> m1 = m | Inr _ \<Rightarrow> length (entries (am_map m)) + Suc 0 \<le> map_capacity (am_map m1)"
      show "runs (case r of Inl e \<Rightarrow> Some (h1, m1, Err e)
          | Inr _ \<Rightarrow> (case map_insert_unique_reserved k v m1 of
               (m2, Inl _) \<Rightarrow> Some (h1, m2, Err CapacityInvariant)
             | (m2, Inr _) \<Rightarrow> Some (h1, m2, Ok None)))
        (\<lambda>x. amap_post R C ly m (AMap_Insert k v)
           (case x of (h, m, r) \<Rightarrow> (h, m, case r of Inl _ \<Rightarrow> Reply_Alloc_Error | Inr old \<Rightarrow> Reply_Value old)))"
      proof (cases r)
        case (Inr u)
        obtain om q where q: "om_insert_unique_reserved k v (am_map m1) = (om, q)" by fastforce
        have "om_wf (am_map m1)" "amap_abs m1 = amap_abs m" using 1 by (simp_all add: amap_at_def om_abs_def)
        with om_insert_unique_ok [OF _ q] q none Inr 1 show ?thesis
          by (auto simp: map_insert_unique_reserved_def amap_post_def amap_at_update split: if_splits)
      qed (use 1 none at in \<open>simp add: amap_post_def\<close>)
    qed
  qed
qed

lemma amap_exec:
  assumes at: "amap_at hinv R C ly h m" and al: "allocs_ok al"
  shows "runs (amap_exec hp ly al c m h) (amap_post R C ly m c)"
proof -
  have wf: "om_wf (am_map m)" using at by (simp add: amap_at_def)
  have re: "runs (map_reclaim_empty_capacity hp (m\<lparr>am_map := om\<rparr>) h) (\<lambda>x. amap_post R C ly m c (fst x, snd x, r))"
    if "om_wf om" "map_capacity om = map_capacity (am_map m)" "map_step (amap_spec c) (amap_abs m) r (om_abs om)" for om r
    by (rule runs_mono [OF amap_reclaim_after [OF at that(1,2)]]) (use that(3) in \<open>auto simp: amap_post_def\<close>)
  note rm = om_remove_ok [OF wf]
  show ?thesis
  proof (cases c)
    case (AMap_Insert k v)
    then show ?thesis using amap_insert [OF at al] by simp
  next
    case (AMap_InsertUnique k v)
    obtain om r where r: "om_insert_unique_reserved k v (am_map m) = (om, r)" by fastforce
    from om_insert_unique_ok [OF wf r] r AMap_InsertUnique at show ?thesis
      by (cases r) (auto simp: map_insert_unique_reserved_def amap_post_def amap_at_update split: if_splits)
  next
    case (AMap_Remove k)
    with re [OF rm(2) rm(6)] rm [of k] show ?thesis
      by (simp add: map_remove_def map_remove_retaining_capacity_def split_def)
  next
    case (AMap_RemoveRetaining k)
    with rm [of k] at show ?thesis
      by (simp add: map_remove_retaining_capacity_def split_def amap_post_def amap_at_update)
  next
    case (AMap_RemoveEntry k)
    with re [OF rm(2) rm(6)] rm [of k] show ?thesis
      by (simp add: map_remove_entry_def map_remove_entry_retaining_capacity_def split_def)
  next
    case (AMap_RemoveEntryRetaining k)
    with rm [of k] at show ?thesis
      by (simp add: map_remove_entry_retaining_capacity_def split_def amap_post_def amap_at_update)
  next
    case (AMap_Update k f)
    with om_get_mut_ok [OF wf, of k f] at show ?thesis
      by (auto simp: map_get_mut_def amap_post_def amap_at_update fun_upd_idem split: option.splits)
  next
    case (AMap_Range s e)
    with om_range_step [OF wf] at show ?thesis by (auto simp: map_range_def amap_post_def)
  next
    case (AMap_RangeMut s e f)
    with om_range_mut_ok [OF wf] at show ?thesis by (simp add: map_range_mut_def amap_post_def amap_at_update)
  next
    case (AMap_Retain keep)
    with re [OF om_retain_ok(1) [OF wf, of keep] capacity_kept(1)] om_retain_ok(2) [OF wf, of keep] show ?thesis
      by (auto simp: map_retain_def finished_def fun_eq_iff split: option.splits)
  next
    case (AMap_Reserve n)
    show ?thesis unfolding AMap_Reserve amap_exec.simps map_try_reserve_def runs_simps
    proof (rule runs_mono [OF amap_reserve [OF at al]], clarify)
      fix h' m' and r :: "admitted_alloc_error + unit"
      assume "amap_at hinv R C ly h' m'" "am_class m' = am_class m" "entries (am_map m') = entries (am_map m)"
      then show "amap_post R C ly m (AMap_Reserve n)
          (h', m', case r of Inl _ \<Rightarrow> Reply_Alloc_Error | Inr _ \<Rightarrow> Reply_Done)"
        by (cases r) (simp_all add: amap_post_def om_abs_def)
    qed
  next
    case AMap_Reclaim
    with re [OF wf] show ?thesis by (simp add: finished_def)
  next
    case AMap_Clear
    with re [of "om_clear (am_map m)"] show ?thesis
      by (simp add: map_clear_def finished_def om_wf_def om_clear_def om_sorted_def om_abs_def)
  qed (use at wf in \<open>simp_all add: amap_post_def map_get_def map_contains_key_def om_get_abs om_contains_abs\<close>)
qed

lemma amap_trace:
  assumes "amap_at hinv R C ly h m" "\<forall>(al, c) \<in> set cs. allocs_ok al"
  shows "runs (amap_trace hp ly cs m h) (\<lambda>(h', m', rs). amap_at hinv R C ly h' m' \<and> am_class m' = am_class m \<and>
    steps map_step (map (amap_spec \<circ> snd) cs) (amap_abs m) rs (amap_abs m'))"
  using assms
proof (induction cs arbitrary: m h)
  case (Cons x cs)
  obtain al c where x: "x = (al, c)" by fastforce
  have al: "allocs_ok al" using Cons.prems(2) x by simp
  from amap_exec [OF Cons.prems(1) al, of c]
  obtain h1 m1 r where 1: "amap_exec hp ly al c m h = Some (h1, m1, r)" "amap_at hinv R C ly h1 m1"
    "am_class m1 = am_class m" "map_step (amap_spec c) (amap_abs m) r (amap_abs m1)"
    by (auto simp: runs_def amap_post_def)
  from Cons.IH [OF 1(2)] Cons.prems(2) 1 x show ?case by (auto simp: runs_def)
qed simp

end

end
