(* ===== verification/AdmittedSet.thy ===== *)
theory AdmittedSet
  imports AdmittedMap
begin

text \<open>
  \<open>AdmittedSet\<close> of \<^verbatim>\<open>kernel/mm/admitted.rs\<close>: a set over \<open>AdmittedMap<K, ()>\<close>. Its operations are
  proved to be those of a mathematical set, through the contract of the map.
\<close>

type_synonym 'k admitted_set = "('k, unit) admitted_map"

definition set_new :: "heap_class \<Rightarrow> 'k admitted_set" where
  "set_new cls = map_new cls"

definition set_contains :: "'k::linorder admitted_set \<Rightarrow> 'k \<Rightarrow> bool" where
  "set_contains s key = map_contains_key s key"

definition set_prepare_capacity_for ::
  "'h heap_calls \<Rightarrow> elem_layout \<Rightarrow> vec_alloc \<Rightarrow> 'k admitted_set \<Rightarrow> usize \<Rightarrow> 'h \<Rightarrow>
   ('h \<times> (admitted_alloc_error + prepared_capacity option)) option" where
  "set_prepare_capacity_for hp ly al s additional h = map_prepare_capacity_for hp ly al s additional h"

definition set_install_prepared_deferred ::
  "'h heap_calls \<Rightarrow> prepared_capacity \<Rightarrow> 'k admitted_set \<Rightarrow> 'h \<Rightarrow>
   ('h \<times> 'k admitted_set \<times> (admitted_alloc_error + retired_capacity)) option" where
  "set_install_prepared_deferred hp p s h = map_install_prepared_deferred hp p s h"

definition set_install_prepared ::
  "'h heap_calls \<Rightarrow> prepared_capacity \<Rightarrow> 'k admitted_set \<Rightarrow> 'h \<Rightarrow>
   ('h \<times> 'k admitted_set \<times> (admitted_alloc_error + unit)) option" where
  "set_install_prepared hp p s h = do {
     (h1, s1, r) \<leftarrow> set_install_prepared_deferred hp p s h;
     case r of
       Inl e \<Rightarrow> Some (h1, s1, Err e)
     | Inr retired \<Rightarrow> do { h2 \<leftarrow> drop_retired hp retired h1; Some (h2, s1, Ok ()) } }"

definition set_restore_retired_deferred ::
  "retired_capacity \<Rightarrow> 'k admitted_set \<Rightarrow> 'k admitted_set \<times> (retired_capacity + retired_capacity)" where
  "set_restore_retired_deferred retired s = map_restore_retired_deferred retired s"

definition set_ensure_capacity_for ::
  "'h heap_calls \<Rightarrow> elem_layout \<Rightarrow> vec_alloc \<Rightarrow> usize \<Rightarrow> 'k admitted_set \<Rightarrow> 'h \<Rightarrow>
   ('h \<times> 'k admitted_set \<times> (admitted_alloc_error + unit)) option" where
  "set_ensure_capacity_for hp ly al additional s h = map_ensure_capacity_for hp ly al additional s h"

definition set_insert_reserved :: "'k::linorder \<Rightarrow> 'k admitted_set \<Rightarrow> 'k admitted_set \<times> ('k + bool)" where
  "set_insert_reserved key s =
     (if map_contains_key s key then (s, Ok False)
      else case map_insert_unique_reserved key () s of
        (s1, Inl (k, _)) \<Rightarrow> (s1, Err k)
      | (s1, Inr _) \<Rightarrow> (s1, Ok True))"

definition set_try_insert ::
  "'h heap_calls \<Rightarrow> elem_layout \<Rightarrow> vec_alloc \<Rightarrow> 'k::linorder \<Rightarrow> 'k admitted_set \<Rightarrow> 'h \<Rightarrow>
   ('h \<times> 'k admitted_set \<times> (admitted_alloc_error + bool)) option" where
  "set_try_insert hp ly al key s h = do {
     (h1, s1, r) \<leftarrow> map_try_insert hp ly al key () s h;
     Some (h1, s1, case r of Inl e \<Rightarrow> Err e | Inr old \<Rightarrow> Ok (old = None)) }"

definition set_remove ::
  "'h heap_calls \<Rightarrow> 'k::linorder \<Rightarrow> 'k admitted_set \<Rightarrow> 'h \<Rightarrow> ('h \<times> 'k admitted_set \<times> bool) option" where
  "set_remove hp key s h = do { (h1, s1, v) \<leftarrow> map_remove hp key s h; Some (h1, s1, v \<noteq> None) }"

definition set_remove_retaining_capacity :: "'k::linorder \<Rightarrow> 'k admitted_set \<Rightarrow> 'k admitted_set \<times> bool" where
  "set_remove_retaining_capacity key s =
     (case map_remove_retaining_capacity key s of (s1, v) \<Rightarrow> (s1, v \<noteq> None))"

definition set_take_empty_capacity :: "'k admitted_set \<Rightarrow> 'k admitted_set \<times> retired_capacity option" where
  "set_take_empty_capacity s = map_take_empty_capacity s"

definition set_reclaim_empty_capacity ::
  "'h heap_calls \<Rightarrow> 'k admitted_set \<Rightarrow> 'h \<Rightarrow> ('h \<times> 'k admitted_set) option" where
  "set_reclaim_empty_capacity hp s h =
     (case set_take_empty_capacity s of
        (s1, None) \<Rightarrow> Some (h, s1)
      | (s1, Some retired) \<Rightarrow> do { h1 \<leftarrow> drop_retired hp retired h; Some (h1, s1) })"

definition set_clear :: "'h heap_calls \<Rightarrow> 'k admitted_set \<Rightarrow> 'h \<Rightarrow> ('h \<times> 'k admitted_set) option" where
  "set_clear hp s h = map_clear hp s h"

section \<open>A set used through any sequence of calls\<close>

datatype 'k set_call =
    Set_Insert 'k
  | Set_InsertReserved 'k
  | Set_Remove 'k
  | Set_RemoveRetaining 'k
  | Set_Contains 'k
  | Set_Reserve usize
  | Set_Reclaim
  | Set_Clear

datatype set_reply = Set_Done | Set_Bool bool | Set_Failed

fun set_exec ::
  "'h heap_calls \<Rightarrow> elem_layout \<Rightarrow> vec_alloc \<Rightarrow> 'k::linorder set_call \<Rightarrow> 'k admitted_set \<Rightarrow> 'h \<Rightarrow>
   ('h \<times> 'k admitted_set \<times> set_reply) option" where
  "set_exec hp ly al (Set_Insert k) s h =
     map_option (\<lambda>(h, s, r). (h, s, case r of Inl _ \<Rightarrow> Set_Failed | Inr b \<Rightarrow> Set_Bool b)) (set_try_insert hp ly al k s h)"
| "set_exec hp ly al (Set_InsertReserved k) s h =
     (case set_insert_reserved k s of (s', r) \<Rightarrow> Some (h, s', case r of Inl _ \<Rightarrow> Set_Failed | Inr b \<Rightarrow> Set_Bool b))"
| "set_exec hp ly al (Set_Remove k) s h = map_option (\<lambda>(h, s, b). (h, s, Set_Bool b)) (set_remove hp k s h)"
| "set_exec hp ly al (Set_RemoveRetaining k) s h =
     (case set_remove_retaining_capacity k s of (s', b) \<Rightarrow> Some (h, s', Set_Bool b))"
| "set_exec hp ly al (Set_Contains k) s h = Some (h, s, Set_Bool (set_contains s k))"
| "set_exec hp ly al (Set_Reserve n) s h =
     map_option (\<lambda>(h, s, r). (h, s, case r of Inl _ \<Rightarrow> Set_Failed | Inr _ \<Rightarrow> Set_Done)) (set_ensure_capacity_for hp ly al n s h)"
| "set_exec hp ly al Set_Reclaim s h = map_option (\<lambda>(h, s). (h, s, Set_Done)) (set_reclaim_empty_capacity hp s h)"
| "set_exec hp ly al Set_Clear s h = map_option (\<lambda>(h, s). (h, s, Set_Done)) (set_clear hp s h)"

fun set_step :: "'k set_call \<Rightarrow> 'k set \<Rightarrow> set_reply \<Rightarrow> 'k set \<Rightarrow> bool" where
  "set_step (Set_Insert k) S r S' \<longleftrightarrow>
     r = Set_Bool (k \<notin> S) \<and> S' = insert k S \<or> r = Set_Failed \<and> k \<notin> S \<and> S' = S"
| "set_step (Set_InsertReserved k) S r S' \<longleftrightarrow>
     r = Set_Bool (k \<notin> S) \<and> S' = insert k S \<or> r = Set_Failed \<and> k \<notin> S \<and> S' = S"
| "set_step (Set_Remove k) S r S' \<longleftrightarrow> r = Set_Bool (k \<in> S) \<and> S' = S - {k}"
| "set_step (Set_RemoveRetaining k) S r S' \<longleftrightarrow> r = Set_Bool (k \<in> S) \<and> S' = S - {k}"
| "set_step (Set_Contains k) S r S' \<longleftrightarrow> r = Set_Bool (k \<in> S) \<and> S' = S"
| "set_step (Set_Reserve n) S r S' \<longleftrightarrow> r \<in> {Set_Done, Set_Failed} \<and> S' = S"
| "set_step Set_Reclaim S r S' \<longleftrightarrow> r = Set_Done \<and> S' = S"
| "set_step Set_Clear S r S' \<longleftrightarrow> r = Set_Done \<and> S' = {}"

fun set_trace ::
  "'h heap_calls \<Rightarrow> elem_layout \<Rightarrow> (vec_alloc \<times> 'k::linorder set_call) list \<Rightarrow> 'k admitted_set \<Rightarrow> 'h \<Rightarrow>
   ('h \<times> 'k admitted_set \<times> set_reply list) option" where
  "set_trace hp ly [] s h = Some (h, s, [])"
| "set_trace hp ly ((al, c) # cs) s h = do {
     (h1, s1, r) \<leftarrow> set_exec hp ly al c s h;
     (h2, s2, rs) \<leftarrow> set_trace hp ly cs s1 h1;
     Some (h2, s2, r # rs) }"

definition aset_abs :: "'k admitted_set \<Rightarrow> 'k set" where
  "aset_abs s = dom (amap_abs s)"

lemma set_reclaim_as_map: "set_reclaim_empty_capacity = map_reclaim_empty_capacity"
  by (intro ext) (unfold set_reclaim_empty_capacity_def map_reclaim_empty_capacity_def set_take_empty_capacity_def, rule refl)

text \<open>What each set call is in terms of the map, and how the map's answer is read.\<close>

fun on_map :: "'k set_call \<Rightarrow> ('k, unit) amap_call" where
  "on_map (Set_Insert k) = AMap_Insert k ()"
| "on_map (Set_InsertReserved k) = AMap_InsertUnique k ()"
| "on_map (Set_Remove k) = AMap_Remove k"
| "on_map (Set_RemoveRetaining k) = AMap_RemoveRetaining k"
| "on_map (Set_Contains k) = AMap_Contains k"
| "on_map (Set_Reserve n) = AMap_Reserve n"
| "on_map Set_Reclaim = AMap_Reclaim"
| "on_map Set_Clear = AMap_Clear"

fun read_reply :: "'k set_call \<Rightarrow> ('k, unit) om_reply \<Rightarrow> set_reply" where
  "read_reply (Set_Insert k) (Reply_Value old) = Set_Bool (old = None)"
| "read_reply (Set_InsertReserved k) Reply_Done = Set_Bool True"
| "read_reply (Set_Remove k) (Reply_Value old) = Set_Bool (old \<noteq> None)"
| "read_reply (Set_RemoveRetaining k) (Reply_Value old) = Set_Bool (old \<noteq> None)"
| "read_reply (Set_Contains k) (Reply_Bool b) = Set_Bool b"
| "read_reply (Set_Reserve n) Reply_Done = Set_Done"
| "read_reply Set_Reclaim r = Set_Done"
| "read_reply Set_Clear r = Set_Done"
| "read_reply _ _ = Set_Failed"

lemma set_exec_on_map:
  assumes "om_wf (am_map s)"
  shows "set_exec hp ly al c s h =
    (case c of Set_InsertReserved k \<Rightarrow>
       if k \<in> aset_abs s then Some (h, s, Set_Bool False)
       else map_option (\<lambda>(h, s, r). (h, s, read_reply c r)) (amap_exec hp ly al (on_map c) s h)
     | _ \<Rightarrow> map_option (\<lambda>(h, s, r). (h, s, read_reply c r)) (amap_exec hp ly al (on_map c) s h))"
proof (cases c)
  case (Set_InsertReserved k)
  have "map_contains_key s k \<longleftrightarrow> k \<in> aset_abs s"
    using om_contains_abs [OF assms] by (simp add: map_contains_key_def aset_abs_def dom_def)
  then show ?thesis unfolding Set_InsertReserved
    by (auto simp: set_insert_reserved_def split: prod.splits sum.splits)
next
  case (Set_Insert k)
  show ?thesis
  proof (cases "map_try_insert hp ly al k () s h")
    case (Some x)
    obtain h1 s1 r where "x = (h1, s1, r)" by (cases x)
    with Set_Insert Some show ?thesis by (cases r) (simp_all add: set_try_insert_def)
  qed (use Set_Insert in \<open>simp add: set_try_insert_def\<close>)
next
  case (Set_Remove k)
  then show ?thesis by (cases "map_remove hp k s h") (auto simp: set_remove_def)
next
  case (Set_Reserve n)
  then show ?thesis
    by (cases "map_ensure_capacity_for hp ly al n s h")
      (auto simp: set_ensure_capacity_for_def map_try_reserve_def split: sum.splits)
next
  case Set_Reclaim
  then show ?thesis
    by (cases "map_reclaim_empty_capacity hp s h") (auto simp: set_reclaim_as_map finished_def)
next
  case Set_Clear
  then show ?thesis by (cases "map_clear hp s h") (auto simp: set_clear_def finished_def)
qed (auto simp: set_remove_retaining_capacity_def set_contains_def map_contains_key_def split: prod.splits)

lemma unit_map_ext: "dom M = dom N \<Longrightarrow> M = (N :: 'k \<rightharpoonup> unit)"
  by (rule ext) (metis domIff not_None_eq old.unit.exhaust)

lemma dom_iff: "M k = None \<longleftrightarrow> k \<notin> dom M"
  by (simp add: domIff)

lemma set_step_of_map:
  assumes "map_step (amap_spec (on_map c)) M r M'" "\<And>k. c = Set_InsertReserved k \<Longrightarrow> k \<notin> dom M"
  shows "set_step c (dom M) (read_reply c r) (dom M')"
  using assms by (cases c) (auto simp: dom_iff)

context heap_client
begin

lemma set_exec:
  assumes at: "amap_at hinv R C ly h s" and al: "allocs_ok al"
  shows "runs (set_exec hp ly al c s h) (\<lambda>(h', s', r). amap_at hinv R C ly h' s' \<and> am_class s' = am_class s \<and>
    set_step c (aset_abs s) r (aset_abs s'))"
proof -
  have wf: "om_wf (am_map s)" using at by (simp add: amap_at_def)
  show ?thesis
  proof (cases "\<exists>k. c = Set_InsertReserved k \<and> k \<in> aset_abs s")
    case True
    with at show ?thesis unfolding set_exec_on_map [OF wf] by (auto simp: insert_absorb)
  next
    case False
    then have eq: "set_exec hp ly al c s h =
        map_option (\<lambda>(h, s, r). (h, s, read_reply c r)) (amap_exec hp ly al (on_map c) s h)"
      unfolding set_exec_on_map [OF wf] by (cases c) auto
    have *: "set_step c (aset_abs s) (read_reply c r) (aset_abs s')"
      if "map_step (amap_spec (on_map c)) (amap_abs s) r (amap_abs s')" for r s'
      using set_step_of_map [OF that] False by (auto simp: aset_abs_def)
    show ?thesis unfolding eq runs_simps
      by (rule runs_mono [OF amap_exec [OF at al]]) (auto simp: amap_post_def *)
  qed
qed

lemma set_trace:
  assumes "amap_at hinv R C ly h s" "\<forall>(al, c) \<in> set cs. allocs_ok al"
  shows "runs (set_trace hp ly cs s h) (\<lambda>(h', s', rs). amap_at hinv R C ly h' s' \<and> am_class s' = am_class s \<and>
    steps set_step (map snd cs) (aset_abs s) rs (aset_abs s'))"
  using assms
proof (induction cs arbitrary: s h)
  case (Cons x cs)
  obtain al c where x: "x = (al, c)" by fastforce
  have al: "allocs_ok al" using Cons.prems(2) x by simp
  from set_exec [OF Cons.prems(1) al, of c]
  obtain h1 s1 r where 1: "set_exec hp ly al c s h = Some (h1, s1, r)" "amap_at hinv R C ly h1 s1"
    "am_class s1 = am_class s" "set_step c (aset_abs s) r (aset_abs s1)"
    by (auto simp: runs_def)
  from Cons.IH [OF 1(2)] Cons.prems(2) 1 x show ?case by (auto simp: runs_def)
qed simp

end

end
