(* ===== verification/AdmittedString.thy ===== *)
theory AdmittedString
  imports Admitted
begin

text \<open>
  \<open>AdmittedString\<close> of \<^verbatim>\<open>kernel/mm/admitted.rs\<close>: a UTF-8 buffer with an admitted backing. The value is
  its bytes; a \<open>char\<close> is its scalar value, encoded as the standard library does. Replacing the
  backing is one step here, where the vector prepares and installs in two.
\<close>

section \<open>UTF-8\<close>

text \<open>A scalar value is a code point below \<open>0x110000\<close> outside the surrogates.\<close>

definition is_char :: "nat \<Rightarrow> bool" where
  "is_char c \<longleftrightarrow> c < 0xD800 \<or> 0xDFFF < c \<and> c < 0x110000"

definition len_utf8 :: "nat \<Rightarrow> usize" where
  "len_utf8 c = (if c < 0x80 then 1 else if c < 0x800 then 2 else if c < 0x10000 then 3 else 4)"

definition encode_utf8 :: "nat \<Rightarrow> u8 list" where
  "encode_utf8 c =
     (if c < 0x80 then [word_of_nat c]
      else if c < 0x800 then [0xC0 OR word_of_nat (c div 64), 0x80 OR word_of_nat (c mod 64)]
      else if c < 0x10000 then
        [0xE0 OR word_of_nat (c div 4096), 0x80 OR word_of_nat (c div 64 mod 64), 0x80 OR word_of_nat (c mod 64)]
      else [0xF0 OR word_of_nat (c div 262144), 0x80 OR word_of_nat (c div 4096 mod 64),
            0x80 OR word_of_nat (c div 64 mod 64), 0x80 OR word_of_nat (c mod 64)])"

text \<open>A byte that is not a continuation byte starts a character.\<close>

definition is_char_boundary :: "u8 list \<Rightarrow> usize \<Rightarrow> bool" where
  "is_char_boundary s i \<longleftrightarrow>
     i = 0 \<or> i = length s \<or> i < length s \<and> (s ! i) AND 0xC0 \<noteq> 0x80"

section \<open>Operations\<close>

type_synonym admitted_string = "u8 admitted"

definition u8_layout :: elem_layout where
  "u8_layout = \<lparr>elem_size = 1, elem_align = 1\<rparr>"

definition string_new :: "heap_class \<Rightarrow> admitted_string" where
  "string_new cls = \<lparr>av_values = [], av_capacity = 0, av_charge = None, av_class = cls\<rparr>"

definition string_replace_capacity ::
  "'h heap_calls \<Rightarrow> (usize \<Rightarrow> usize option) \<Rightarrow> usize \<Rightarrow> admitted_string \<Rightarrow> 'h \<Rightarrow>
   ('h \<times> admitted_string \<times> (admitted_alloc_error + unit)) option" where
  "string_replace_capacity hp g target a h =
     (if target < length (av_values a) then Some (h, a, Err CapacityInvariant)
      else do {
        (h1, r) \<leftarrow> reserve_vec hp u8_layout (av_class a) target h;
        case r of
          Inl e \<Rightarrow> Some (h1, a, Err e)
        | Inr reservation \<Rightarrow>
            (case g target of
               None \<Rightarrow> do { h2 \<leftarrow> drop_heap_reservation hp reservation h1; Some (h2, a, Err AllocationFailed) }
             | Some granted \<Rightarrow>
                 (case charge_of u8_layout granted of
                    Inl e \<Rightarrow> do { h2 \<leftarrow> drop_heap_reservation hp reservation h1; Some (h2, a, Err (Admission e)) }
                  | Inr actual \<Rightarrow> do {
                      (h2, reservation', res) \<leftarrow> resize_heap hp reservation actual h1;
                      case res of
                        Inl e \<Rightarrow> do { h3 \<leftarrow> drop_heap_reservation hp reservation' h2; Some (h3, a, Err (Admission e)) }
                      | Inr _ \<Rightarrow> do {
                          (h3, k) \<leftarrow> commit_heap hp reservation' h2;
                          case k of
                            Inl e \<Rightarrow> Some (h3, a, Err (Admission e))
                          | Inr replacement_charge \<Rightarrow> do {
                              h4 \<leftarrow> drop_charge_opt hp (av_charge a) h3;
                              Some (h4, a\<lparr>av_capacity := granted, av_charge := Some replacement_charge\<rparr>, Ok ()) } } })) })"

definition string_try_reserve ::
  "'h heap_calls \<Rightarrow> (usize \<Rightarrow> usize option) \<Rightarrow> usize \<Rightarrow> admitted_string \<Rightarrow> 'h \<Rightarrow>
   ('h \<times> admitted_string \<times> (admitted_alloc_error + unit)) option" where
  "string_try_reserve hp g additional a h =
     (case checked_add_usize (length (av_values a)) additional of
        None \<Rightarrow> Some (h, a, Err (Admission ArithmeticOverflow))
      | Some required \<Rightarrow>
          if required \<le> av_capacity a then Some (h, a, Ok ())
          else case growth_target (av_capacity a) required of
            Inl e \<Rightarrow> Some (h, a, Err e)
          | Inr preferred \<Rightarrow> do {
              (h1, a1, r) \<leftarrow> string_replace_capacity hp g preferred a h;
              case r of
                Inr _ \<Rightarrow> Some (h1, a1, Ok ())
              | Inl e \<Rightarrow>
                  if preferred \<noteq> required then string_replace_capacity hp g required a1 h1
                  else Some (h1, a1, Err e) })"

definition string_try_push_str ::
  "'h heap_calls \<Rightarrow> (usize \<Rightarrow> usize option) \<Rightarrow> u8 list \<Rightarrow> admitted_string \<Rightarrow> 'h \<Rightarrow>
   ('h \<times> admitted_string \<times> (admitted_alloc_error + unit)) option" where
  "string_try_push_str hp g s a h = do {
     (h1, a1, r) \<leftarrow> string_try_reserve hp g (length s) a h;
     case r of
       Inl e \<Rightarrow> Some (h1, a1, Err e)
     | Inr _ \<Rightarrow> do { a2 \<leftarrow> extend_within s a1; Some (h1, a2, Ok ()) } }"

definition string_try_push ::
  "'h heap_calls \<Rightarrow> (usize \<Rightarrow> usize option) \<Rightarrow> nat \<Rightarrow> admitted_string \<Rightarrow> 'h \<Rightarrow>
   ('h \<times> admitted_string \<times> (admitted_alloc_error + unit)) option" where
  "string_try_push hp g c a h = do {
     (h1, a1, r) \<leftarrow> string_try_reserve hp g (len_utf8 c) a h;
     case r of
       Inl e \<Rightarrow> Some (h1, a1, Err e)
     | Inr _ \<Rightarrow> do { a2 \<leftarrow> extend_within (encode_utf8 c) a1; Some (h1, a2, Ok ()) } }"

definition string_clear :: "'h heap_calls \<Rightarrow> admitted_string \<Rightarrow> 'h \<Rightarrow> ('h \<times> admitted_string) option" where
  "string_clear hp a h =
     (if av_capacity a \<noteq> 0 then do {
        h1 \<leftarrow> drop_charge_opt hp (av_charge a) h;
        Some (h1, a\<lparr>av_values := [], av_capacity := 0, av_charge := None\<rparr>) }
      else Some (h, a\<lparr>av_values := []\<rparr>))"

text \<open>\<open>String::truncate\<close> panics inside a character.\<close>

definition string_truncate :: "usize \<Rightarrow> admitted_string \<Rightarrow> admitted_string option" where
  "string_truncate new_len a =
     (if length (av_values a) < new_len then Some a
      else if is_char_boundary (av_values a) new_len then Some (a\<lparr>av_values := take new_len (av_values a)\<rparr>)
      else None)"

definition string_try_from_str ::
  "'h heap_calls \<Rightarrow> (usize \<Rightarrow> usize option) \<Rightarrow> heap_class \<Rightarrow> u8 list \<Rightarrow> 'h \<Rightarrow>
   ('h \<times> (admitted_alloc_error + admitted_string)) option" where
  "string_try_from_str hp g cls s h = do {
     (h1, out, r) \<leftarrow> string_try_push_str hp g s (string_new cls) h;
     case r of
       Inl e \<Rightarrow> do { h2 \<leftarrow> drop_admitted hp out h1; Some (h2, Err e) }
     | Inr _ \<Rightarrow> Some (h1, Ok out) }"

section \<open>Encoding\<close>

lemma encode_utf8_length: "length (encode_utf8 c) = len_utf8 c"
  by (simp add: encode_utf8_def len_utf8_def)

lemma first_byte_starts:
  "encode_utf8 c \<noteq> [] \<and> hd (encode_utf8 c) AND 0xC0 \<noteq> 0x80"
proof -
  have lead: "(w :: u8) AND 0xC0 \<noteq> 0x80" if "bit w 6" for w
  proof
    assume "w AND 0xC0 = 0x80"
    then have "bit (w AND 0xC0) 6 = bit (0x80 :: u8) 6" by simp
    with that show False by (simp add: bit_and_iff)
  qed
  have ascii: "(word_of_nat c :: u8) AND 0xC0 \<noteq> 0x80" if "c < 128"
  proof
    assume "(word_of_nat c :: u8) AND 0xC0 = 0x80"
    then have "bit ((word_of_nat c :: u8) AND 0xC0) 7 = bit (0x80 :: u8) 7" by simp
    then have "bit (word_of_nat c :: u8) 7" by (simp add: bit_and_iff)
    moreover have "(word_of_nat c :: u8) < 128"
      using that by (simp add: word_less_nat_alt unat_of_nat take_bit_nat_eq_self)
    then have "(word_of_nat c :: u8) div 128 = 0" by (rule div_word_less)
    ultimately show False by (simp add: bit_iff_odd)
  qed
  show ?thesis using ascii by (auto simp: encode_utf8_def intro!: lead simp: bit_or_iff)
qed

lemma pushed_char_boundary: "is_char_boundary (s @ encode_utf8 c) (length s)"
  using first_byte_starts [of c] by (auto simp: is_char_boundary_def nth_append hd_conv_nth)

section \<open>Contract\<close>

lemma string_replace_split:
  "string_replace_capacity hp g target a h = do {
     (h1, r) \<leftarrow> vec_prepare_target hp u8_layout g a target h;
     case r of
       Inl e \<Rightarrow> Some (h1, a, Err e)
     | Inr p \<Rightarrow> do {
         (h3, k) \<leftarrow> commit_heap hp (prep_reservation p) h1;
         case k of
           Inl e \<Rightarrow> Some (h3, a, Err (Admission e))
         | Inr c \<Rightarrow> do {
             h4 \<leftarrow> drop_charge_opt hp (av_charge a) h3;
             Some (h4, a\<lparr>av_capacity := prep_capacity p, av_charge := Some c\<rparr>, Ok ()) } } }"
proof (cases "target < length (av_values a)")
  case False
  show ?thesis
  proof (cases "reserve_vec hp u8_layout (av_class a) target h")
    case (Some x)
    obtain h1 r where x: "x = (h1, r)" by fastforce
    show ?thesis
    proof (cases r)
      case (Inr reservation)
      show ?thesis
      proof (cases "g target")
        case (Some granted)
        show ?thesis
        proof (cases "charge_of u8_layout granted")
          case (Inr actual)
          show ?thesis
            by (cases "resize_heap hp reservation actual h1")
              (use False \<open>reserve_vec hp u8_layout (av_class a) target h = Some x\<close> x \<open>r = Inr reservation\<close> Some Inr
               in \<open>auto simp: string_replace_capacity_def vec_prepare_target_def prepared_try_new_def abandon_def
                 split: sum.splits intro!: bind_option_cong\<close>)
        qed (use False Some x \<open>reserve_vec hp u8_layout (av_class a) target h = Some x\<close> Inr in
             \<open>simp add: string_replace_capacity_def vec_prepare_target_def prepared_try_new_def abandon_def\<close>)
      qed (use False Some x Inr in
           \<open>simp add: string_replace_capacity_def vec_prepare_target_def prepared_try_new_def abandon_def\<close>)
    qed (use False Some x in \<open>simp add: string_replace_capacity_def vec_prepare_target_def prepared_try_new_def\<close>)
  qed (use False in \<open>simp add: string_replace_capacity_def vec_prepare_target_def prepared_try_new_def\<close>)
qed (simp add: string_replace_capacity_def vec_prepare_target_def)

context heap_client
begin

lemma string_replace:
  assumes at: "adm_at hinv R C u8_layout h a" and g: "grant_ok g"
  shows "runs (string_replace_capacity hp g target a h) (reserve_post R C u8_layout a target)"
  unfolding string_replace_split
proof -
  have inv: "hinv h R (opt_ms (av_charge a) + C)" and ok: "adm_ok u8_layout a" using at by (simp_all add: adm_at_def)
  show "runs (do {
     (h1, r) \<leftarrow> vec_prepare_target hp u8_layout g a target h;
     case r of
       Inl e \<Rightarrow> Some (h1, a, Err e)
     | Inr p \<Rightarrow> do {
         (h3, k) \<leftarrow> commit_heap hp (prep_reservation p) h1;
         case k of
           Inl e \<Rightarrow> Some (h3, a, Err (Admission e))
         | Inr c \<Rightarrow> do {
             h4 \<leftarrow> drop_charge_opt hp (av_charge a) h3;
             Some (h4, a\<lparr>av_capacity := prep_capacity p, av_charge := Some c\<rparr>, Ok ()) } } })
    (reserve_post R C u8_layout a target)"
  proof (rule runs_bind [OF prepare_target [OF inv g, of u8_layout a target]], clarify)
    fix h1 and r :: "admitted_alloc_error + prepared_capacity"
    assume 1: "case r of Inl _ \<Rightarrow> hinv h1 R (opt_ms (av_charge a) + C)
       | Inr p \<Rightarrow> prep_ok u8_layout (av_class a) target p \<and> length (av_values a) \<le> target \<and>
           hinv h1 (add_mset (prep_reservation p) R) (opt_ms (av_charge a) + C)"
    show "runs (case r of
       Inl e \<Rightarrow> Some (h1, a, Err e)
     | Inr p \<Rightarrow> do {
         (h3, k) \<leftarrow> commit_heap hp (prep_reservation p) h1;
         case k of
           Inl e \<Rightarrow> Some (h3, a, Err (Admission e))
         | Inr c \<Rightarrow> do {
             h4 \<leftarrow> drop_charge_opt hp (av_charge a) h3;
             Some (h4, a\<lparr>av_capacity := prep_capacity p, av_charge := Some c\<rparr>, Ok ()) } })
      (reserve_post R C u8_layout a target)"
    proof (cases r)
      case (Inr p)
      with 1 have p: "prep_ok u8_layout (av_class a) target p" "length (av_values a) \<le> target"
        "hinv h1 (add_mset (prep_reservation p) R) (opt_ms (av_charge a) + C)" by simp_all
      show ?thesis unfolding Inr sum.case
      proof (rule runs_bind [OF commit [OF p(3)]], clarify)
        fix h3 c
        assume c: "hold_class c = hold_class (prep_reservation p)" "hold_bytes c = hold_bytes (prep_reservation p)"
          "hinv h3 R (add_mset c (opt_ms (av_charge a) + C))"
        then have "hinv h3 R (opt_ms (av_charge a) + add_mset c C)" by simp
        from drop_opt [OF this] c p ok show "runs (case Ok c of
           Inl e \<Rightarrow> Some (h3, a, Err (Admission e))
         | Inr c \<Rightarrow> do {
             h4 \<leftarrow> drop_charge_opt hp (av_charge a) h3;
             Some (h4, a\<lparr>av_capacity := prep_capacity p, av_charge := Some c\<rparr>, Ok ()) })
          (reserve_post R C u8_layout a target)"
          by (simp add: reserve_post_def adm_at_def adm_ok_def backing_ok_def prep_ok_def)
      qed
    qed (use 1 ok in \<open>simp add: reserve_post_def adm_at_def\<close>)
  qed
qed

lemma string_reserve:
  assumes at: "adm_at hinv R C u8_layout h a" and g: "grant_ok g"
  shows "runs (string_try_reserve hp g n a h) (reserve_post R C u8_layout a (length (av_values a) + n))"
proof -
  define required where "required = length (av_values a) + n"
  have *: "runs (do {
        (h1, a1, r) \<leftarrow> string_replace_capacity hp g preferred a h;
        case r of
          Inr _ \<Rightarrow> Some (h1, a1, Ok ())
        | Inl e \<Rightarrow> if preferred \<noteq> required then string_replace_capacity hp g required a1 h1
            else Some (h1, a1, Err e) }) (reserve_post R C u8_layout a required)"
    if "required \<le> preferred" for preferred
  proof (rule runs_bind [OF string_replace [OF at g]], clarify)
    fix h1 a1 and r :: "admitted_alloc_error + unit"
    assume 1: "reserve_post R C u8_layout a preferred (h1, a1, r)"
    show "runs (case r of
          Inr _ \<Rightarrow> Some (h1, a1, Ok ())
        | Inl e \<Rightarrow> if preferred \<noteq> required then string_replace_capacity hp g required a1 h1
            else Some (h1, a1, Err e)) (reserve_post R C u8_layout a required)"
    proof (cases r)
      case (Inl e)
      with 1 have "a1 = a" "adm_at hinv R C u8_layout h1 a" by (auto simp: reserve_post_def)
      with string_replace [OF this(2) g, of required] Inl show ?thesis by (simp add: reserve_post_def)
    qed (use 1 that in \<open>simp add: reserve_post_def\<close>)
  qed
  show ?thesis
  proof (cases "checked_add_usize (length (av_values a)) n")
    case (Some m)
    then have m: "m = required" by (simp add: checked required_def)
    show ?thesis
    proof (cases "growth_target (av_capacity a) required")
      case (Inr preferred)
      from * [OF growth_target_ge [OF Inr]] at show ?thesis
        unfolding string_try_reserve_def required_def [symmetric]
        by (simp add: Some m Inr) (simp add: reserve_post_def)
    qed (use at in \<open>simp add: string_try_reserve_def required_def [symmetric] Some m reserve_post_def\<close>)
  qed (use at in \<open>simp add: string_try_reserve_def reserve_post_def\<close>)
qed

definition push_post where
  "push_post R C a s = (\<lambda>(h', a', r). adm_at hinv R C u8_layout h' a' \<and> av_class a' = av_class a \<and>
     (case r of Inl _ \<Rightarrow> a' = a | Inr _ \<Rightarrow> av_values a' = av_values a @ s))"

lemma string_extend:
  fixes m :: "('h \<times> admitted_string \<times> (admitted_alloc_error + unit)) option"
  assumes "runs m (reserve_post R C u8_layout a (length (av_values a) + length s))"
  shows "runs (do {
     (h1, a1, r) \<leftarrow> m;
     case r of
       Inl e \<Rightarrow> Some (h1, a1, Err e)
     | Inr _ \<Rightarrow> do { a2 \<leftarrow> extend_within s a1; Some (h1, a2, Ok ()) } }) (push_post R C a s)"
proof (rule runs_bind [OF assms], clarify)
  fix h1 a1 and r :: "admitted_alloc_error + unit"
  assume 1: "reserve_post R C u8_layout a (length (av_values a) + length s) (h1, a1, r)"
  show "runs (case r of Inl e \<Rightarrow> Some (h1, a1, Err e)
     | Inr _ \<Rightarrow> do { a2 \<leftarrow> extend_within s a1; Some (h1, a2, Ok ()) }) (push_post R C a s)"
  proof (cases r)
    case (Inr u)
    with extend_from_reserve [of R C u8_layout a s h1 a1] 1 show ?thesis by (simp add: push_post_def)
  qed (use 1 in \<open>auto simp: reserve_post_def push_post_def\<close>)
qed

lemma string_push_str:
  assumes "adm_at hinv R C u8_layout h a" "grant_ok g"
  shows "runs (string_try_push_str hp g s a h) (push_post R C a s)"
  unfolding string_try_push_str_def by (rule string_extend [OF string_reserve [OF assms]])

lemma string_push:
  assumes "adm_at hinv R C u8_layout h a" "grant_ok g"
  shows "runs (string_try_push hp g c a h) (push_post R C a (encode_utf8 c))"
  unfolding string_try_push_def
  using string_extend [of _ R C a "encode_utf8 c"] string_reserve [OF assms, of "len_utf8 c"]
  by (simp add: encode_utf8_length)

lemma string_clear:
  assumes at: "adm_at hinv R C u8_layout h a"
  shows "runs (string_clear hp a h) (\<lambda>(h', a'). adm_at hinv R C u8_layout h' a' \<and>
    av_values a' = [] \<and> av_capacity a' = 0 \<and> av_class a' = av_class a)"
proof (cases "av_capacity a = 0")
  case False
  have "runs (drop_charge_opt hp (av_charge a) h) (\<lambda>h'. hinv h' R C)"
    using at by (intro drop_opt) (simp add: adm_at_def)
  with False show ?thesis by (simp add: string_clear_def adm_at_def adm_ok_def backing_ok_def)
qed (use at in \<open>auto simp: string_clear_def adm_at_def adm_ok_def\<close>)

end

end
