(* ===== verification/AdmittedSystem.thy ===== *)
theory AdmittedSystem
  imports AdmittedDeque AdmittedSet AdmittedString
begin

text \<open>
  The admitted containers on the kernel's own ledger. Each property runs a container through an
  arbitrary sequence of calls on \<open>ledger_heap\<close>, starting from any reachable state of the heap
  system, and states three things together: no call panics, the replies and contents are those of
  the abstract container, and the ledger afterwards is a reachable state that carries exactly the
  container's own charge beside what it carried before.
\<close>

lemma ledger_start:
  assumes "ledger_inv own L H {#} {#}"
  shows "adm_at (ledger_inv own L) {#} {#} ly H (vec_new cls)"
    "adm_at (ledger_inv own L) {#} {#} ly H (deque_new cls)"
    "adm_at (ledger_inv own L) {#} {#} ly H (string_new cls)"
    "amap_at (ledger_inv own L) {#} {#} ly H (map_new cls)"
  using assms
  by (simp_all add: adm_at_def adm_ok_def backing_ok_def vec_new_def deque_new_def string_new_def
      map_new_def amap_at_def as_vec_def om_new_def om_wf_def om_sorted_def)

lemma ledger_end:
  assumes "adm_at (ledger_inv own L) {#} {#} ly H a"
  shows "runs (drop_admitted (ledger_heap own) a H) (\<lambda>H'. ledger_inv own L H' {#} {#})"
  unfolding drop_admitted_def
  using assms by (intro ledger_client.drop_opt) (simp add: adm_at_def)

text \<open>C8: an \<open>AdmittedVec\<close> is a list whose memory is always paid for. Through any sequence of calls,
  under any allocator outcomes, no call panics, every reply and every change of contents is the
  list operation's (a failed growth or push changes nothing and hands the element back), the
  ledger stays reachable and carries exactly the charge of the vector's capacity in its class, an
  emptied vector keeps no capacity after a reclaiming call, and dropping the vector returns the
  ledger to holding nothing for it.\<close>

theorem admitted_vec_refines:
  assumes "ledger_inv own L H {#} {#}" "\<forall>(g, c) \<in> set cs. grant_ok g"
  shows "runs (vec_trace (ledger_heap own) ly cs (vec_new cls) H) (\<lambda>(H', a', rs).
    steps list_step (map snd cs) [] rs (av_values a') \<and> adm_ok ly a' \<and>
    ledger_inv own L H' {#} (opt_ms (av_charge a')) \<and>
    (cs \<noteq> [] \<and> vec_reclaims (snd (last cs)) \<and> av_values a' = [] \<longrightarrow> av_capacity a' = 0) \<and>
    runs (drop_admitted (ledger_heap own) a' H') (\<lambda>H''. ledger_inv own L H'' {#} {#}))"
proof (rule runs_mono [OF ledger_client.vec_trace [OF ledger_start(1) [OF assms(1)] assms(2)]], clarify)
  fix H' a' rs
  assume "adm_at (ledger_inv own L) {#} {#} ly H' a'" "steps list_step (map snd cs) (av_values (vec_new cls)) rs (av_values a')"
    "cs \<noteq> [] \<and> vec_reclaims (snd (last cs)) \<and> av_values a' = [] \<longrightarrow> av_capacity a' = 0"
  then show "steps list_step (map snd cs) [] rs (av_values a') \<and> adm_ok ly a' \<and>
    ledger_inv own L H' {#} (opt_ms (av_charge a')) \<and>
    (cs \<noteq> [] \<and> vec_reclaims (snd (last cs)) \<and> av_values a' = [] \<longrightarrow> av_capacity a' = 0) \<and>
    runs (drop_admitted (ledger_heap own) a' H') (\<lambda>H''. ledger_inv own L H'' {#} {#})"
    using ledger_end by (simp add: adm_at_def vec_new_def)
qed

text \<open>C25: an \<open>AdmittedDeque\<close> is a double-ended queue whose ring is always paid for: any sequence
  of calls behaves as the list operations at either end, moving the ring to a new backing keeps
  the order, and the ledger carries exactly the queue's charge throughout.\<close>

theorem admitted_deque_refines:
  assumes "ledger_inv own L H {#} {#}" "\<forall>(g, c) \<in> set cs. grant_ok g"
  shows "runs (deque_trace (ledger_heap own) ly cs (deque_new cls) H) (\<lambda>(H', a', rs).
    steps queue_step (map snd cs) [] rs (av_values a') \<and> adm_ok ly a' \<and>
    ledger_inv own L H' {#} (opt_ms (av_charge a')) \<and>
    (cs \<noteq> [] \<and> snd (last cs) = Deque_Reclaim \<and> av_values a' = [] \<longrightarrow> av_capacity a' = 0) \<and>
    runs (drop_admitted (ledger_heap own) a' H') (\<lambda>H''. ledger_inv own L H'' {#} {#}))"
proof (rule runs_mono [OF ledger_client.deque_trace [OF ledger_start(2) [OF assms(1)] assms(2)]], clarify)
  fix H' a' rs
  assume "adm_at (ledger_inv own L) {#} {#} ly H' a'" "steps queue_step (map snd cs) (av_values (deque_new cls)) rs (av_values a')"
    "cs \<noteq> [] \<and> snd (last cs) = Deque_Reclaim \<and> av_values a' = [] \<longrightarrow> av_capacity a' = 0"
  then show "steps queue_step (map snd cs) [] rs (av_values a') \<and> adm_ok ly a' \<and>
    ledger_inv own L H' {#} (opt_ms (av_charge a')) \<and>
    (cs \<noteq> [] \<and> snd (last cs) = Deque_Reclaim \<and> av_values a' = [] \<longrightarrow> av_capacity a' = 0) \<and>
    runs (drop_admitted (ledger_heap own) a' H') (\<lambda>H''. ledger_inv own L H'' {#} {#})"
    using ledger_end by (simp add: adm_at_def deque_new_def)
qed

text \<open>C16: an \<open>AdmittedMap\<close> is a finite map whose backing is always paid for. Any sequence of calls
  makes the transitions of the finite map and gives its replies (a refused admission or a refused
  allocation leaves the map as it was), its entries stay strictly ascending, and the ledger
  carries exactly the map's charge.\<close>

theorem admitted_map_refines:
  assumes "ledger_inv own L H {#} {#}" "\<forall>(al, c) \<in> set cs. allocs_ok al"
  shows "runs (amap_trace (ledger_heap own) ly cs (map_new cls) H) (\<lambda>(H', m', rs).
    steps map_step (map (amap_spec \<circ> snd) cs) Map.empty rs (amap_abs m') \<and> om_wf (am_map m') \<and>
    backing_ok ly cls (map_capacity (am_map m')) (am_charge m') \<and>
    ledger_inv own L H' {#} (opt_ms (am_charge m')))"
proof (rule runs_mono [OF ledger_client.amap_trace [OF ledger_start(4) [OF assms(1)] assms(2)]], clarify)
  fix H' m' rs
  assume "amap_at (ledger_inv own L) {#} {#} ly H' m'" "am_class m' = am_class (map_new cls)"
    "steps map_step (map (amap_spec \<circ> snd) cs) (amap_abs (map_new cls)) rs (amap_abs m')"
  then show "steps map_step (map (amap_spec \<circ> snd) cs) Map.empty rs (amap_abs m') \<and> om_wf (am_map m') \<and>
    backing_ok ly cls (map_capacity (am_map m')) (am_charge m') \<and> ledger_inv own L H' {#} (opt_ms (am_charge m'))"
    by (simp add: amap_at_def adm_at_def adm_ok_def map_new_def om_abs_new)
qed

text \<open>C26: an \<open>AdmittedSet\<close> is a set: insertion tells whether the key was new, removal whether it was
  there, a failed insertion leaves the set alone, over any sequence of calls and allocator
  outcomes, with the ledger carrying exactly the set's charge.\<close>

theorem admitted_set_refines:
  assumes "ledger_inv own L H {#} {#}" "\<forall>(al, c) \<in> set cs. allocs_ok al"
  shows "runs (set_trace (ledger_heap own) ly cs (set_new cls) H) (\<lambda>(H', s', rs).
    steps set_step (map snd cs) {} rs (aset_abs s') \<and> om_wf (am_map s') \<and>
    ledger_inv own L H' {#} (opt_ms (am_charge s')))"
proof (rule runs_mono [OF ledger_client.set_trace [OF _ assms(2)]])
  show "amap_at (ledger_inv own L) {#} {#} ly H (set_new cls)"
    unfolding set_new_def by (rule ledger_start(4) [OF assms(1)])
qed (auto simp: amap_at_def adm_at_def set_new_def map_new_def aset_abs_def om_abs_new)


text \<open>C29: publishing a new map backing can be rolled back without allocating. Restoring the retired
  backing right after the publication succeeds, gives back the original map, charge and capacity,
  and hands the replacement out as the backing to destroy.\<close>

theorem admitted_map_rollback:
  assumes "map_install_prepared_deferred hp p m h = Some (h', m', Ok retired)" "om_wf (am_map m)"
  shows "\<exists>displaced. map_restore_retired_deferred retired m' = (m, Ok displaced) \<and>
    ret_capacity displaced = prep_capacity p \<and> ret_charge displaced = am_charge m' \<and>
    amap_abs m' = amap_abs m"
proof -
  have c: "\<not> (prep_capacity p < om_len (am_map m) \<or> hold_class (prep_reservation p) \<noteq> am_class m)"
    using assms(1) by (auto simp: map_install_prepared_deferred_def bind_eq_Some_conv split: if_splits)
  obtain h1 k where k: "commit_heap hp (prep_reservation p) h = Some (h1, k)"
    using assms(1) c by (auto simp: map_install_prepared_deferred_def bind_eq_Some_conv)
  from assms(1) c k have m': "m' = m\<lparr>am_map := (am_map m)\<lparr>map_capacity := prep_capacity p\<rparr>, am_charge := am_charge m'\<rparr>"
    "retired = \<lparr>ret_capacity = map_capacity (am_map m), ret_charge = am_charge m, ret_class = am_class m\<rparr>"
    by (cases k; simp add: map_install_prepared_deferred_def om_replace_backing_deferred_def om_len_def; force)+
  have le: "length (entries (am_map m)) \<le> map_capacity (am_map m)" using assms(2) by (simp add: om_wf_def)
  show ?thesis
    by (subst m'(1), subst (2) m'(1), simp add: m'(2) map_restore_retired_deferred_def om_replace_backing_deferred_def om_len_def
        le om_abs_def not_less)
qed

section \<open>Concrete runs\<close>

lemma demo_ledger: "ledger_inv None {#} demo_published {#} {#}"
  using demo_reachable(1) by (simp add: ledger_inv_def owner_live_def)

definition eight_bytes :: elem_layout where
  "eight_bytes = \<lparr>elem_size = 8, elem_align = 8\<rparr>"

theorem admitted_vec_refines_witness:
  "let cs = [(Some, Vec_Push (7::u64)), (\<lambda>n. None, Vec_Push 8), (Some, Vec_Clear)] in
   runs (vec_trace (ledger_heap None) eight_bytes cs (vec_new Pipe) demo_published) (\<lambda>(H', a', rs).
    steps list_step (map snd cs) [] rs (av_values a') \<and>
    ledger_inv None {#} H' {#} (opt_ms (av_charge a')) \<and>
    (av_values a' = [] \<longrightarrow> av_capacity a' = 0))"
  unfolding Let_def
  by (rule runs_mono [OF admitted_vec_refines [OF demo_ledger]]) (auto simp: grant_ok_def)

theorem admitted_deque_refines_witness:
  "let cs = [(Some, Deque_PushBack (7::u64)), (Some, Deque_PushFront 8), (Some, Deque_PopFront)] in
   runs (deque_trace (ledger_heap None) eight_bytes cs (deque_new Pipe) demo_published) (\<lambda>(H', a', rs).
    steps queue_step (map snd cs) [] rs (av_values a') \<and> ledger_inv None {#} H' {#} (opt_ms (av_charge a')))"
  unfolding Let_def
  by (rule runs_mono [OF admitted_deque_refines [OF demo_ledger]]) (auto simp: grant_ok_def)

theorem admitted_map_refines_witness:
  "let al = \<lparr>grant_amortized = Some, grant_exact = Some\<rparr>;
       cs = [(al, AMap_Insert (3::nat) ''x''), (al, AMap_Get 3), (al, AMap_Remove 3)] in
   runs (amap_trace (ledger_heap None) eight_bytes cs (map_new Pipe) demo_published) (\<lambda>(H', m', rs).
    steps map_step (map (amap_spec \<circ> snd) cs) Map.empty rs (amap_abs m') \<and>
    ledger_inv None {#} H' {#} (opt_ms (am_charge m')))"
  unfolding Let_def
  by (rule runs_mono [OF admitted_map_refines [OF demo_ledger]]) (auto simp: allocs_ok_def)

theorem admitted_set_refines_witness:
  "let al = \<lparr>grant_amortized = Some, grant_exact = Some\<rparr>;
       cs = [(al, Set_Insert (3::nat)), (al, Set_Insert 3), (al, Set_Remove 4)] in
   runs (set_trace (ledger_heap None) eight_bytes cs (set_new Pipe) demo_published) (\<lambda>(H', s', rs).
    steps set_step (map snd cs) {} rs (aset_abs s') \<and> ledger_inv None {#} H' {#} (opt_ms (am_charge s')))"
  unfolding Let_def
  by (rule runs_mono [OF admitted_set_refines [OF demo_ledger]]) (auto simp: allocs_ok_def)


theorem admitted_map_rollback_witness:
  "let hp = \<lparr>reserve_heap = (\<lambda>_ _ _. None), resize_heap = (\<lambda>_ _ _. None),
             commit_heap = (\<lambda>x h. Some (h, Ok x)), drop_heap_reservation = (\<lambda>_ _. None), drop_heap_charge = (\<lambda>_ _. None)\<rparr>;
       p = \<lparr>prep_capacity = 4, prep_reservation = demo_reservation\<rparr>;
       m = map_new Pipe :: (nat, nat) admitted_map;
       m' = m\<lparr>am_map := \<lparr>entries = [], map_capacity = 4\<rparr>, am_charge := Some demo_reservation\<rparr>
   in map_install_prepared_deferred hp p m () = Some ((), m', Ok \<lparr>ret_capacity = 0, ret_charge = None, ret_class = Pipe\<rparr>) \<and>
      (\<exists>displaced. map_restore_retired_deferred \<lparr>ret_capacity = 0, ret_charge = None, ret_class = Pipe\<rparr> m' = (m, Ok displaced) \<and>
        ret_capacity displaced = 4)"
proof -
  define hp :: "unit heap_calls" where "hp = \<lparr>reserve_heap = (\<lambda>_ _ _. None), resize_heap = (\<lambda>_ _ _. None),
    commit_heap = (\<lambda>x h. Some (h, Ok x)), drop_heap_reservation = (\<lambda>_ _. None), drop_heap_charge = (\<lambda>_ _. None)\<rparr>"
  define p where "p = \<lparr>prep_capacity = 4, prep_reservation = demo_reservation\<rparr>"
  define m where "m = (map_new Pipe :: (nat, nat) admitted_map)"
  have i: "map_install_prepared_deferred hp p m () = Some ((),
      m\<lparr>am_map := \<lparr>entries = [], map_capacity = 4\<rparr>, am_charge := Some demo_reservation\<rparr>,
      Ok \<lparr>ret_capacity = 0, ret_charge = None, ret_class = Pipe\<rparr>)"
    by (simp add: hp_def p_def m_def map_new_def map_install_prepared_deferred_def demo_reservation_def
        om_len_def om_new_def om_replace_backing_deferred_def)
  have "om_wf (am_map m)" by (simp add: m_def map_new_def om_wf_new)
  from admitted_map_rollback [OF i this] i show ?thesis
    unfolding Let_def hp_def p_def m_def by auto
qed

end
