(* ===== verification/Seccomp.thy ===== *)
theory Seccomp
  imports Prelude
begin

text \<open>
  The filter machine of \<^verbatim>\<open>kernel/seccomp/types.rs\<close>: actions and their severity, the instruction
  set, the validator, the interpreter, the bitmap of unconditionally allowed system calls and the
  filter identity. The six system-call arguments are a list of six words. The interpreter's loop
  is recursion on the program counter, which every instruction moves forward.
\<close>

section \<open>Actions\<close>

datatype seccomp_action = Allow | Log | Errno "32 word" | Trap | Kill

fun severity :: "seccomp_action \<Rightarrow> u8" where
  "severity Allow = 0"
| "severity Log = 1"
| "severity (Errno _) = 2"
| "severity Trap = 3"
| "severity Kill = 4"

definition more_restrictive_than :: "seccomp_action \<Rightarrow> seccomp_action \<Rightarrow> bool" where
  "more_restrictive_than a b \<longleftrightarrow> severity b < severity a"

record seccomp_verdict =
  verdict_action :: seccomp_action
  verdict_filter_id :: u64

definition verdict_allow :: seccomp_verdict where
  "verdict_allow = \<lparr>verdict_action = Allow, verdict_filter_id = 0\<rparr>"

section \<open>Instructions\<close>

datatype seccomp_insn =
    LdSyscallNr
  | LdArg u8
  | LdConst u64
  | And u64
  | Or u64
  | Shr u8
  | JmpEq u64 u8 u8
  | JmpNe u64 u8 u8
  | JmpLt u64 u8 u8
  | JmpLe u64 u8 u8
  | JmpGt u64 u8 u8
  | JmpGe u64 u8 u8
  | Jmp u8
  | Ret seccomp_action

definition MAX_INSNS :: usize where
  "MAX_INSNS = 64"

definition MAX_TRUSTED_INSNS :: usize where
  "MAX_TRUSTED_INSNS = 256"

definition MAX_FILTER_INSNS_TOTAL :: usize where
  "MAX_FILTER_INSNS_TOTAL = MAX_INSNS * 32"

datatype seccomp_error =
    ProgramTooLong
  | InvalidInstruction
  | InvalidJump
  | NoTerminator
  | InvalidArgIndex
  | InvalidPromise
  | SeccompOutOfMemory
  | NotPermitted
  | Fault

section \<open>Validation\<close>

fun check_insn :: "usize \<Rightarrow> usize \<Rightarrow> seccomp_insn \<Rightarrow> seccomp_error option" where
  "check_insn len i (LdArg idx) = (if 6 \<le> idx then Some InvalidArgIndex else None)"
| "check_insn len i (Shr shift) = (if 64 \<le> shift then Some InvalidInstruction else None)"
| "check_insn len i (JmpEq _ t f) = (if len \<le> i + 1 + unat t \<or> len \<le> i + 1 + unat f then Some InvalidJump else None)"
| "check_insn len i (JmpNe _ t f) = (if len \<le> i + 1 + unat t \<or> len \<le> i + 1 + unat f then Some InvalidJump else None)"
| "check_insn len i (JmpLt _ t f) = (if len \<le> i + 1 + unat t \<or> len \<le> i + 1 + unat f then Some InvalidJump else None)"
| "check_insn len i (JmpLe _ t f) = (if len \<le> i + 1 + unat t \<or> len \<le> i + 1 + unat f then Some InvalidJump else None)"
| "check_insn len i (JmpGt _ t f) = (if len \<le> i + 1 + unat t \<or> len \<le> i + 1 + unat f then Some InvalidJump else None)"
| "check_insn len i (JmpGe _ t f) = (if len \<le> i + 1 + unat t \<or> len \<le> i + 1 + unat f then Some InvalidJump else None)"
| "check_insn len i (Jmp offset) = (if len \<le> i + 1 + unat offset then Some InvalidJump else None)"
| "check_insn len i _ = None"

fun check_insns :: "usize \<Rightarrow> usize \<Rightarrow> seccomp_insn list \<Rightarrow> seccomp_error option" where
  "check_insns len i [] = None"
| "check_insns len i (insn # rest) =
     (case check_insn len i insn of Some e \<Rightarrow> Some e | None \<Rightarrow> check_insns len (i + 1) rest)"

fun is_ret :: "seccomp_insn \<Rightarrow> bool" where
  "is_ret (Ret _) = True"
| "is_ret _ = False"

definition validate_program_with_limit :: "seccomp_insn list \<Rightarrow> usize \<Rightarrow> seccomp_error + unit" where
  "validate_program_with_limit prog max_insns =
     (if prog = [] then Err NoTerminator
      else if max_insns < length prog then Err ProgramTooLong
      else case check_insns (length prog) 0 prog of
        Some e \<Rightarrow> Err e
      | None \<Rightarrow> if \<not> is_ret (last prog) then Err NoTerminator else Ok ())"

definition validate_program :: "seccomp_insn list \<Rightarrow> seccomp_error + unit" where
  "validate_program prog = validate_program_with_limit prog MAX_INSNS"

section \<open>Interpretation\<close>

datatype insn_result = Continue u64 usize | Return seccomp_action

text \<open>A jump that would leave the program traps.\<close>

definition jump :: "usize \<Rightarrow> u64 \<Rightarrow> usize \<Rightarrow> u8 \<Rightarrow> insn_result" where
  "jump len acc pc off = (if len \<le> pc + (1 + unat off) then Return Trap else Continue acc (pc + (1 + unat off)))"

fun exec_insn :: "usize \<Rightarrow> u64 \<Rightarrow> u64 list \<Rightarrow> u64 \<Rightarrow> usize \<Rightarrow> seccomp_insn \<Rightarrow> insn_result" where
  "exec_insn len nr args acc pc LdSyscallNr = Continue nr (pc + 1)"
| "exec_insn len nr args acc pc (LdArg idx) = Continue (if unat idx < 6 then args ! unat idx else 0) (pc + 1)"
| "exec_insn len nr args acc pc (LdConst v) = Continue v (pc + 1)"
| "exec_insn len nr args acc pc (And v) = Continue (acc AND v) (pc + 1)"
| "exec_insn len nr args acc pc (Or v) = Continue (acc OR v) (pc + 1)"
| "exec_insn len nr args acc pc (Shr shift) =
     (if unat shift < 64 then Continue (drop_bit (unat shift) acc) (pc + 1) else Return Trap)"
| "exec_insn len nr args acc pc (JmpEq v t f) = jump len acc pc (if acc = v then t else f)"
| "exec_insn len nr args acc pc (JmpNe v t f) = jump len acc pc (if acc \<noteq> v then t else f)"
| "exec_insn len nr args acc pc (JmpLt v t f) = jump len acc pc (if acc < v then t else f)"
| "exec_insn len nr args acc pc (JmpLe v t f) = jump len acc pc (if acc \<le> v then t else f)"
| "exec_insn len nr args acc pc (JmpGt v t f) = jump len acc pc (if v < acc then t else f)"
| "exec_insn len nr args acc pc (JmpGe v t f) = jump len acc pc (if v \<le> acc then t else f)"
| "exec_insn len nr args acc pc (Jmp offset) = jump len acc pc offset"
| "exec_insn len nr args acc pc (Ret action) = Return action"

lemma exec_insn_forward: "exec_insn len nr args acc pc insn = Continue acc' pc' \<Longrightarrow> pc < pc'"
  by (cases insn) (auto simp: jump_def split: if_splits)

function interp_loop ::
  "seccomp_insn list \<Rightarrow> seccomp_action \<Rightarrow> u64 \<Rightarrow> u64 list \<Rightarrow> u64 \<Rightarrow> usize \<Rightarrow> seccomp_action" where
  "interp_loop prog dflt nr args acc pc =
     (if pc < length prog then
        (case exec_insn (length prog) nr args acc pc (prog ! pc) of
           Return action \<Rightarrow> action
         | Continue acc' pc' \<Rightarrow> interp_loop prog dflt nr args acc' pc')
      else dflt)"
  by pat_completeness auto
termination
  by (relation "measure (\<lambda>(prog, dflt, nr, args, acc, pc). length prog - pc)")
    (auto dest: exec_insn_forward)

declare interp_loop.simps [simp del]

definition interpret_program :: "seccomp_insn list \<Rightarrow> seccomp_action \<Rightarrow> u64 \<Rightarrow> u64 list \<Rightarrow> seccomp_action" where
  "interpret_program prog dflt nr args = interp_loop prog dflt nr args 0 0"

section \<open>The fast-allow bitmap\<close>

fun reads_arg :: "seccomp_insn \<Rightarrow> bool" where
  "reads_arg (LdArg _) = True"
| "reads_arg _ = False"

definition program_reads_args :: "seccomp_insn list \<Rightarrow> bool" where
  "program_reads_args prog = list_ex reads_arg prog"

type_synonym fast_allow_set = "u64 list"

definition fast_empty :: fast_allow_set where
  "fast_empty = replicate 8 0"

definition fast_set :: "fast_allow_set \<Rightarrow> usize \<Rightarrow> fast_allow_set" where
  "fast_set s idx =
     (if idx < 512 then s[idx div 64 := s ! (idx div 64) OR push_bit (idx mod 64) 1] else s)"

definition fast_get :: "fast_allow_set \<Rightarrow> usize \<Rightarrow> bool" where
  "fast_get s idx = (if idx < 512 then drop_bit (idx mod 64) (s ! (idx div 64)) AND 1 \<noteq> 0 else False)"

definition compute_fast_allow :: "seccomp_insn list \<Rightarrow> seccomp_action \<Rightarrow> fast_allow_set" where
  "compute_fast_allow prog dflt =
     (if prog = [] \<or> program_reads_args prog then fast_empty
      else foldl (\<lambda>s nr. if interpret_program prog dflt (word_of_nat nr) (replicate 6 0) = Allow
                         then fast_set s nr else s) fast_empty [0..<512])"

section \<open>Filter identity\<close>

definition fnv_byte :: "u64 \<Rightarrow> u8 \<Rightarrow> u64" where
  "fnv_byte hash b = (hash XOR ucast b) * 0x100000001b3"

definition to_le_bytes :: "nat \<Rightarrow> 'a::len word \<Rightarrow> u8 list" where
  "to_le_bytes n v = map (\<lambda>i. ucast (drop_bit (8 * i) v)) [0..<n]"

definition fnv_u64 :: "u64 \<Rightarrow> u64 \<Rightarrow> u64" where
  "fnv_u64 hash v = foldl fnv_byte hash (to_le_bytes 8 v)"

definition fnv_i32 :: "u64 \<Rightarrow> 32 word \<Rightarrow> u64" where
  "fnv_i32 hash v = foldl fnv_byte hash (to_le_bytes 4 v)"

fun hash_action :: "u64 \<Rightarrow> seccomp_action \<Rightarrow> u64" where
  "hash_action hash Allow = fnv_byte hash 0"
| "hash_action hash Log = fnv_byte hash 1"
| "hash_action hash (Errno e) = fnv_i32 (fnv_byte hash 2) e"
| "hash_action hash Trap = fnv_byte hash 3"
| "hash_action hash Kill = fnv_byte hash 4"

definition hash_jump :: "u64 \<Rightarrow> u8 \<Rightarrow> u64 \<Rightarrow> u8 \<Rightarrow> u8 \<Rightarrow> u64" where
  "hash_jump hash code v t f = fnv_byte (fnv_byte (fnv_u64 (fnv_byte hash code) v) t) f"

fun hash_insn :: "u64 \<Rightarrow> seccomp_insn \<Rightarrow> u64" where
  "hash_insn hash LdSyscallNr = fnv_byte hash 0"
| "hash_insn hash (LdArg idx) = fnv_byte (fnv_byte hash 1) idx"
| "hash_insn hash (LdConst v) = fnv_u64 (fnv_byte hash 2) v"
| "hash_insn hash (And v) = fnv_u64 (fnv_byte hash 3) v"
| "hash_insn hash (Or v) = fnv_u64 (fnv_byte hash 4) v"
| "hash_insn hash (Shr s) = fnv_byte (fnv_byte hash 5) s"
| "hash_insn hash (JmpEq v t f) = hash_jump hash 6 v t f"
| "hash_insn hash (JmpNe v t f) = hash_jump hash 7 v t f"
| "hash_insn hash (JmpLt v t f) = hash_jump hash 8 v t f"
| "hash_insn hash (JmpLe v t f) = hash_jump hash 9 v t f"
| "hash_insn hash (JmpGt v t f) = hash_jump hash 10 v t f"
| "hash_insn hash (JmpGe v t f) = hash_jump hash 11 v t f"
| "hash_insn hash (Jmp off) = fnv_byte (fnv_byte hash 12) off"
| "hash_insn hash (Ret action) = hash_action (fnv_byte hash 13) action"

definition compute_filter_id :: "seccomp_insn list \<Rightarrow> u64" where
  "compute_filter_id prog = foldl hash_insn 0xcbf29ce484222325 prog"

section \<open>Filters\<close>

record 'c seccomp_filter =
  default_action :: seccomp_action
  filter_prog :: "seccomp_insn list"
  fast_allow :: fast_allow_set
  filter_id :: u64
  filter_flags :: u32
  prog_heap_charge :: 'c

definition filter_evaluate :: "'c seccomp_filter \<Rightarrow> u64 \<Rightarrow> u64 list \<Rightarrow> seccomp_action" where
  "filter_evaluate flt nr args =
     (if nr < 512 \<and> fast_get (fast_allow flt) (unat nr) then Allow
      else interpret_program (filter_prog flt) (default_action flt) nr args)"

fun chain_loop :: "u64 \<Rightarrow> u64 list \<Rightarrow> 'c seccomp_filter list \<Rightarrow> seccomp_verdict \<Rightarrow> seccomp_verdict" where
  "chain_loop nr args [] res = res"
| "chain_loop nr args (flt # rest) res =
     (let action = filter_evaluate flt nr args;
          res' = (if more_restrictive_than action (verdict_action res)
                  then \<lparr>verdict_action = action, verdict_filter_id = filter_id flt\<rparr> else res)
      in if verdict_action res' = Kill then res' else chain_loop nr args rest res')"

definition chain_evaluate :: "'c seccomp_filter list \<Rightarrow> u64 \<Rightarrow> u64 list \<Rightarrow> seccomp_verdict" where
  "chain_evaluate filters nr args = chain_loop nr args filters verdict_allow"

section \<open>Validated programs\<close>

definition insns_ok :: "seccomp_insn list \<Rightarrow> bool" where
  "insns_ok prog \<longleftrightarrow> prog \<noteq> [] \<and> is_ret (last prog) \<and> (\<forall>i<length prog. check_insn (length prog) i (prog ! i) = None)"

lemma check_insns_None:
  "check_insns len i insns = None \<longleftrightarrow> (\<forall>j<length insns. check_insn len (i + j) (insns ! j) = None)"
proof (induction insns arbitrary: i)
  case (Cons insn insns)
  then show ?case by (auto simp: less_Suc_eq_0_disj split: option.splits)
qed simp

lemma validated_ok: "validate_program_with_limit prog n = Ok () \<Longrightarrow> insns_ok prog"
  by (auto simp: validate_program_with_limit_def insns_ok_def check_insns_None split: if_splits option.splits)

text \<open>Inside a validated program a step either returns the action of a \<open>Ret\<close>, or moves to a later
  instruction of the program.\<close>

lemma validated_step:
  assumes ok: "insns_ok prog" and pc: "pc < length prog"
  shows "case exec_insn (length prog) nr args acc pc (prog ! pc) of
      Return a \<Rightarrow> prog ! pc = Ret a
    | Continue acc' pc' \<Rightarrow> pc < pc' \<and> pc' < length prog"
proof -
  have "is_ret (prog ! (length prog - 1))" using ok by (auto simp: insns_ok_def last_conv_nth)
  then have succ: "Suc pc < length prog" if "\<not> is_ret (prog ! pc)"
    using that pc by (cases "pc = length prog - 1") auto
  have "check_insn (length prog) pc (prog ! pc) = None" using ok pc by (simp add: insns_ok_def)
  then show ?thesis using succ
    by (cases "prog ! pc") (auto simp: jump_def word_less_nat_alt word_le_nat_alt split: if_splits)
qed

lemma validated_returns:
  assumes "insns_ok prog" "pc < length prog"
  shows "Ret (interp_loop prog d nr args acc pc) \<in> set prog \<and>
    interp_loop prog d nr args acc pc = interp_loop prog d' nr args acc pc"
  using assms
proof (induction prog d nr args acc pc rule: interp_loop.induct)
  case (1 prog d nr args acc pc)
  note step = validated_step [OF 1(2,3), of nr args acc]
  show ?case
  proof (cases "exec_insn (length prog) nr args acc pc (prog ! pc)")
    case (Continue acc' pc')
    with 1 step show ?thesis by (auto simp: interp_loop.simps [of prog _ nr args acc pc])
  next
    case (Return a)
    with step 1(3) show ?thesis by (simp add: interp_loop.simps [of prog _ nr args acc pc]) (metis nth_mem)
  qed
qed

section \<open>Argument independence\<close>

lemma exec_insn_no_args:
  "\<not> reads_arg insn \<Longrightarrow> exec_insn len nr args acc pc insn = exec_insn len nr args' acc pc insn"
  by (cases insn) simp_all

lemma interp_no_args:
  assumes "\<not> program_reads_args prog"
  shows "interp_loop prog d nr args acc pc = interp_loop prog d nr args' acc pc"
  using assms
proof (induction prog d nr args acc pc rule: interp_loop.induct)
  case (1 prog d nr args acc pc)
  show ?case
  proof (cases "pc < length prog")
    case True
    then have "\<not> reads_arg (prog ! pc)" using 1(2) by (simp add: program_reads_args_def list_ex_iff)
    then have "exec_insn (length prog) nr args' acc pc (prog ! pc) = exec_insn (length prog) nr args acc pc (prog ! pc)"
      by (rule exec_insn_no_args)
    with 1 True show ?thesis by (subst (1 2) interp_loop.simps) (simp split: insn_result.splits)
  qed (simp add: interp_loop.simps [of prog])
qed

section \<open>The bitmap\<close>

lemma fast_get_bit:
  assumes "idx < 512" shows "fast_get s idx = bit (s ! (idx div 64)) (idx mod 64)"
  using assms by (simp add: fast_get_def and_one_eq bit_iff_odd_drop_bit odd_iff_mod_2_eq_one)

lemma fast_empty_get: "\<not> fast_get fast_empty idx"
  by (simp add: fast_get_def fast_empty_def)

lemma fast_set_length [simp]: "length (fast_set s idx) = length s"
  by (simp add: fast_set_def)

lemma fast_get_set:
  assumes "length s = 8" "idx < 512"
  shows "fast_get (fast_set s idx) j \<longleftrightarrow> j = idx \<or> fast_get s j"
proof (cases "j < 512")
  case True
  have "j div 64 < 8" "idx div 64 < 8" using True assms(2) by (simp_all add: less_mult_imp_div_less)
  moreover have "j = idx \<longleftrightarrow> j div 64 = idx div 64 \<and> j mod 64 = idx mod 64"
    by (metis div_mult_mod_eq)
  moreover have "bit (push_bit n (1::u64)) m \<longleftrightarrow> m = n" if "n < 64" for n m
    using that by (auto simp: bit_exp_iff)
  moreover have "idx mod 64 < 64" by simp
  ultimately show ?thesis using True assms
    by (auto simp: fast_get_bit fast_set_def nth_list_update bit_or_iff)
qed (auto simp: fast_get_def assms(2))

lemma fast_fold_get:
  assumes "length s = 8" "\<forall>n\<in>set ns. n < 512"
  shows "fast_get (foldl (\<lambda>s n. if P n then fast_set s n else s) s ns) j \<longleftrightarrow>
    fast_get s j \<or> j \<in> set ns \<and> P j"
  using assms by (induction ns arbitrary: s) (auto simp: fast_get_set)

lemma compute_fast_allow_get:
  "fast_get (compute_fast_allow prog d) j \<longleftrightarrow>
     prog \<noteq> [] \<and> \<not> program_reads_args prog \<and> j < 512 \<and>
     interpret_program prog d (word_of_nat j) (replicate 6 0) = Allow"
proof (cases "prog = [] \<or> program_reads_args prog")
  case False
  have "length fast_empty = 8" by (simp add: fast_empty_def)
  from fast_fold_get [OF this, of "[0..<512]"] False show ?thesis
    by (simp add: compute_fast_allow_def fast_empty_get)
qed (auto simp: compute_fast_allow_def fast_empty_get)

lemma fast_path_equal:
  assumes "fast_allow flt = compute_fast_allow (filter_prog flt) (default_action flt)"
  shows "filter_evaluate flt nr args = interpret_program (filter_prog flt) (default_action flt) nr args"
proof (cases "nr < 512 \<and> fast_get (fast_allow flt) (unat nr)")
  case True
  then have "\<not> program_reads_args (filter_prog flt)"
    "interpret_program (filter_prog flt) (default_action flt) nr (replicate 6 0) = Allow"
    using compute_fast_allow_get [of "filter_prog flt" "default_action flt" "unat nr"] assms by simp_all
  with True show ?thesis
    using interp_no_args [of "filter_prog flt" _ nr args 0 0 "replicate 6 0"]
    by (simp add: filter_evaluate_def interpret_program_def)
qed (auto simp: filter_evaluate_def)

text \<open>C9: the fast path is never a second policy. For every program (validated or not), default
  action, system call and arguments, a filter whose bitmap was computed at installation answers
  exactly what interpreting its program answers.\<close>

theorem seccomp_fast_path_exact:
  assumes "fast_allow flt = compute_fast_allow (filter_prog flt) (default_action flt)"
  shows "filter_evaluate flt nr args = interpret_program (filter_prog flt) (default_action flt) nr args"
  by (rule fast_path_equal [OF assms])

lemma validated_decides_same:
  assumes "validate_program_with_limit prog limit = Ok ()"
  shows "Ret (interpret_program prog d nr args) \<in> set prog \<and>
    interpret_program prog d nr args = interpret_program prog d' nr args"
proof -
  have "insns_ok prog" "0 < length prog" using validated_ok [OF assms] by (auto simp: insns_ok_def)
  from validated_returns [OF this] show ?thesis by (simp add: interpret_program_def)
qed

lemma validated_decides:
  "validate_program_with_limit prog limit = Ok () \<Longrightarrow> Ret (interpret_program prog d nr args) \<in> set prog"
  using validated_decides_same by blast

text \<open>C12: a validated program always decides for itself. Whatever the limit it was validated
  against, every run on every input ends, and ends with the action of one of the program's own
  \<open>Ret\<close> instructions: neither the default action nor the interpreter's fail-closed trap can be
  reached, so the result does not depend on the default.\<close>

theorem seccomp_validated_total:
  assumes "validate_program_with_limit prog limit = Ok ()"
  shows "Ret (interpret_program prog d nr args) \<in> set prog \<and>
    interpret_program prog d nr args = interpret_program prog d' nr args"
  by (rule validated_decides_same [OF assms])

section \<open>Stacked filters\<close>

lemma severity_inj: "severity a = 4 \<longleftrightarrow> a = Kill" "severity a \<le> 4" "severity a = 0 \<longleftrightarrow> a = Allow"
  by (cases a; simp)+

definition strictest :: "seccomp_action \<Rightarrow> seccomp_action \<Rightarrow> seccomp_action" where
  "strictest a b = (if severity a < severity b then b else a)"

lemma strictest_Kill [simp]: "strictest Kill b = Kill"
  by (cases b) (simp_all add: strictest_def)

lemma foldl_Kill: "foldl strictest Kill as = Kill"
  by (induction as) simp_all

lemma chain_loop_action:
  "verdict_action (chain_loop nr args fs res) =
     foldl strictest (verdict_action res) (map (\<lambda>f. filter_evaluate f nr args) fs)"
proof (induction fs arbitrary: res)
  case (Cons f fs)
  define a where "a = strictest (verdict_action res) (filter_evaluate f nr args)"
  define res' where "res' = (if more_restrictive_than (filter_evaluate f nr args) (verdict_action res)
      then \<lparr>verdict_action = filter_evaluate f nr args, verdict_filter_id = filter_id f\<rparr> else res)"
  have a: "verdict_action res' = a" by (simp add: a_def res'_def strictest_def more_restrictive_than_def)
  have "chain_loop nr args (f # fs) res = (if verdict_action res' = Kill then res' else chain_loop nr args fs res')"
    by (simp add: Let_def res'_def)
  then show ?case using Cons.IH [of res'] a by (simp add: a_def [symmetric] foldl_Kill)
qed simp

lemma strictest_ge: "severity a \<le> severity (strictest a b)" "severity b \<le> severity (strictest a b)"
  by (auto simp: strictest_def)

lemma foldl_strictest_start: "severity a \<le> severity (foldl strictest a bs)"
proof (induction bs arbitrary: a)
  case (Cons b bs)
  from order_trans [OF strictest_ge(1) Cons.IH] show ?case by simp
qed simp

lemma foldl_strictest_ge: "b \<in> set bs \<Longrightarrow> severity b \<le> severity (foldl strictest a bs)"
proof (induction bs arbitrary: a)
  case (Cons c bs)
  have "severity c \<le> severity (foldl strictest (strictest a c) bs)"
    by (rule order_trans [OF strictest_ge(2) foldl_strictest_start])
  with Cons show ?case by (cases "b = c") simp_all
qed simp

lemma foldl_strictest_mem: "foldl strictest a bs \<in> insert a (set bs)"
  by (induction bs arbitrary: a) (auto simp: strictest_def split: if_splits)

text \<open>C22: the most restrictive filter wins. The verdict of a chain is \<open>Allow\<close> or the action of one of
  its filters, no filter of the chain demands a more severe action, the early exit on \<open>Kill\<close>
  never changes it, and appending a filter never makes any system call's verdict less severe.\<close>

theorem seccomp_most_restrictive:
  "verdict_action (chain_evaluate fs nr args) \<in> insert Allow ((\<lambda>f. filter_evaluate f nr args) ` set fs) \<and>
   (\<forall>f \<in> set fs. severity (filter_evaluate f nr args) \<le> severity (verdict_action (chain_evaluate fs nr args))) \<and>
   verdict_action (chain_evaluate fs nr args) = foldl strictest Allow (map (\<lambda>f. filter_evaluate f nr args) fs) \<and>
   severity (verdict_action (chain_evaluate fs nr args)) \<le> severity (verdict_action (chain_evaluate (fs @ [f']) nr args))"
proof -
  have e: "verdict_action (chain_evaluate gs nr args) = foldl strictest Allow (map (\<lambda>f. filter_evaluate f nr args) gs)" for gs
    by (simp add: chain_evaluate_def chain_loop_action verdict_allow_def)
  let ?as = "map (\<lambda>f. filter_evaluate f nr args) fs"
  have "foldl strictest Allow ?as \<in> insert Allow ((\<lambda>f. filter_evaluate f nr args) ` set fs)"
    using foldl_strictest_mem [of Allow ?as] by simp
  moreover have "severity (filter_evaluate f nr args) \<le> severity (foldl strictest Allow ?as)" if "f \<in> set fs" for f
    by (rule foldl_strictest_ge) (use that in simp)
  ultimately show ?thesis unfolding e by (simp add: strictest_ge)
qed

section \<open>Concrete filters\<close>

definition demo_prog :: "seccomp_insn list" where
  "demo_prog = [LdSyscallNr, JmpEq 7 0 1, Ret Kill, JmpGe 500 0 1, Ret (Errno 38), Ret Allow]"

definition demo_filter :: "unit seccomp_filter" where
  "demo_filter = \<lparr>default_action = Kill, filter_prog = demo_prog, fast_allow = compute_fast_allow demo_prog Kill,
     filter_id = compute_filter_id demo_prog, filter_flags = 0, prog_heap_charge = ()\<rparr>"

lemmas interp_eval = interpret_program_def interp_loop.simps jump_def numeral_eq_Suc word_less_nat_alt word_le_nat_alt

theorem seccomp_validated_total_witness:
  "validate_program_with_limit demo_prog 6 = Ok () \<and> Ret (interpret_program demo_prog Allow 7 [0,0,0,0,0,0]) \<in> set demo_prog \<and>
   interpret_program demo_prog Allow 7 [0,0,0,0,0,0] = interpret_program demo_prog Trap 7 [0,0,0,0,0,0]"
proof -
  have v: "validate_program_with_limit demo_prog 6 = Ok ()"
    by (simp add: validate_program_with_limit_def demo_prog_def)
  with seccomp_validated_total [OF v] show ?thesis by blast
qed

theorem seccomp_fast_path_exact_witness:
  "filter_evaluate demo_filter 7 [1,2,3,4,5,6] = interpret_program demo_prog Kill 7 [1,2,3,4,5,6]"
  using seccomp_fast_path_exact [of demo_filter 7 "[1,2,3,4,5,6]"] by (simp add: demo_filter_def)

theorem seccomp_most_restrictive_witness:
  "severity (filter_evaluate demo_filter 7 [0,0,0,0,0,0]) \<le>
   severity (verdict_action (chain_evaluate [demo_filter] 7 [0,0,0,0,0,0]))"
  using seccomp_most_restrictive [of "[demo_filter]" 7 "[0,0,0,0,0,0]" demo_filter, THEN conjunct2, THEN conjunct1]
  by simp

end
