(* ===== verification/Pledge.thy ===== *)
theory Pledge
  imports Seccomp
begin

text \<open>
  Pledge (\<^verbatim>\<open>kernel/seccomp/types.rs\<close> and \<^verbatim>\<open>kernel/seccomp/lib.rs\<close>): the promise bits, the parser of promise
  strings, the semantic gate \<open>promise_allows_syscall\<close> with its argument checks, the list of system
  calls a promise set compiles to, and the programs generated for strict mode and for pledges. A
  promise string is its list of Unicode scalar values.
\<close>

section \<open>System call numbers\<close>

named_theorems sys_nr \<open>system call numbers\<close>

definition SYS_EXIT :: u64 where [sys_nr]:
  "SYS_EXIT = 60"

definition SYS_EXIT_GROUP :: u64 where [sys_nr]:
  "SYS_EXIT_GROUP = 231"

definition SYS_FORK :: u64 where [sys_nr]:
  "SYS_FORK = 57"

definition SYS_VFORK :: u64 where [sys_nr]:
  "SYS_VFORK = 58"

definition SYS_CLONE :: u64 where [sys_nr]:
  "SYS_CLONE = 56"

definition SYS_EXECVE :: u64 where [sys_nr]:
  "SYS_EXECVE = 59"

definition SYS_SPAWN_IMAGE :: u64 where [sys_nr]:
  "SYS_SPAWN_IMAGE = 517"

definition SYS_WAIT4 :: u64 where [sys_nr]:
  "SYS_WAIT4 = 61"

definition SYS_WAITID :: u64 where [sys_nr]:
  "SYS_WAITID = 247"

definition SYS_KILL :: u64 where [sys_nr]:
  "SYS_KILL = 62"

definition SYS_READ :: u64 where [sys_nr]:
  "SYS_READ = 0"

definition SYS_WRITE :: u64 where [sys_nr]:
  "SYS_WRITE = 1"

definition SYS_OPEN :: u64 where [sys_nr]:
  "SYS_OPEN = 2"

definition SYS_CLOSE :: u64 where [sys_nr]:
  "SYS_CLOSE = 3"

definition SYS_STAT :: u64 where [sys_nr]:
  "SYS_STAT = 4"

definition SYS_FSTAT :: u64 where [sys_nr]:
  "SYS_FSTAT = 5"

definition SYS_LSTAT :: u64 where [sys_nr]:
  "SYS_LSTAT = 6"

definition SYS_LSEEK :: u64 where [sys_nr]:
  "SYS_LSEEK = 8"

definition SYS_FSYNC :: u64 where [sys_nr]:
  "SYS_FSYNC = 74"

definition SYS_FDATASYNC :: u64 where [sys_nr]:
  "SYS_FDATASYNC = 75"

definition SYS_SYNC :: u64 where [sys_nr]:
  "SYS_SYNC = 162"

definition SYS_SYNC_FILE_RANGE :: u64 where [sys_nr]:
  "SYS_SYNC_FILE_RANGE = 277"

definition SYS_MMAP :: u64 where [sys_nr]:
  "SYS_MMAP = 9"

definition SYS_MPROTECT :: u64 where [sys_nr]:
  "SYS_MPROTECT = 10"

definition SYS_MUNMAP :: u64 where [sys_nr]:
  "SYS_MUNMAP = 11"

definition SYS_BRK :: u64 where [sys_nr]:
  "SYS_BRK = 12"

definition SYS_MREMAP :: u64 where [sys_nr]:
  "SYS_MREMAP = 25"

definition SYS_GETPID :: u64 where [sys_nr]:
  "SYS_GETPID = 39"

definition SYS_GETUID :: u64 where [sys_nr]:
  "SYS_GETUID = 102"

definition SYS_GETGID :: u64 where [sys_nr]:
  "SYS_GETGID = 104"

definition SYS_GETEUID :: u64 where [sys_nr]:
  "SYS_GETEUID = 107"

definition SYS_GETEGID :: u64 where [sys_nr]:
  "SYS_GETEGID = 108"

definition SYS_GETPPID :: u64 where [sys_nr]:
  "SYS_GETPPID = 110"

definition SYS_SCHED_YIELD :: u64 where [sys_nr]:
  "SYS_SCHED_YIELD = 24"

definition SYS_RENAME :: u64 where [sys_nr]:
  "SYS_RENAME = 82"

definition SYS_MKDIR :: u64 where [sys_nr]:
  "SYS_MKDIR = 83"

definition SYS_RMDIR :: u64 where [sys_nr]:
  "SYS_RMDIR = 84"

definition SYS_LINK :: u64 where [sys_nr]:
  "SYS_LINK = 86"

definition SYS_UNLINK :: u64 where [sys_nr]:
  "SYS_UNLINK = 87"

definition SYS_SYMLINK :: u64 where [sys_nr]:
  "SYS_SYMLINK = 88"

definition SYS_READLINK :: u64 where [sys_nr]:
  "SYS_READLINK = 89"

definition SYS_CHMOD :: u64 where [sys_nr]:
  "SYS_CHMOD = 90"

definition SYS_FCHMOD :: u64 where [sys_nr]:
  "SYS_FCHMOD = 91"

definition SYS_CHOWN :: u64 where [sys_nr]:
  "SYS_CHOWN = 92"

definition SYS_FCHOWN :: u64 where [sys_nr]:
  "SYS_FCHOWN = 93"

definition SYS_LCHOWN :: u64 where [sys_nr]:
  "SYS_LCHOWN = 94"

definition SYS_GETRLIMIT :: u64 where [sys_nr]:
  "SYS_GETRLIMIT = 97"

definition SYS_SETRLIMIT :: u64 where [sys_nr]:
  "SYS_SETRLIMIT = 160"

definition SYS_PRLIMIT64 :: u64 where [sys_nr]:
  "SYS_PRLIMIT64 = 302"

definition SYS_FUTEX :: u64 where [sys_nr]:
  "SYS_FUTEX = 202"

definition SYS_SET_TID_ADDRESS :: u64 where [sys_nr]:
  "SYS_SET_TID_ADDRESS = 218"

definition SYS_GETDENTS64 :: u64 where [sys_nr]:
  "SYS_GETDENTS64 = 217"

definition SYS_OPENAT :: u64 where [sys_nr]:
  "SYS_OPENAT = 257"

definition SYS_STATX :: u64 where [sys_nr]:
  "SYS_STATX = 332"

definition SYS_CLOCK_GETTIME :: u64 where [sys_nr]:
  "SYS_CLOCK_GETTIME = 228"

definition SYS_GETRANDOM :: u64 where [sys_nr]:
  "SYS_GETRANDOM = 318"

definition SYS_SELECT :: u64 where [sys_nr]:
  "SYS_SELECT = 23"

definition SYS_PSELECT6 :: u64 where [sys_nr]:
  "SYS_PSELECT6 = 270"

definition SYS_PPOLL :: u64 where [sys_nr]:
  "SYS_PPOLL = 271"

definition SYS_POLL :: u64 where [sys_nr]:
  "SYS_POLL = 7"

section \<open>Promises\<close>

named_theorems promise_bits \<open>promise bits\<close>

type_synonym promises = u32

definition P_STDIO :: promises where [promise_bits]:
  "P_STDIO = push_bit 0 1"

definition P_RPATH :: promises where [promise_bits]:
  "P_RPATH = push_bit 1 1"

definition P_WPATH :: promises where [promise_bits]:
  "P_WPATH = push_bit 2 1"

definition P_CPATH :: promises where [promise_bits]:
  "P_CPATH = push_bit 3 1"

definition P_TMPPATH :: promises where [promise_bits]:
  "P_TMPPATH = push_bit 4 1"

definition P_PROC :: promises where [promise_bits]:
  "P_PROC = push_bit 5 1"

definition P_THREAD :: promises where [promise_bits]:
  "P_THREAD = push_bit 6 1"

definition P_EXEC :: promises where [promise_bits]:
  "P_EXEC = push_bit 7 1"

definition P_UNIX :: promises where [promise_bits]:
  "P_UNIX = push_bit 8 1"

definition P_INET :: promises where [promise_bits]:
  "P_INET = push_bit 9 1"

definition P_DNS :: promises where [promise_bits]:
  "P_DNS = push_bit 10 1"

definition P_FATTR :: promises where [promise_bits]:
  "P_FATTR = push_bit 11 1"

definition P_RLIMIT :: promises where [promise_bits]:
  "P_RLIMIT = push_bit 12 1"

definition P_TIME :: promises where [promise_bits]:
  "P_TIME = push_bit 13 1"

definition P_SENDSIG :: promises where [promise_bits]:
  "P_SENDSIG = push_bit 14 1"

definition P_PTRACE :: promises where [promise_bits]:
  "P_PTRACE = push_bit 15 1"

definition P_PROT_EXEC :: promises where [promise_bits]:
  "P_PROT_EXEC = push_bit 16 1"

definition P_VM :: promises where [promise_bits]:
  "P_VM = push_bit 17 1"

definition P_all :: promises where
  "P_all = push_bit 18 1 - 1"

definition contains :: "promises \<Rightarrow> promises \<Rightarrow> bool" where
  "contains p b \<longleftrightarrow> p AND b = b"

definition intersects :: "promises \<Rightarrow> promises \<Rightarrow> bool" where
  "intersects p b \<longleftrightarrow> p AND b \<noteq> 0"

section \<open>Promise strings\<close>

definition is_whitespace :: "nat \<Rightarrow> bool" where
  "is_whitespace c \<longleftrightarrow> 9 \<le> c \<and> c \<le> 13 \<or> c = 32 \<or> c = 0x85 \<or> c = 0xA0 \<or> c = 0x1680 \<or>
     0x2000 \<le> c \<and> c \<le> 0x200A \<or> c = 0x2028 \<or> c = 0x2029 \<or> c = 0x202F \<or> c = 0x205F \<or> c = 0x3000"

text \<open>\<open>split_whitespace\<close>: the maximal runs of characters that are not white space.\<close>

function split_whitespace :: "nat list \<Rightarrow> nat list list" where
  "split_whitespace s =
     (case dropWhile is_whitespace s of
        [] \<Rightarrow> []
      | c # cs \<Rightarrow> (c # takeWhile (\<lambda>c. \<not> is_whitespace c) cs) # split_whitespace (dropWhile (\<lambda>c. \<not> is_whitespace c) cs))"
  by pat_completeness auto
termination
proof (relation "measure length")
  fix s c cs
  assume "dropWhile is_whitespace s = c # cs"
  then have "length (c # cs) \<le> length s" by (metis length_dropWhile_le)
  then show "(dropWhile (\<lambda>c. \<not> is_whitespace c) cs, s) \<in> measure length"
    using length_dropWhile_le [of "\<lambda>c. \<not> is_whitespace c" cs] by simp
qed simp

declare split_whitespace.simps [simp del]

definition scalars :: "string \<Rightarrow> nat list" where
  "scalars s = map of_char s"

definition promise_words :: "(nat list \<times> promises) list" where
  "promise_words = map (\<lambda>(w, b). (scalars w, b))
     [(''stdio'', P_STDIO),
      (''rpath'', P_RPATH),
      (''wpath'', P_WPATH),
      (''cpath'', P_CPATH),
      (''tmppath'', P_TMPPATH),
      (''proc'', P_PROC),
      (''thread'', P_THREAD),
      (''exec'', P_EXEC),
      (''unix'', P_UNIX),
      (''inet'', P_INET),
      (''dns'', P_DNS),
      (''fattr'', P_FATTR),
      (''rlimit'', P_RLIMIT),
      (''time'', P_TIME),
      (''sendsig'', P_SENDSIG),
      (''ptrace'', P_PTRACE),
      (''prot_exec'', P_PROT_EXEC),
      (''vm'', P_VM)]"

fun parse_words :: "nat list list \<Rightarrow> promises \<Rightarrow> seccomp_error + promises" where
  "parse_words [] acc = Ok acc"
| "parse_words (w # ws) acc =
     (case map_of promise_words w of None \<Rightarrow> Err InvalidPromise | Some b \<Rightarrow> parse_words ws (acc OR b))"

definition parse_promises :: "nat list \<Rightarrow> seccomp_error + promises" where
  "parse_promises s = parse_words (split_whitespace s) 0"

section \<open>The semantic gate\<close>

definition O_ACCMODE :: u64 where
  "O_ACCMODE = 0x3"

definition O_WRONLY :: u64 where
  "O_WRONLY = 0x1"

definition O_RDWR :: u64 where
  "O_RDWR = 0x2"

definition O_CREAT :: u64 where
  "O_CREAT = 64"

definition O_TRUNC :: u64 where
  "O_TRUNC = 512"

definition O_APPEND :: u64 where
  "O_APPEND = 1024"

definition PROT_EXEC_FLAG :: "32 word" where
  "PROT_EXEC_FLAG = 0x4"

definition CLONE_VM :: u64 where
  "CLONE_VM = 0x100"

definition CLONE_SIGHAND :: u64 where
  "CLONE_SIGHAND = 0x800"

definition CLONE_THREAD :: u64 where
  "CLONE_THREAD = 0x10000"

definition NS_DISALLOWED :: u64 where
  "NS_DISALLOWED = 0x20000 OR 0x4000000 OR 0x8000000 OR 0x10000000 OR 0x20000000 OR 0x40000000"

definition open_allowed :: "promises \<Rightarrow> u64 \<Rightarrow> bool" where
  "open_allowed p flags =
     (let accmode = flags AND O_ACCMODE;
          wants_write = (accmode = O_WRONLY \<or> accmode = O_RDWR);
          wants_create = (flags AND (O_CREAT OR O_TRUNC) \<noteq> 0);
          wants_append = (flags AND O_APPEND \<noteq> 0)
      in if \<not> intersects p (P_RPATH OR P_WPATH OR P_CPATH OR P_TMPPATH) then False
         else if (wants_write \<or> wants_append) \<and> \<not> (contains p P_WPATH \<or> contains p P_CPATH \<or> contains p P_TMPPATH)
         then False
         else if wants_create \<and> \<not> (contains p P_CPATH \<or> contains p P_TMPPATH) then False
         else if \<not> wants_write \<and> \<not> wants_create
         then contains p P_RPATH \<or> contains p P_WPATH \<or> contains p P_CPATH \<or> contains p P_TMPPATH
         else True)"

definition map_allowed :: "promises \<Rightarrow> u64 \<Rightarrow> bool" where
  "map_allowed p prot =
     (if \<not> contains p P_VM then False
      else if (ucast prot :: 32 word) AND PROT_EXEC_FLAG \<noteq> 0 \<and> \<not> contains p P_PROT_EXEC then False
      else True)"

definition proc_clone_allowed :: "promises \<Rightarrow> u64 \<Rightarrow> bool" where
  "proc_clone_allowed p clone_flags =
     (if clone_flags AND NS_DISALLOWED \<noteq> 0 then False
      else if clone_flags AND CLONE_VM \<noteq> 0 then
        (let thread_required = CLONE_THREAD OR CLONE_VM OR CLONE_SIGHAND
         in contains p P_THREAD \<and> clone_flags AND thread_required = thread_required)
      else True)"

definition thread_clone_allowed :: "u64 \<Rightarrow> bool" where
  "thread_clone_allowed clone_flags =
     (if clone_flags AND NS_DISALLOWED \<noteq> 0 then False
      else let required = CLONE_THREAD OR CLONE_VM OR CLONE_SIGHAND in clone_flags AND required = required)"

definition promise_allows_syscall :: "promises \<Rightarrow> u64 \<Rightarrow> u64 list \<Rightarrow> bool" where
  "promise_allows_syscall p nr args =
     (if nr = SYS_EXIT \<or> nr = SYS_EXIT_GROUP then True
      else if nr = SYS_OPEN \<or> nr = SYS_OPENAT then open_allowed p (if nr = SYS_OPEN then args ! 1 else args ! 2)
      else if nr = SYS_MMAP \<or> nr = SYS_MPROTECT then map_allowed p (args ! 2)
      else if contains p P_STDIO \<and> nr \<in> set [SYS_READ, SYS_WRITE, SYS_CLOSE, SYS_FSTAT, SYS_LSEEK, SYS_GETPID,
          SYS_GETUID, SYS_GETGID, SYS_GETEUID, SYS_GETEGID, SYS_GETPPID, SYS_SCHED_YIELD, SYS_POLL, SYS_SELECT,
          SYS_PSELECT6, SYS_PPOLL, SYS_FSYNC, SYS_FDATASYNC, SYS_SYNC, SYS_SYNC_FILE_RANGE] then True
      else if contains p P_RPATH \<and> nr \<in> set [SYS_STAT, SYS_LSTAT, SYS_READLINK, SYS_GETDENTS64] then True
      else if contains p P_WPATH \<and> nr \<in> set [SYS_RENAME, SYS_UNLINK, SYS_SYMLINK] then True
      else if contains p P_CPATH \<and> nr \<in> set [SYS_MKDIR, SYS_RMDIR, SYS_LINK] then True
      else if contains p P_VM \<and> nr \<in> set [SYS_MUNMAP, SYS_BRK, SYS_MREMAP] then True
      else if contains p P_PROC \<and> nr \<in> set [SYS_FORK, SYS_VFORK, SYS_WAIT4, SYS_WAITID, SYS_KILL] then True
      else if contains p P_PROC \<and> nr = SYS_CLONE then proc_clone_allowed p (args ! 0)
      else if contains p P_EXEC \<and> nr = SYS_EXECVE then True
      else if contains p P_THREAD \<and> nr \<in> set [SYS_FUTEX, SYS_SET_TID_ADDRESS] then True
      else if contains p P_THREAD \<and> nr = SYS_CLONE then thread_clone_allowed (args ! 0)
      else if contains p P_TIME \<and> nr \<in> set [SYS_CLOCK_GETTIME, SYS_GETRANDOM] then True
      else if contains p P_SENDSIG \<and> nr = SYS_KILL then True
      else if contains p P_FATTR \<and> nr \<in> set [SYS_CHMOD, SYS_CHOWN, SYS_FCHMOD, SYS_FCHOWN] then True
      else if contains p P_RLIMIT \<and> nr \<in> set [SYS_GETRLIMIT, SYS_SETRLIMIT, SYS_PRLIMIT64] then True
      else False)"

definition promise_allows_syscall_probe :: "promises \<Rightarrow> u64 \<Rightarrow> bool" where
  "promise_allows_syscall_probe p nr = promise_allows_syscall p nr (replicate 6 0)"

record pledge_state =
  active_promises :: promises
  exec_promises :: "promises option"

definition pledge_new :: "promises \<Rightarrow> pledge_state" where
  "pledge_new p = \<lparr>active_promises = p, exec_promises = None\<rparr>"

definition pledge_allows :: "pledge_state \<Rightarrow> u64 \<Rightarrow> u64 list \<Rightarrow> bool" where
  "pledge_allows st nr args = promise_allows_syscall (active_promises st) nr args"

section \<open>Generated programs\<close>

definition STRICT_ALLOWED :: "u64 list" where
  "STRICT_ALLOWED = [0, 1, 15, 60, 231]"

definition STRICT_PROGRAM :: "seccomp_insn list" where
  "STRICT_PROGRAM =
     [LdSyscallNr,
      JmpEq 0 0 1, Ret Allow,
      JmpEq 1 0 1, Ret Allow,
      JmpEq 15 0 1, Ret Allow,
      JmpEq 60 0 1, Ret Allow,
      JmpEq 231 0 1, Ret Allow,
      Ret Kill]"

definition MAX_PLEDGE_SYSCALLS :: usize where
  "MAX_PLEDGE_SYSCALLS = 64"

definition pledge_raw_list :: "promises \<Rightarrow> u64 list" where
  "pledge_raw_list p =
     [SYS_EXIT, SYS_EXIT_GROUP]
     @ (if contains p P_STDIO then [SYS_READ, SYS_WRITE, SYS_CLOSE, SYS_FSTAT, SYS_LSEEK, SYS_GETPID, SYS_GETUID,
          SYS_GETGID, SYS_GETEUID, SYS_GETEGID, SYS_GETPPID, SYS_SCHED_YIELD, SYS_POLL, SYS_SELECT, SYS_PSELECT6,
          SYS_PPOLL, SYS_FSYNC, SYS_FDATASYNC, SYS_SYNC, SYS_SYNC_FILE_RANGE] else [])
     @ (if contains p P_RPATH then [SYS_OPEN, SYS_OPENAT, SYS_STAT, SYS_LSTAT, SYS_READLINK, SYS_GETDENTS64] else [])
     @ (if contains p P_WPATH then [SYS_OPEN, SYS_OPENAT, SYS_RENAME, SYS_UNLINK, SYS_SYMLINK] else [])
     @ (if contains p P_CPATH then [SYS_OPEN, SYS_OPENAT, SYS_MKDIR, SYS_RMDIR, SYS_LINK] else [])
     @ (if contains p P_TMPPATH then [SYS_OPEN, SYS_OPENAT] else [])
     @ (if contains p P_VM then [SYS_MMAP, SYS_MPROTECT, SYS_MUNMAP, SYS_BRK, SYS_MREMAP] else [])
     @ (if contains p P_PROC then [SYS_CLONE, SYS_FORK, SYS_VFORK, SYS_WAIT4, SYS_KILL, SYS_WAITID] else [])
     @ (if contains p P_EXEC then [SYS_EXECVE] else [])
     @ (if contains p P_THREAD then [SYS_CLONE, SYS_FUTEX, SYS_SET_TID_ADDRESS] else [])
     @ (if contains p P_TIME then [SYS_CLOCK_GETTIME, SYS_GETRANDOM] else [])
     @ (if contains p P_SENDSIG then [SYS_KILL] else [])
     @ (if contains p P_FATTR then [SYS_CHMOD, SYS_CHOWN, SYS_FCHMOD, SYS_FCHOWN] else [])
     @ (if contains p P_RLIMIT then [SYS_GETRLIMIT, SYS_SETRLIMIT, SYS_PRLIMIT64] else [])"

text \<open>\<open>sort\<close> and then \<open>dedup\<close>, which removes equal neighbours.\<close>

definition pledge_syscall_list :: "promises \<Rightarrow> u64 list" where
  "pledge_syscall_list p = remdups_adj (sort (pledge_raw_list p))"

definition pledge_full_syscall_union :: "u64 list" where
  "pledge_full_syscall_union = pledge_syscall_list P_all"

definition whitelist_program :: "u64 list \<Rightarrow> seccomp_insn list" where
  "whitelist_program ns = LdSyscallNr # concat (map (\<lambda>nr. [JmpEq nr 0 1, Ret Allow]) ns) @ [Ret Kill]"

definition pledge_program :: "promises \<Rightarrow> seccomp_insn list" where
  "pledge_program p = whitelist_program (pledge_syscall_list p)"

section \<open>Whitelist programs\<close>

lemma whitelist_nth:
  assumes "j < length ns"
  shows "whitelist_program ns ! (1 + 2 * j) = JmpEq (ns ! j) 0 1" "whitelist_program ns ! (2 + 2 * j) = Ret Allow"
proof -
  have "concat (map (\<lambda>nr. [JmpEq nr 0 1, Ret Allow]) ns) ! (2 * j) = JmpEq (ns ! j) 0 1 \<and>
      concat (map (\<lambda>nr. [JmpEq nr 0 1, Ret Allow]) ns) ! (2 * j + 1) = Ret Allow"
    using assms
  proof (induction ns arbitrary: j)
    case (Cons n ns)
    then show ?case by (cases j) simp_all
  qed simp
  moreover have "2 * j + 1 < length (concat (map (\<lambda>nr. [JmpEq nr 0 1, Ret Allow]) ns))"
    using assms by (simp add: length_concat comp_def sum_list_triv)
  ultimately show "whitelist_program ns ! (1 + 2 * j) = JmpEq (ns ! j) 0 1"
    "whitelist_program ns ! (2 + 2 * j) = Ret Allow"
    by (simp_all add: whitelist_program_def nth_append)
qed

lemma whitelist_length: "length (whitelist_program ns) = 2 + 2 * length ns"
  by (simp add: whitelist_program_def length_concat comp_def sum_list_triv)

lemma whitelist_last: "whitelist_program ns ! (1 + 2 * length ns) = Ret Kill" "whitelist_program ns ! 0 = LdSyscallNr"
proof -
  have "length (concat (map (\<lambda>nr. [JmpEq nr 0 1, Ret Allow]) ns)) = 2 * length ns"
    by (simp add: length_concat comp_def sum_list_triv)
  then show "whitelist_program ns ! (1 + 2 * length ns) = Ret Kill"
    by (simp add: whitelist_program_def nth_append)
qed (simp add: whitelist_program_def)

text \<open>From the \<open>j\<close>-th comparison on, the program decides membership in the rest of the list.\<close>

lemma whitelist_from:
  assumes "j \<le> length ns"
  shows "interp_loop (whitelist_program ns) d nr args nr (1 + 2 * j) = (if nr \<in> set (drop j ns) then Allow else Kill)"
  using assms
proof (induction "length ns - j" arbitrary: j)
  case 0
  then have "j = length ns" by simp
  then show ?case using whitelist_last [of ns]
    by (subst interp_loop.simps) (simp add: whitelist_length)
next
  case (Suc n)
  then have j: "j < length ns" "j + 1 \<le> length ns" "n = length ns - (j + 1)" by auto
  note IH = Suc.hyps(1) [OF j(3,2)]
  have lt: "1 + 2 * j < length (whitelist_program ns)" "2 + 2 * j < length (whitelist_program ns)"
    "3 + 2 * j < length (whitelist_program ns)" using j(1) by (simp_all add: whitelist_length)
  have allow: "interp_loop (whitelist_program ns) d nr args nr (2 + 2 * j) = Allow"
    using lt whitelist_nth(2) [OF j(1)] by (subst interp_loop.simps) simp
  have "interp_loop (whitelist_program ns) d nr args nr (1 + 2 * j) =
      interp_loop (whitelist_program ns) d nr args nr (if nr = ns ! j then 2 + 2 * j else 3 + 2 * j)"
    using lt whitelist_nth(1) [OF j(1)] by (subst interp_loop.simps) (simp add: jump_def numeral_3_eq_3)
  moreover have "drop j ns = ns ! j # drop (j + 1) ns" using j(1) by (simp add: Cons_nth_drop_Suc)
  moreover have "1 + 2 * (j + 1) = 3 + 2 * j" by simp
  ultimately show ?case using allow IH by (cases "nr = ns ! j") (simp_all add: numeral_3_eq_3)
qed

lemma whitelist_exact:
  "interpret_program (whitelist_program ns) d nr args = (if nr \<in> set ns then Allow else Kill)"
proof -
  have "interpret_program (whitelist_program ns) d nr args = interp_loop (whitelist_program ns) d nr args nr 1"
    using whitelist_last(2) [of ns] unfolding interpret_program_def
    by (subst interp_loop.simps) (simp add: whitelist_length)
  then show ?thesis using whitelist_from [of 0 ns d nr args] by simp
qed

lemma strict_is_whitelist: "STRICT_PROGRAM = whitelist_program STRICT_ALLOWED"
  by (simp add: STRICT_PROGRAM_def STRICT_ALLOWED_def whitelist_program_def)

lemma whitelist_valid:
  assumes "2 + 2 * length ns \<le> limit"
  shows "validate_program_with_limit (whitelist_program ns) limit = Ok ()"
proof -
  have "check_insn (2 + 2 * length ns) i (whitelist_program ns ! i) = None" if "i < 2 + 2 * length ns" for i
  proof -
    consider "i = 0" | "i = 1 + 2 * length ns" | j where "j < length ns" "i = 1 + 2 * j" | j where "j < length ns" "i = 2 + 2 * j"
    proof -
      have "(\<exists>j. i = 2 * j) \<or> (\<exists>j. i = 2 * j + 1)" by (metis evenE oddE)
      then show thesis
      proof
        assume "\<exists>j. i = 2 * j"
        then obtain j where j: "i = 2 * j" by blast
        show thesis
        proof (cases j)
          case (Suc k)
          with j \<open>i < 2 + 2 * length ns\<close> show ?thesis by (intro that(4) [of k]) auto
        qed (use j that(1) in simp)
      next
        assume "\<exists>j. i = 2 * j + 1"
        then obtain j where j: "i = 2 * j + 1" by blast
        with \<open>i < 2 + 2 * length ns\<close> have "j \<le> length ns" by simp
        then show thesis using j that(2) that(3) [of j] by (cases "j = length ns") auto
      qed
    qed
    then show ?thesis
      by cases (simp_all add: whitelist_last whitelist_nth [simplified] whitelist_last [simplified])
  qed
  then have "check_insns (length (whitelist_program ns)) 0 (whitelist_program ns) = None"
    by (simp add: check_insns_None whitelist_length)
  moreover have "is_ret (last (whitelist_program ns))" "whitelist_program ns \<noteq> []"
    by (simp_all add: whitelist_program_def)
  ultimately show ?thesis using assms by (simp add: validate_program_with_limit_def whitelist_length)
qed

section \<open>The compiled list and the semantic gate\<close>

lemma pledge_list_set: "set (pledge_syscall_list p) = set (pledge_raw_list p)"
  by (simp add: pledge_syscall_list_def)

lemma distinct_remdups_adj: "sorted xs \<Longrightarrow> distinct (remdups_adj xs)"
  by (induction xs rule: remdups_adj.induct) auto

lemma pledge_list_sorted: "sorted (pledge_syscall_list p) \<and> distinct (pledge_syscall_list p)"
  by (simp add: pledge_syscall_list_def distinct_remdups_adj)

text \<open>A promise set intersects a union exactly when it contains one of its single bits.\<close>

lemma contains_bit: "n < 32 \<Longrightarrow> contains p (push_bit n 1) \<longleftrightarrow> bit p n"
proof -
  assume n: "n < 32"
  have "p AND push_bit n 1 = push_bit n 1 \<longleftrightarrow> bit p n"
  proof
    assume "p AND push_bit n 1 = push_bit n 1"
    then have "bit (p AND push_bit n 1) n = bit (push_bit n 1 :: u32) n" by simp
    then show "bit p n" using n by (simp add: bit_and_iff bit_exp_iff)
  next
    assume "bit p n"
    then show "p AND push_bit n 1 = push_bit n 1"
      by (intro bit_word_eqI) (auto simp: bit_and_iff bit_exp_iff)
  qed
  then show ?thesis by (simp add: contains_def)
qed

lemma path_promise:
  "intersects p (P_RPATH OR P_WPATH OR P_CPATH OR P_TMPPATH) \<longleftrightarrow>
   contains p P_RPATH \<or> contains p P_WPATH \<or> contains p P_CPATH \<or> contains p P_TMPPATH"
proof -
  have one: "p AND push_bit n 1 \<noteq> 0 \<longleftrightarrow> contains p (push_bit n 1)" if n: "n < 32" for n
  proof -
    have "p AND push_bit n 1 = (if bit p n then push_bit n 1 else 0)"
      by (intro bit_word_eqI) (auto simp: bit_and_iff bit_exp_iff)
    then show ?thesis using contains_bit [OF n] n by simp
  qed
  have each: "p AND P_RPATH \<noteq> 0 \<longleftrightarrow> contains p P_RPATH" "p AND P_WPATH \<noteq> 0 \<longleftrightarrow> contains p P_WPATH"
    "p AND P_CPATH \<noteq> 0 \<longleftrightarrow> contains p P_CPATH" "p AND P_TMPPATH \<noteq> 0 \<longleftrightarrow> contains p P_TMPPATH"
    using one [of 1] one [of 2] one [of 3] one [of 4] by (simp_all add: promise_bits)
  have "p AND (a OR b) = 0 \<longleftrightarrow> p AND a = 0 \<and> p AND b = 0" for a b :: u32
    by (simp add: bit.conj_disj_distrib or_eq_0_iff)
  then show ?thesis using each by (simp only: intersects_def) blast
qed

lemma zero_args: "replicate 6 (0::u64) ! 0 = 0" "replicate 6 (0::u64) ! 1 = 0" "replicate 6 (0::u64) ! 2 = 0"
  by simp_all

lemma thread_flags:
  "thread_clone_allowed (CLONE_THREAD OR CLONE_VM OR CLONE_SIGHAND)"
  by (simp add: thread_clone_allowed_def CLONE_THREAD_def CLONE_VM_def CLONE_SIGHAND_def NS_DISALLOWED_def)

lemma if_step: "(if c then t else e) \<Longrightarrow> (c \<Longrightarrow> t \<Longrightarrow> R) \<Longrightarrow> (e \<Longrightarrow> R) \<Longrightarrow> R"
  by (auto split: if_splits)

lemma in_if: "x \<in> set (if c then xs else []) \<longleftrightarrow> c \<and> x \<in> set xs"
  by simp

lemma open_elim:
  "open_allowed p flags \<Longrightarrow> (contains p P_RPATH \<Longrightarrow> R) \<Longrightarrow> (contains p P_WPATH \<Longrightarrow> R) \<Longrightarrow>
   (contains p P_CPATH \<Longrightarrow> R) \<Longrightarrow> (contains p P_TMPPATH \<Longrightarrow> R) \<Longrightarrow> R"
  unfolding open_allowed_def Let_def path_promise by (auto split: if_splits)

lemma map_elim: "map_allowed p prot \<Longrightarrow> (contains p P_VM \<Longrightarrow> R) \<Longrightarrow> R"
  by (simp add: map_allowed_def split: if_splits)

lemma gate_in_list:
  assumes "promise_allows_syscall p nr args"
  shows "nr \<in> set (pledge_raw_list p)"
  using assms unfolding promise_allows_syscall_def pledge_raw_list_def set_append Un_iff in_if list.set insert_iff empty_iff
  by (elim if_step conjE disjE open_elim map_elim) (simp_all only: simp_thms)

lemma open_probe:
  "contains p P_RPATH \<or> contains p P_WPATH \<or> contains p P_CPATH \<or> contains p P_TMPPATH \<Longrightarrow> open_allowed p 0"
  by (simp add: open_allowed_def Let_def path_promise O_WRONLY_def O_RDWR_def)

definition thread_args :: "u64 list" where
  "thread_args = (CLONE_THREAD OR CLONE_VM OR CLONE_SIGHAND) # replicate 5 0"

lemma gate_probes:
  "contains p P_RPATH \<Longrightarrow> open_allowed p 0" "contains p P_WPATH \<Longrightarrow> open_allowed p 0"
  "contains p P_CPATH \<Longrightarrow> open_allowed p 0" "contains p P_TMPPATH \<Longrightarrow> open_allowed p 0"
  "contains p P_VM \<Longrightarrow> map_allowed p 0" "proc_clone_allowed p 0"
  "contains p P_THREAD \<Longrightarrow> proc_clone_allowed p (CLONE_THREAD OR CLONE_VM OR CLONE_SIGHAND)"
  by (simp_all add: open_probe map_allowed_def proc_clone_allowed_def CLONE_THREAD_def CLONE_VM_def CLONE_SIGHAND_def
      NS_DISALLOWED_def)

lemma list_in_gate:
  assumes "nr \<in> set (pledge_raw_list p)"
  shows "promise_allows_syscall p nr (replicate 6 0) \<or> promise_allows_syscall p nr thread_args"
  using assms unfolding pledge_raw_list_def set_append Un_iff in_if list.set insert_iff empty_iff
  by (elim conjE disjE)
    (simp_all add: promise_allows_syscall_def sys_nr gate_probes thread_args_def thread_flags zero_args)

lemma gate_iff_list:
  "nr \<in> set (pledge_syscall_list p) \<longleftrightarrow> (\<exists>args. length args = 6 \<and> promise_allows_syscall p nr args)"
proof -
  have "length thread_args = 6" by (simp add: thread_args_def)
  then show ?thesis using gate_in_list list_in_gate unfolding pledge_list_set by (metis length_replicate)
qed

lemma list_length: "length (pledge_syscall_list p) \<le> 57"
proof -
  define all where "all = [SYS_EXIT, SYS_EXIT_GROUP, SYS_READ, SYS_WRITE, SYS_CLOSE, SYS_FSTAT, SYS_LSEEK, SYS_GETPID,
     SYS_GETUID, SYS_GETGID, SYS_GETEUID, SYS_GETEGID, SYS_GETPPID, SYS_SCHED_YIELD, SYS_POLL, SYS_SELECT, SYS_PSELECT6,
     SYS_PPOLL, SYS_FSYNC, SYS_FDATASYNC, SYS_SYNC, SYS_SYNC_FILE_RANGE, SYS_OPEN, SYS_OPENAT, SYS_STAT, SYS_LSTAT,
     SYS_READLINK, SYS_GETDENTS64, SYS_RENAME, SYS_UNLINK, SYS_SYMLINK, SYS_MKDIR, SYS_RMDIR, SYS_LINK, SYS_MMAP,
     SYS_MPROTECT, SYS_MUNMAP, SYS_BRK, SYS_MREMAP, SYS_CLONE, SYS_FORK, SYS_VFORK, SYS_WAIT4, SYS_KILL, SYS_WAITID,
     SYS_EXECVE, SYS_FUTEX, SYS_SET_TID_ADDRESS, SYS_CLOCK_GETTIME, SYS_GETRANDOM, SYS_CHMOD, SYS_CHOWN, SYS_FCHMOD,
     SYS_FCHOWN, SYS_GETRLIMIT, SYS_SETRLIMIT, SYS_PRLIMIT64]"
  have "nr \<in> set all" if "nr \<in> set (pledge_raw_list p)" for nr
    using that unfolding pledge_raw_list_def all_def set_append Un_iff in_if list.set insert_iff empty_iff
    by (elim conjE disjE) (simp_all only: simp_thms)
  then have "set (pledge_syscall_list p) \<subseteq> set all" by (auto simp: pledge_list_set)
  then have "card (set (pledge_syscall_list p)) \<le> card (set all)" by (intro card_mono) simp_all
  also have "\<dots> \<le> 57" using card_length [of all] by (simp add: all_def)
  finally show ?thesis using pledge_list_sorted [of p] by (simp add: distinct_card)
qed

section \<open>Monotonicity\<close>

lemma contains_trans: "contains q p \<Longrightarrow> contains p b \<Longrightarrow> contains q b"
  unfolding contains_def by (metis and.assoc)

lemma open_mono: "contains q p \<Longrightarrow> open_allowed p f \<Longrightarrow> open_allowed q f"
  unfolding open_allowed_def Let_def path_promise by (auto dest: contains_trans split: if_splits)

lemma map_mono: "contains q p \<Longrightarrow> map_allowed p f \<Longrightarrow> map_allowed q f"
  unfolding map_allowed_def by (auto dest: contains_trans split: if_splits)

lemma proc_mono: "contains q p \<Longrightarrow> proc_clone_allowed p f \<Longrightarrow> proc_clone_allowed q f"
  unfolding proc_clone_allowed_def Let_def by (auto dest: contains_trans split: if_splits)

text \<open>A clone the thread promise admits is also admitted by the stricter-looking process branch.\<close>

lemma thread_as_proc: "contains p P_THREAD \<Longrightarrow> thread_clone_allowed f \<Longrightarrow> proc_clone_allowed p f"
  unfolding proc_clone_allowed_def thread_clone_allowed_def Let_def by (auto split: if_splits)

lemma clone_gate:
  "promise_allows_syscall p SYS_CLONE args \<longleftrightarrow>
   contains p P_PROC \<and> proc_clone_allowed p (args ! 0) \<or>
   \<not> contains p P_PROC \<and> contains p P_THREAD \<and> thread_clone_allowed (args ! 0)"
  by (simp add: promise_allows_syscall_def sys_nr)

lemma clone_mono:
  assumes "contains q p" "promise_allows_syscall p SYS_CLONE args"
  shows "promise_allows_syscall q SYS_CLONE args"
  using assms contains_trans [OF assms(1)] proc_mono [OF assms(1)] thread_as_proc [of q]
  unfolding clone_gate by blast

lemma gate_mono:
  assumes qp: "contains q p" and a: "promise_allows_syscall p nr args"
  shows "promise_allows_syscall q nr args"
proof (cases "nr = SYS_CLONE")
  case True
  then show ?thesis using clone_mono [OF qp] a by simp
next
  case False
  have up: "contains p b \<Longrightarrow> contains q b" for b using contains_trans [OF qp] .
  from a show ?thesis using False
    unfolding promise_allows_syscall_def [of p] list.set insert_iff empty_iff
    by (elim if_step conjE disjE)
      (simp_all add: promise_allows_syscall_def sys_nr up open_mono [OF qp] map_mono [OF qp])
qed

section \<open>Promise strings\<close>

lemma promise_word_chars:
  "(w, b) \<in> set promise_words \<Longrightarrow> w \<noteq> [] \<and> (\<forall>c \<in> set w. \<not> is_whitespace c)"
  by (auto simp: promise_words_def scalars_def is_whitespace_def)

lemma promise_words_distinct: "distinct (map fst promise_words)"
  by (simp add: promise_words_def scalars_def)

lemma split_word:
  assumes "w \<noteq> []" "\<forall>c \<in> set w. \<not> is_whitespace c" "is_whitespace d"
  shows "split_whitespace (w @ d # s) = w # split_whitespace s"
proof -
  obtain c cs where w: "w = c # cs" using assms(1) by (cases w) auto
  have "split_whitespace (d # s) = split_whitespace s"
    using assms(3) by (subst (1 2) split_whitespace.simps) simp
  with assms w show ?thesis by (subst split_whitespace.simps) (simp add: takeWhile_append dropWhile_append)
qed

lemma parse_words_known:
  "\<forall>w \<in> set ws. map_of promise_words w \<noteq> None \<Longrightarrow>
   parse_words ws acc = Ok (foldl (\<lambda>a w. a OR the (map_of promise_words w)) acc ws)"
  by (induction ws arbitrary: acc) auto

lemma parse_words_unknown:
  "\<exists>w \<in> set ws. map_of promise_words w = None \<Longrightarrow> parse_words ws acc = Err InvalidPromise"
  by (induction ws arbitrary: acc) (auto split: option.splits)

definition print_promises :: "(nat list \<times> promises) list \<Rightarrow> nat list" where
  "print_promises es = concat (map (\<lambda>(w, b). w @ [32]) es)"

lemma split_print:
  assumes "set es \<subseteq> set promise_words"
  shows "split_whitespace (print_promises es) = map fst es"
  using assms
proof (induction es)
  case Nil
  show ?case by (subst split_whitespace.simps) (simp add: print_promises_def)
next
  case (Cons e es)
  obtain w b where e: "e = (w, b)" by fastforce
  have "is_whitespace 32" by (simp add: is_whitespace_def)
  with Cons e show ?case using promise_word_chars [of w b] split_word [of w 32 "print_promises es"]
    by (simp add: print_promises_def)
qed

lemma parse_print:
  assumes "set es \<subseteq> set promise_words"
  shows "parse_promises (print_promises es) = Ok (foldl (OR) 0 (map snd es))"
proof -
  have look: "map_of promise_words (fst e) = Some (snd e)" if "e \<in> set es" for e
    using that assms promise_words_distinct by (cases e) auto
  then have "foldl (\<lambda>a w. a OR the (map_of promise_words w)) acc (map fst es) = foldl (OR) acc (map snd es)" for acc
    by (induction es arbitrary: acc) auto
  with look show ?thesis
    by (simp add: parse_promises_def split_print [OF assms] parse_words_known)
qed

section \<open>Claims\<close>

text \<open>
  C31: strict mode. The fixed strict program passes validation and, for every system call number and
  argument array and whatever the default action of the filter, allows exactly read, write,
  rt_sigreturn, exit and exit_group and kills every other call.
\<close>
theorem strict_program_exact:
  "validate_program STRICT_PROGRAM = Ok () \<and>
   interpret_program STRICT_PROGRAM d nr args = (if nr \<in> {0, 1, 15, 60, 231} then Allow else Kill)"
proof -
  have "validate_program STRICT_PROGRAM = Ok ()"
    unfolding validate_program_def strict_is_whitelist
    by (rule whitelist_valid) (simp add: STRICT_ALLOWED_def MAX_INSNS_def)
  moreover have "set STRICT_ALLOWED = {0, 1, 15, 60, 231}" by (simp add: STRICT_ALLOWED_def)
  ultimately show ?thesis by (simp only: strict_is_whitelist whitelist_exact simp_thms)
qed

text \<open>
  C5: pledge compilation. For every promise set the compiled list is strictly sorted, fits the
  reserved capacity, and the generated program passes the trusted validation limit, so compiling a
  pledge never falls back for size. The program allows a call number exactly when the semantic gate
  admits that number for some argument array: the two independent encodings of a promise set, the
  list the filter is generated from and the gate checked at dispatch, agree on every number, and a
  call that no argument could make legal is killed.
\<close>
theorem pledge_program_exact:
  "sorted (pledge_syscall_list p) \<and> distinct (pledge_syscall_list p) \<and>
   length (pledge_syscall_list p) \<le> MAX_PLEDGE_SYSCALLS \<and>
   validate_program_with_limit (pledge_program p) MAX_TRUSTED_INSNS = Ok () \<and>
   interpret_program (pledge_program p) d nr args =
     (if \<exists>as. length as = 6 \<and> promise_allows_syscall p nr as then Allow else Kill)"
proof -
  have "validate_program_with_limit (pledge_program p) MAX_TRUSTED_INSNS = Ok ()"
    unfolding pledge_program_def by (rule whitelist_valid) (use list_length [of p] in \<open>simp add: MAX_TRUSTED_INSNS_def\<close>)
  then show ?thesis using pledge_list_sorted [of p] list_length [of p]
    by (simp add: MAX_PLEDGE_SYSCALLS_def pledge_program_def whitelist_exact gate_iff_list)
qed

text \<open>
  C24: narrowing a pledge only removes rights. Whatever a promise set admits, for a call number and
  concrete arguments, every larger promise set admits as well; in particular giving up a promise can
  never make a call legal that was illegal before, although the clone rule is decided by a different
  branch depending on which promises are held.
\<close>
theorem pledge_narrowing_monotone:
  assumes "contains q p" "promise_allows_syscall p nr args"
  shows "promise_allows_syscall q nr args"
  using gate_mono [OF assms] .

text \<open>The witness: a thread creation admitted through the thread promise alone stays admitted with the process promise.\<close>

theorem pledge_narrowing_monotone_witness:
  "promise_allows_syscall (P_THREAD OR P_PROC) SYS_CLONE thread_args"
proof -
  have "contains (P_THREAD OR P_PROC) P_THREAD" "contains P_THREAD P_THREAD" "\<not> contains P_THREAD P_PROC"
    by (simp_all add: contains_def promise_bits)
  moreover then have "promise_allows_syscall P_THREAD SYS_CLONE thread_args"
    by (simp add: clone_gate thread_args_def thread_flags)
  ultimately show ?thesis using pledge_narrowing_monotone by blast
qed

text \<open>
  C32: promise strings. Printing any sequence of known promise names separated by blanks and parsing
  it gives exactly the union of their bits; and a string is rejected with the invalid-promise error
  exactly when one of its words is not a promise name.
\<close>
theorem parse_promises_exact:
  assumes "set es \<subseteq> set promise_words"
  shows "parse_promises (print_promises es) = Ok (foldl (OR) 0 (map snd es)) \<and>
    (parse_promises s = Err InvalidPromise \<longleftrightarrow> (\<exists>w \<in> set (split_whitespace s). w \<notin> fst ` set promise_words))"
proof -
  have "map_of promise_words w = None \<longleftrightarrow> w \<notin> fst ` set promise_words" for w
    by (simp add: map_of_eq_None_iff)
  then have "parse_promises s = Err InvalidPromise \<longleftrightarrow>
      (\<exists>w \<in> set (split_whitespace s). w \<notin> fst ` set promise_words)"
    unfolding parse_promises_def
    using parse_words_known [of "split_whitespace s" 0] parse_words_unknown [of "split_whitespace s" 0]
    by (metis Inr_Inl_False)
  with parse_print [OF assms] show ?thesis by simp
qed

theorem parse_promises_exact_witness:
  "parse_promises (scalars ''stdio rpath '') = Ok 3 \<and> parse_promises (scalars ''root'') = Err InvalidPromise"
proof -
  let ?es = "[(scalars ''stdio'', P_STDIO), (scalars ''rpath'', P_RPATH)]"
  have sub: "set ?es \<subseteq> set promise_words" by (simp add: promise_words_def)
  have "print_promises ?es = scalars ''stdio rpath ''" by (simp add: print_promises_def scalars_def)
  moreover have "foldl (OR) 0 (map snd ?es) = (3 :: u32)" by (simp add: promise_bits)
  moreover have "split_whitespace (scalars ''root'') = [scalars ''root'']"
    by (subst split_whitespace.simps) (simp add: scalars_def is_whitespace_def split_whitespace.simps [of "[]"])
  moreover have "scalars ''root'' \<notin> fst ` set promise_words" by (simp add: promise_words_def scalars_def)
  ultimately show ?thesis using parse_promises_exact [OF sub] by (metis list.set_intros(1))
qed

end
