(* ===== verification/SeccompState.thy ===== *)
theory SeccompState
  imports Pledge Admitted
begin

text \<open>
  Installed filters (\<^verbatim>\<open>kernel/seccomp/types.rs\<close>): construction of a filter with its program charged to
  the heap ledger, the fixed table that carries the charge of every filter's control block, reference
  counted sharing, and the per-process chain. Control blocks are shared between processes, so they live
  in an explicit store: the block of a handle is found at the slot of its allocator capability, under
  which exactly one block is ever allocated. Dereferencing a block that is not there is \<open>None\<close>, as is a
  panic. Allocator outcomes and the sizes of Rust types are parameters.
\<close>

section \<open>Filters with a paid program\<close>

type_synonym sec_filter = "heap_charge option seccomp_filter"

record sec_env =
  insn_layout :: elem_layout
  prog_vec_size :: usize
  prog_vec_align :: usize
  filter_size :: usize
  filter_align :: usize
  handle_layout :: elem_layout

record sec_allocs =
  prog_grant :: "usize \<Rightarrow> usize option"
  prog_arc_ok :: bool
  chain_grant :: "usize \<Rightarrow> usize option"
  filter_arc_ok :: bool

text \<open>The bytes of a retained program: its shared vector header and the vector's backing.\<close>

definition prog_charge :: "sec_env \<Rightarrow> usize \<Rightarrow> usize option" where
  "prog_charge env capacity =
     (case arc_charge_bytes (prog_vec_size env) (prog_vec_align env) of
        Inl _ \<Rightarrow> None
      | Inr arc_bytes \<Rightarrow>
          (case charge_of (insn_layout env) capacity of
             Inl _ \<Rightarrow> None
           | Inr vec_bytes \<Rightarrow> checked_add_usize arc_bytes vec_bytes))"

definition new_validated_from_slice ::
  "'h heap_calls \<Rightarrow> sec_env \<Rightarrow> sec_allocs \<Rightarrow> seccomp_insn list \<Rightarrow> seccomp_action \<Rightarrow> u32 \<Rightarrow> 'h \<Rightarrow>
   ('h \<times> (seccomp_error + sec_filter)) option" where
  "new_validated_from_slice hp env al prog dflt flags h =
     (case prog_charge env (length prog) of
        None \<Rightarrow> Some (h, Err SeccompOutOfMemory)
      | Some total_bytes \<Rightarrow> do {
          (h1, r) \<leftarrow> reserve_heap hp CoreProcess total_bytes h;
          case r of
            Inl _ \<Rightarrow> Some (h1, Err SeccompOutOfMemory)
          | Inr reservation \<Rightarrow>
              (case prog_grant al (length prog) of
                 None \<Rightarrow> abandon hp reservation SeccompOutOfMemory h1
               | Some capacity \<Rightarrow>
                   (case prog_charge env capacity of
                      None \<Rightarrow> abandon hp reservation SeccompOutOfMemory h1
                    | Some actual \<Rightarrow> do {
                        (h2, reservation', res) \<leftarrow> resize_heap hp reservation actual h1;
                        case res of
                          Inl _ \<Rightarrow> abandon hp reservation' SeccompOutOfMemory h2
                        | Inr _ \<Rightarrow>
                            if \<not> prog_arc_ok al then abandon hp reservation' SeccompOutOfMemory h2
                            else do {
                              (h3, k) \<leftarrow> commit_heap hp reservation' h2;
                              Some (h3, case k of
                                Inl _ \<Rightarrow> Err SeccompOutOfMemory
                              | Inr charge \<Rightarrow>
                                  Ok \<lparr>default_action = dflt, filter_prog = prog,
                                      fast_allow = compute_fast_allow prog dflt,
                                      filter_id = compute_filter_id prog, filter_flags = flags,
                                      prog_heap_charge = Some charge\<rparr>) } })) })"

definition new_from_slice ::
  "'h heap_calls \<Rightarrow> sec_env \<Rightarrow> sec_allocs \<Rightarrow> seccomp_insn list \<Rightarrow> seccomp_action \<Rightarrow> u32 \<Rightarrow> 'h \<Rightarrow>
   ('h \<times> (seccomp_error + sec_filter)) option" where
  "new_from_slice hp env al prog dflt flags h =
     (case validate_program prog of
        Inl e \<Rightarrow> Some (h, Err e)
      | Inr _ \<Rightarrow> new_validated_from_slice hp env al prog dflt flags h)"

definition new_trusted_from_slice ::
  "'h heap_calls \<Rightarrow> sec_env \<Rightarrow> sec_allocs \<Rightarrow> seccomp_insn list \<Rightarrow> seccomp_action \<Rightarrow> u32 \<Rightarrow> 'h \<Rightarrow>
   ('h \<times> (seccomp_error + sec_filter)) option" where
  "new_trusted_from_slice hp env al prog dflt flags h =
     (case validate_program_with_limit prog MAX_TRUSTED_INSNS of
        Inl e \<Rightarrow> Some (h, Err e)
      | Inr _ \<Rightarrow> new_validated_from_slice hp env al prog dflt flags h)"

definition drop_filter :: "'h heap_calls \<Rightarrow> sec_filter \<Rightarrow> 'h \<Rightarrow> 'h option" where
  "drop_filter hp flt h = drop_charge_opt hp (prog_heap_charge flt) h"

definition deny_all_filter :: "'h heap_calls \<Rightarrow> sec_env \<Rightarrow> sec_allocs \<Rightarrow> 'h \<Rightarrow> ('h \<times> sec_filter) option" where
  "deny_all_filter hp env al h = do {
     (h1, r) \<leftarrow> new_trusted_from_slice hp env al [Ret Kill] Kill 0 h;
     case r of Inl _ \<Rightarrow> None | Inr flt \<Rightarrow> Some (h1, flt) }"

definition try_strict_filter ::
  "'h heap_calls \<Rightarrow> sec_env \<Rightarrow> sec_allocs \<Rightarrow> 'h \<Rightarrow> ('h \<times> (seccomp_error + sec_filter)) option" where
  "try_strict_filter hp env al h = new_trusted_from_slice hp env al STRICT_PROGRAM Kill 0 h"

definition strict_filter_id :: u64 where
  "strict_filter_id = compute_filter_id STRICT_PROGRAM"

definition strict_filter ::
  "'h heap_calls \<Rightarrow> sec_env \<Rightarrow> sec_allocs \<Rightarrow> sec_allocs \<Rightarrow> 'h \<Rightarrow> ('h \<times> sec_filter) option" where
  "strict_filter hp env al al' h = do {
     (h1, r) \<leftarrow> try_strict_filter hp env al h;
     case r of Inl _ \<Rightarrow> deny_all_filter hp env al' h1 | Inr flt \<Rightarrow> Some (h1, flt) }"

definition pledge_to_filter ::
  "'h heap_calls \<Rightarrow> sec_env \<Rightarrow> sec_allocs \<Rightarrow> sec_allocs \<Rightarrow> promises \<Rightarrow> 'h \<Rightarrow> ('h \<times> sec_filter) option" where
  "pledge_to_filter hp env al al' p h = do {
     (h1, r) \<leftarrow> new_trusted_from_slice hp env al (pledge_program p) Kill 0 h;
     case r of Inl _ \<Rightarrow> deny_all_filter hp env al' h1 | Inr flt \<Rightarrow> Some (h1, flt) }"

section \<open>Control blocks and their charges\<close>

definition SECCOMP_ARC_CHARGE_SLOTS :: usize where
  "SECCOMP_ARC_CHARGE_SLOTS = limit_bytes CoreProcess div (4 * USIZE_BYTES)"

record arc_charge_slot =
  slot_gen :: u64
  slot_allocated :: bool
  slot_charge :: heap_charge

record arc_allocator =
  alloc_slot :: u16
  alloc_gen :: u64

record arc_world =
  arc_charges :: "arc_charge_slot option list"
  next_arc_gen :: u64
  arc_blocks :: "(sec_filter \<times> nat) option list"

definition arc_boot :: arc_world where
  "arc_boot = \<lparr>arc_charges = replicate SECCOMP_ARC_CHARGE_SLOTS None, next_arc_gen = 1,
     arc_blocks = replicate SECCOMP_ARC_CHARGE_SLOTS None\<rparr>"

fun first_free :: "'a option list \<Rightarrow> nat option" where
  "first_free [] = None"
| "first_free (None # xs) = Some 0"
| "first_free (Some _ # xs) = map_option Suc (first_free xs)"

definition arc_try_install :: "heap_charge \<Rightarrow> arc_world \<Rightarrow> arc_world \<times> (heap_charge + arc_allocator)" where
  "arc_try_install charge w =
     (case checked_add_word (next_arc_gen w) 1 of
        None \<Rightarrow> (w, Err charge)
      | Some g \<Rightarrow>
          (let generation = next_arc_gen w; w1 = w\<lparr>next_arc_gen := g\<rparr> in
           case first_free (arc_charges w1) of
             None \<Rightarrow> (w1, Err charge)
           | Some i \<Rightarrow>
               (w1\<lparr>arc_charges := (arc_charges w1)[i :=
                    Some \<lparr>slot_gen = generation, slot_allocated = False, slot_charge = charge\<rparr>]\<rparr>,
                Ok \<lparr>alloc_slot = word_of_nat i, alloc_gen = generation\<rparr>)))"

definition arc_take_charge :: "arc_allocator \<Rightarrow> arc_world \<Rightarrow> (arc_world \<times> heap_charge) option" where
  "arc_take_charge a w =
     (let i = unat (alloc_slot a) in
      if length (arc_charges w) \<le> i then None
      else case arc_charges w ! i of
        None \<Rightarrow> None
      | Some entry \<Rightarrow>
          if slot_gen entry = alloc_gen a
          then Some (w\<lparr>arc_charges := (arc_charges w)[i := None]\<rparr>, slot_charge entry)
          else None)"

definition cancel_failed_allocation :: "'h heap_calls \<Rightarrow> arc_allocator \<Rightarrow> arc_world \<Rightarrow> 'h \<Rightarrow> (arc_world \<times> 'h) option" where
  "cancel_failed_allocation hp a w h = do {
     (w1, charge) \<leftarrow> arc_take_charge a w;
     h1 \<leftarrow> drop_heap_charge hp charge h;
     Some (w1, h1) }"

definition set_allocated :: "nat \<Rightarrow> bool \<Rightarrow> arc_world \<Rightarrow> arc_world" where
  "set_allocated i b w = w\<lparr>arc_charges := (arc_charges w)[i := map_option (slot_allocated_update (\<lambda>_. b)) (arc_charges w ! i)]\<rparr>"

definition arc_allocate :: "arc_allocator \<Rightarrow> bool \<Rightarrow> arc_world \<Rightarrow> arc_world \<times> bool" where
  "arc_allocate a global_ok w =
     (let i = unat (alloc_slot a) in
      if length (arc_charges w) \<le> i then (w, False)
      else case arc_charges w ! i of
        None \<Rightarrow> (w, False)
      | Some entry \<Rightarrow>
          if slot_gen entry \<noteq> alloc_gen a \<or> slot_allocated entry then (w, False)
          else if global_ok then (set_allocated i True w, True)
          else (set_allocated i False (set_allocated i True w), False))"

definition arc_deallocate :: "'h heap_calls \<Rightarrow> arc_allocator \<Rightarrow> arc_world \<Rightarrow> 'h \<Rightarrow> (arc_world \<times> 'h) option" where
  "arc_deallocate hp a w h = do {
     (w1, charge) \<leftarrow> arc_take_charge a (w\<lparr>arc_blocks := (arc_blocks w)[unat (alloc_slot a) := None]\<rparr>);
     h1 \<leftarrow> drop_heap_charge hp charge h;
     Some (w1, h1) }"

text \<open>\<open>try_new_filter_arc\<close> from the installation of the committed charge on.\<close>

definition place_filter_arc ::
  "'h heap_calls \<Rightarrow> sec_allocs \<Rightarrow> sec_filter \<Rightarrow> heap_charge \<Rightarrow> arc_world \<Rightarrow> 'h \<Rightarrow>
   ('h \<times> arc_world \<times> (unit + arc_allocator)) option" where
  "place_filter_arc hp al flt charge w h =
     (case arc_try_install charge w of
        (w1, Inl charge') \<Rightarrow> do {
          h1 \<leftarrow> drop_heap_charge hp charge' h;
          h2 \<leftarrow> drop_filter hp flt h1;
          Some (h2, w1, Err ()) }
      | (w1, Inr a) \<Rightarrow>
          (case arc_allocate a (filter_arc_ok al) w1 of
             (w2, True) \<Rightarrow>
               Some (h, w2\<lparr>arc_blocks := (arc_blocks w2)[unat (alloc_slot a) := Some (flt, 1)]\<rparr>, Ok a)
           | (w2, False) \<Rightarrow> do {
               h1 \<leftarrow> drop_filter hp flt h;
               (w3, h2) \<leftarrow> cancel_failed_allocation hp a w2 h1;
               Some (h2, w3, Err ()) }))"

definition try_new_filter_arc ::
  "'h heap_calls \<Rightarrow> sec_env \<Rightarrow> sec_allocs \<Rightarrow> sec_filter \<Rightarrow> arc_world \<Rightarrow> 'h \<Rightarrow>
   ('h \<times> arc_world \<times> (unit + arc_allocator)) option" where
  "try_new_filter_arc hp env al flt w h =
     (case arc_charge_bytes (filter_size env) (filter_align env) of
        Inl _ \<Rightarrow> do { h1 \<leftarrow> drop_filter hp flt h; Some (h1, w, Err ()) }
      | Inr bytes \<Rightarrow> do {
          (h1, r) \<leftarrow> reserve_heap hp CoreProcess bytes h;
          case r of
            Inl _ \<Rightarrow> do { h2 \<leftarrow> drop_filter hp flt h1; Some (h2, w, Err ()) }
          | Inr reservation \<Rightarrow> do {
              (h2, k) \<leftarrow> commit_heap hp reservation h1;
              case k of
                Inl _ \<Rightarrow> do { h3 \<leftarrow> drop_filter hp flt h2; Some (h3, w, Err ()) }
              | Inr charge \<Rightarrow> place_filter_arc hp al flt charge w h2 } })"

text \<open>The block a handle points to, and the two operations on its strong count. The count saturates the
  pointer width long before it could overflow, where the library aborts.\<close>

definition arc_deref :: "arc_world \<Rightarrow> arc_allocator \<Rightarrow> sec_filter option" where
  "arc_deref w a =
     (if unat (alloc_slot a) < length (arc_blocks w) then map_option fst (arc_blocks w ! unat (alloc_slot a)) else None)"

definition arc_clone :: "arc_allocator \<Rightarrow> arc_world \<Rightarrow> arc_world option" where
  "arc_clone a w =
     (let i = unat (alloc_slot a) in
      if length (arc_blocks w) \<le> i then None
      else case arc_blocks w ! i of
        None \<Rightarrow> None
      | Some (flt, n) \<Rightarrow>
          if n < 2 ^ 63 then Some (w\<lparr>arc_blocks := (arc_blocks w)[i := Some (flt, n + 1)]\<rparr>) else None)"

definition arc_drop :: "'h heap_calls \<Rightarrow> arc_allocator \<Rightarrow> arc_world \<Rightarrow> 'h \<Rightarrow> (arc_world \<times> 'h) option" where
  "arc_drop hp a w h =
     (let i = unat (alloc_slot a) in
      if length (arc_blocks w) \<le> i then None
      else case arc_blocks w ! i of
        None \<Rightarrow> None
      | Some (flt, n) \<Rightarrow>
          if n \<noteq> 1 then Some (w\<lparr>arc_blocks := (arc_blocks w)[i := Some (flt, n - 1)]\<rparr>, h)
          else do {
            h1 \<leftarrow> drop_filter hp flt h;
            arc_deallocate hp a w h1 })"

section \<open>Per-process chains\<close>

record seccomp_state =
  chain :: "arc_allocator admitted"
  no_new_privs :: bool
  log_violations :: bool

definition state_new :: seccomp_state where
  "state_new = \<lparr>chain = vec_new CoreProcess, no_new_privs = False, log_violations = False\<rparr>"

fun deref_all :: "arc_world \<Rightarrow> arc_allocator list \<Rightarrow> sec_filter list option" where
  "deref_all w [] = Some []"
| "deref_all w (a # as) = do { flt \<leftarrow> arc_deref w a; rest \<leftarrow> deref_all w as; Some (flt # rest) }"

definition state_evaluate :: "arc_world \<Rightarrow> seccomp_state \<Rightarrow> u64 \<Rightarrow> u64 list \<Rightarrow> seccomp_verdict option" where
  "state_evaluate w st nr args = do {
     filters \<leftarrow> deref_all w (av_values (chain st));
     Some (chain_evaluate filters nr args) }"

definition prog_len :: "sec_filter \<Rightarrow> usize" where
  "prog_len flt = length (filter_prog flt)"

definition saturating_add_usize :: "usize \<Rightarrow> usize \<Rightarrow> usize" where
  "saturating_add_usize a b = min (a + b) usize_max"

definition drop_prepared :: "'h heap_calls \<Rightarrow> prepared_capacity option \<Rightarrow> 'h \<Rightarrow> 'h option" where
  "drop_prepared hp p h = (case p of None \<Rightarrow> Some h | Some q \<Rightarrow> drop_heap_reservation hp (prep_reservation q) h)"

definition add_filter ::
  "'h heap_calls \<Rightarrow> sec_env \<Rightarrow> sec_allocs \<Rightarrow> sec_filter \<Rightarrow> seccomp_state \<Rightarrow> arc_world \<Rightarrow> 'h \<Rightarrow>
   ('h \<times> arc_world \<times> seccomp_state \<times> (unit + unit)) option" where
  "add_filter hp env al flt st w h = do {
     filters \<leftarrow> deref_all w (av_values (chain st));
     if MAX_FILTER_INSNS_TOTAL < saturating_add_usize (sum_list (map prog_len filters)) (prog_len flt)
     then do { h1 \<leftarrow> drop_filter hp flt h; Some (h1, w, st, Err ()) }
     else do {
       (h1, r) \<leftarrow> vec_prepare_capacity_for hp (handle_layout env) (chain_grant al) (chain st) 1 h;
       case r of
         Inl _ \<Rightarrow> do { h2 \<leftarrow> drop_filter hp flt h1; Some (h2, w, st, Err ()) }
       | Inr prepared \<Rightarrow> do {
           (h2, w1, ra) \<leftarrow> try_new_filter_arc hp env al flt w h1;
           case ra of
             Inl _ \<Rightarrow> do { h3 \<leftarrow> drop_prepared hp prepared h2; Some (h3, w1, st, Err ()) }
           | Inr a \<Rightarrow> do {
               (h3, ch, ri) \<leftarrow> (case prepared of
                   None \<Rightarrow> Some (h2, chain st, Ok ())
                 | Some p \<Rightarrow> vec_install_prepared hp p (chain st) h2);
               case ri of
                 Inl _ \<Rightarrow> do { (w2, h4) \<leftarrow> arc_drop hp a w1 h3; Some (h4, w2, st\<lparr>chain := ch\<rparr>, Err ()) }
               | Inr _ \<Rightarrow>
                   (case vec_push_reserved a ch of
                      (ch', Inl a') \<Rightarrow> do { (w2, h4) \<leftarrow> arc_drop hp a' w1 h3; Some (h4, w2, st\<lparr>chain := ch'\<rparr>, Err ()) }
                    | (ch', Inr _) \<Rightarrow> Some (h3, w1, st\<lparr>chain := ch'\<rparr>, Ok ())) } } } }"

definition has_filters :: "seccomp_state \<Rightarrow> bool" where
  "has_filters st \<longleftrightarrow> av_values (chain st) \<noteq> []"

definition filter_count :: "seccomp_state \<Rightarrow> usize" where
  "filter_count st = length (av_values (chain st))"

definition single_filter_id :: "arc_world \<Rightarrow> seccomp_state \<Rightarrow> u64 option" where
  "single_filter_id w st =
     (case av_values (chain st) of [a] \<Rightarrow> map_option filter_id (arc_deref w a) | _ \<Rightarrow> None)"

fun clone_all :: "arc_allocator list \<Rightarrow> arc_world \<Rightarrow> arc_world option" where
  "clone_all [] w = Some w"
| "clone_all (a # as) w = do { w1 \<leftarrow> arc_clone a w; clone_all as w1 }"

text \<open>Copying the chain clones every handle once the new backing is installed.\<close>

definition state_try_clone ::
  "'h heap_calls \<Rightarrow> sec_env \<Rightarrow> sec_allocs \<Rightarrow> seccomp_state \<Rightarrow> arc_world \<Rightarrow> 'h \<Rightarrow>
   ('h \<times> arc_world \<times> (unit + seccomp_state)) option" where
  "state_try_clone hp env al st w h = do {
     (h1, r) \<leftarrow> vec_try_copy_from_slice hp (handle_layout env) (chain_grant al) CoreProcess (av_values (chain st)) h;
     case r of
       Inl _ \<Rightarrow> Some (h1, w, Err ())
     | Inr ch \<Rightarrow> do {
         w1 \<leftarrow> clone_all (av_values ch) w;
         Some (h1, w1, Ok \<lparr>chain = ch, no_new_privs = no_new_privs st, log_violations = log_violations st\<rparr>) } }"

fun drop_all :: "'h heap_calls \<Rightarrow> arc_allocator list \<Rightarrow> arc_world \<Rightarrow> 'h \<Rightarrow> (arc_world \<times> 'h) option" where
  "drop_all hp [] w h = Some (w, h)"
| "drop_all hp (a # as) w h = do { (w1, h1) \<leftarrow> arc_drop hp a w h; drop_all hp as w1 h1 }"

text \<open>Dropping a chain drops its elements and then releases the charge of the backing.\<close>

definition drop_state :: "'h heap_calls \<Rightarrow> seccomp_state \<Rightarrow> arc_world \<Rightarrow> 'h \<Rightarrow> (arc_world \<times> 'h) option" where
  "drop_state hp st w h = do {
     (w1, h1) \<leftarrow> drop_all hp (av_values (chain st)) w h;
     h2 \<leftarrow> drop_admitted hp (chain st) h1;
     Some (w1, h2) }"

section \<open>Dispatch hooks\<close>

record seccomp_hooks =
  CURRENT_EVALUATOR :: "(u64 \<Rightarrow> u64 list \<Rightarrow> seccomp_verdict) option"
  CURRENT_ENABLED_CHECK :: "(unit \<Rightarrow> bool) option"
  SECCOMP_INITIALIZED :: bool

definition hooks_boot :: seccomp_hooks where
  "hooks_boot = \<lparr>CURRENT_EVALUATOR = None, CURRENT_ENABLED_CHECK = None, SECCOMP_INITIALIZED = False\<rparr>"

definition register_current_hooks ::
  "(u64 \<Rightarrow> u64 list \<Rightarrow> seccomp_verdict) \<Rightarrow> (unit \<Rightarrow> bool) \<Rightarrow> seccomp_hooks \<Rightarrow> seccomp_hooks" where
  "register_current_hooks evaluator enabled_check k =
     k\<lparr>CURRENT_EVALUATOR := Some evaluator, CURRENT_ENABLED_CHECK := Some enabled_check, SECCOMP_INITIALIZED := True\<rparr>"

definition evaluate_current :: "seccomp_hooks \<Rightarrow> u64 \<Rightarrow> u64 list \<Rightarrow> seccomp_verdict" where
  "evaluate_current k nr args =
     (case CURRENT_EVALUATOR k of
        Some evaluator \<Rightarrow> evaluator nr args
      | None \<Rightarrow>
          if SECCOMP_INITIALIZED k then \<lparr>verdict_action = Kill, verdict_filter_id = 0\<rparr> else verdict_allow)"

definition hooks_enabled :: "seccomp_hooks \<Rightarrow> bool" where
  "hooks_enabled k = (case CURRENT_ENABLED_CHECK k of Some check \<Rightarrow> check () | None \<Rightarrow> False)"

text \<open>After registration the evaluator decides, and if it were lost every call would be killed.\<close>

lemma dispatch_fail_closed:
  "evaluate_current (register_current_hooks f g k) nr args = f nr args"
  "verdict_action (evaluate_current ((register_current_hooks f g k)\<lparr>CURRENT_EVALUATOR := None\<rparr>) nr args) = Kill"
  by (simp_all add: evaluate_current_def register_current_hooks_def)

section \<open>Bounds the ledger gives its clients\<close>

text \<open>The ledger also bounds what a client can hold: the charges of one class never exceed its limit.\<close>

definition class_bytes :: "heap_class \<Rightarrow> heap_charge multiset \<Rightarrow> nat" where
  "class_bytes cls C = (\<Sum>c\<in>#C. if hold_class c = cls then hold_bytes c else 0)"

lemma class_bytes_simps [simp]:
  "class_bytes cls {#} = 0"
  "class_bytes cls (add_mset c C) = (if hold_class c = cls then hold_bytes c else 0) + class_bytes cls C"
  "class_bytes cls (C + D) = class_bytes cls C + class_bytes cls D"
  by (simp_all add: class_bytes_def)

locale heap_client_bounded = heap_client +
  assumes class_bound: "hinv h R C \<Longrightarrow> class_bytes cls C \<le> limit_bytes cls"

lemma held_charged: "(\<Sum>x\<in>#held R C. charged_bytes (\<lambda>d. d = cls) x) = class_bytes cls C"
proof -
  have "(\<Sum>x\<in>#image_mset LiveReservation R. charged_bytes (\<lambda>d. d = cls) x) = 0" by (induction R) simp_all
  moreover have "(\<Sum>x\<in>#image_mset LiveCharge C. charged_bytes (\<lambda>d. d = cls) x) = class_bytes cls C"
    by (induction C) simp_all
  ultimately show ?thesis by (simp add: held_def)
qed

interpretation ledger_bounded: heap_client_bounded "ledger_heap own" "ledger_inv own L" for own L
proof
  fix H R C cls
  assume "ledger_inv own L H R C"
  from sys_cells(4,6) [OF ledger_inv_sys [OF this], of cls]
  show "class_bytes cls C \<le> limit_bytes cls" by (simp add: held_charged)
qed

section \<open>What the store holds\<close>

lemma sum_list_exchange:
  fixes f :: "'a \<Rightarrow> 'b::comm_monoid_add"
  assumes "i < length xs"
  shows "f x + sum_list (map f xs) = f (xs ! i) + sum_list (map f (xs[i := x]))"
  using assms
proof (induction xs arbitrary: i)
  case (Cons y ys)
  show ?case
  proof (cases i)
    case (Suc j)
    with Cons show ?thesis by (simp add: ac_simps) (metis Cons.IH add.left_commute)
  qed (simp add: ac_simps)
qed simp

lemma regroup:
  fixes a :: "'a::comm_monoid_add"
  assumes "a + b = c + d" "a' + b' = c' + d'"
  shows "a + a' + (b + b') = c + c' + (d + d')"
proof -
  have "a + a' + (b + b') = (a + b) + (a' + b')" by (simp add: ac_simps)
  also have "\<dots> = c + c' + (d + d')" unfolding assms by (simp add: ac_simps)
  finally show ?thesis .
qed

lemma first_free_Some: "first_free xs = Some i \<Longrightarrow> i < length xs \<and> xs ! i = None"
  by (induction xs arbitrary: i rule: first_free.induct) auto

lemma first_free_None: "first_free xs = None \<longleftrightarrow> None \<notin> set xs"
  by (induction xs rule: first_free.induct) auto

definition slot_ms :: "arc_charge_slot option \<Rightarrow> heap_charge multiset" where
  "slot_ms s = (case s of None \<Rightarrow> {#} | Some e \<Rightarrow> {#slot_charge e#})"

definition block_ms :: "(sec_filter \<times> nat) option \<Rightarrow> heap_charge multiset" where
  "block_ms b = (case b of None \<Rightarrow> {#} | Some (flt, n) \<Rightarrow> opt_ms (prog_heap_charge flt))"

definition world_ms :: "arc_world \<Rightarrow> heap_charge multiset" where
  "world_ms w = sum_list (map slot_ms (arc_charges w)) + sum_list (map block_ms (arc_blocks w))"

definition filter_ok :: "sec_filter \<Rightarrow> bool" where
  "filter_ok flt \<longleftrightarrow> fast_allow flt = compute_fast_allow (filter_prog flt) (default_action flt) \<and>
     validate_program_with_limit (filter_prog flt) MAX_TRUSTED_INSNS = Ok ()"

definition handles_at :: "nat \<Rightarrow> arc_allocator multiset \<Rightarrow> arc_allocator multiset" where
  "handles_at i hs = filter_mset (\<lambda>a. unat (alloc_slot a) = i) hs"

definition slot_ok :: "arc_charge_slot option \<Rightarrow> (sec_filter \<times> nat) option \<Rightarrow> arc_allocator multiset \<Rightarrow> bool" where
  "slot_ok s b hs \<longleftrightarrow>
     (case s of
        None \<Rightarrow> b = None \<and> hs = {#}
      | Some e \<Rightarrow> (\<exists>flt n. b = Some (flt, n) \<and> 1 \<le> n \<and> size hs = n \<and> (\<forall>a\<in>#hs. alloc_gen a = slot_gen e) \<and>
          slot_allocated e \<and> hold_class (slot_charge e) = CoreProcess \<and> 4 * USIZE_BYTES \<le> hold_bytes (slot_charge e) \<and>
          filter_ok flt))"

definition world_wf :: "arc_world \<Rightarrow> arc_allocator multiset \<Rightarrow> bool" where
  "world_wf w hs \<longleftrightarrow>
     length (arc_charges w) = SECCOMP_ARC_CHARGE_SLOTS \<and> length (arc_blocks w) = SECCOMP_ARC_CHARGE_SLOTS \<and>
     (\<forall>i < SECCOMP_ARC_CHARGE_SLOTS. slot_ok (arc_charges w ! i) (arc_blocks w ! i) (handles_at i hs)) \<and>
     (\<forall>a\<in>#hs. unat (alloc_slot a) < SECCOMP_ARC_CHARGE_SLOTS)"

lemma handles_at_simps [simp]:
  "handles_at i {#} = {#}"
  "handles_at i (add_mset a hs) = (if unat (alloc_slot a) = i then add_mset a (handles_at i hs) else handles_at i hs)"
  by (simp_all add: handles_at_def)

lemma in_handles_at: "a \<in># handles_at i hs \<longleftrightarrow> a \<in># hs \<and> unat (alloc_slot a) = i"
  by (auto simp: handles_at_def)

lemma slots_value: "SECCOMP_ARC_CHARGE_SLOTS = 16384"
  by (simp add: SECCOMP_ARC_CHARGE_SLOTS_def USIZE_BYTES_def)

lemma slot_of_nat: "i < SECCOMP_ARC_CHARGE_SLOTS \<Longrightarrow> unat (word_of_nat i :: u16) = i"
  by (simp add: slots_value unat_of_nat)

text \<open>A live handle finds its slot and its block.\<close>

lemma wf_handle:
  assumes "world_wf w hs" "a \<in># hs"
  obtains e flt n where "unat (alloc_slot a) < length (arc_charges w)" "unat (alloc_slot a) < length (arc_blocks w)"
    "arc_charges w ! unat (alloc_slot a) = Some e" "slot_gen e = alloc_gen a"
    "arc_blocks w ! unat (alloc_slot a) = Some (flt, n)" "n = size (handles_at (unat (alloc_slot a)) hs)" "filter_ok flt"
proof -
  let ?i = "unat (alloc_slot a)"
  have i: "?i < SECCOMP_ARC_CHARGE_SLOTS" using assms by (simp add: world_wf_def)
  then have ok: "slot_ok (arc_charges w ! ?i) (arc_blocks w ! ?i) (handles_at ?i hs)"
    using assms(1) by (simp add: world_wf_def)
  have a: "a \<in># handles_at ?i hs" using assms(2) by (simp add: in_handles_at)
  then obtain e where e: "arc_charges w ! ?i = Some e"
    using ok by (cases "arc_charges w ! ?i") (auto simp: slot_ok_def)
  have "length (arc_charges w) = SECCOMP_ARC_CHARGE_SLOTS" "length (arc_blocks w) = SECCOMP_ARC_CHARGE_SLOTS"
    using assms(1) by (simp_all add: world_wf_def)
  moreover obtain flt n where "arc_blocks w ! ?i = Some (flt, n)" "n = size (handles_at ?i hs)" "filter_ok flt"
    "alloc_gen a = slot_gen e"
    using ok a e by (auto simp: slot_ok_def)
  ultimately show thesis by (intro that [of e flt n]) (use e i in simp_all)
qed

lemma deref_handle:
  assumes "world_wf w hs" "a \<in># hs"
  obtains flt where "arc_deref w a = Some flt" "filter_ok flt"
proof -
  obtain flt n where "unat (alloc_slot a) < length (arc_blocks w)"
    "arc_blocks w ! unat (alloc_slot a) = Some (flt, n)" "filter_ok flt"
    by (rule wf_handle [OF assms])
  then show thesis by (intro that [of flt]) (simp_all add: arc_deref_def)
qed

text \<open>Replacing slot, block and handles at one index.\<close>

lemma wf_update:
  assumes wf: "world_wf w hs" and i: "i < SECCOMP_ARC_CHARGE_SLOTS"
    and ok: "slot_ok s b (handles_at i hs')"
    and rest: "\<And>j. j \<noteq> i \<Longrightarrow> handles_at j hs' = handles_at j hs"
  shows "world_wf (w\<lparr>arc_charges := (arc_charges w)[i := s], arc_blocks := (arc_blocks w)[i := b]\<rparr>) hs'"
proof -
  have "unat (alloc_slot a) < SECCOMP_ARC_CHARGE_SLOTS" if "a \<in># hs'" for a
  proof (cases "unat (alloc_slot a) = i")
    case False
    have "a \<in># handles_at (unat (alloc_slot a)) hs" using that by (simp add: in_handles_at rest [OF False, symmetric])
    then have "a \<in># hs" by (simp add: in_handles_at)
    then show ?thesis using wf by (simp add: world_wf_def)
  qed (use i in simp)
  then show ?thesis using wf i ok rest by (auto simp: world_wf_def nth_list_update)
qed

lemma world_ms_update:
  assumes "length (arc_charges w) = SECCOMP_ARC_CHARGE_SLOTS" "length (arc_blocks w) = SECCOMP_ARC_CHARGE_SLOTS"
    and "i < SECCOMP_ARC_CHARGE_SLOTS"
  shows "slot_ms s + block_ms b + world_ms w = slot_ms (arc_charges w ! i) + block_ms (arc_blocks w ! i) +
    world_ms (w\<lparr>arc_charges := (arc_charges w)[i := s], arc_blocks := (arc_blocks w)[i := b]\<rparr>)"
  using regroup [OF sum_list_exchange [of i "arc_charges w" slot_ms s] sum_list_exchange [of i "arc_blocks w" block_ms b]] assms
  by (simp add: world_ms_def)

lemma wf_lengths:
  "world_wf w hs \<Longrightarrow> length (arc_charges w) = SECCOMP_ARC_CHARGE_SLOTS \<and> length (arc_blocks w) = SECCOMP_ARC_CHARGE_SLOTS"
  by (simp add: world_wf_def)

lemma wf_slot:
  "world_wf w hs \<Longrightarrow> i < SECCOMP_ARC_CHARGE_SLOTS \<Longrightarrow> slot_ok (arc_charges w ! i) (arc_blocks w ! i) (handles_at i hs)"
  by (simp add: world_wf_def)

lemma handles_at_size: "size (handles_at i hs) \<le> size hs"
  by (simp add: handles_at_def size_filter_mset_lesseq)

lemma deref_update_count:
  assumes "arc_blocks w ! i = Some (flt, n)"
  shows "arc_deref (w\<lparr>arc_blocks := (arc_blocks w)[i := Some (flt, m)]\<rparr>) b = arc_deref w b"
  using assms by (cases "unat (alloc_slot b) = i") (auto simp: arc_deref_def nth_list_update)

text \<open>Changing only the count of a block.\<close>

lemma wf_count:
  assumes wf: "world_wf w hs" and i: "i < SECCOMP_ARC_CHARGE_SLOTS" and b: "arc_blocks w ! i = Some (flt, n)"
    and m: "size (handles_at i hs') = m" "1 \<le> m" "\<forall>a\<in>#handles_at i hs'. \<forall>e. arc_charges w ! i = Some e \<longrightarrow> alloc_gen a = slot_gen e"
    and rest: "\<And>j. j \<noteq> i \<Longrightarrow> handles_at j hs' = handles_at j hs"
  shows "world_wf (w\<lparr>arc_blocks := (arc_blocks w)[i := Some (flt, m)]\<rparr>) hs'"
    and "world_ms (w\<lparr>arc_blocks := (arc_blocks w)[i := Some (flt, m)]\<rparr>) = world_ms w"
proof -
  let ?w = "w\<lparr>arc_blocks := (arc_blocks w)[i := Some (flt, m)]\<rparr>"
  have eq: "w\<lparr>arc_charges := (arc_charges w)[i := arc_charges w ! i], arc_blocks := (arc_blocks w)[i := Some (flt, m)]\<rparr> = ?w"
    by simp
  have ok: "slot_ok (arc_charges w ! i) (Some (flt, m)) (handles_at i hs')"
    using wf_slot [OF wf i] b m by (cases "arc_charges w ! i") (auto simp: slot_ok_def)
  show "world_wf ?w hs'" using wf_update [OF wf i ok rest] unfolding eq .
  show "world_ms ?w = world_ms w"
    using world_ms_update [of w i "arc_charges w ! i" "Some (flt, m)"] wf_lengths [OF wf] i b
    unfolding eq by (simp add: block_ms_def)
qed

lemma arc_clone_ok:
  assumes wf: "world_wf w hs" and a: "a \<in># hs" and n: "size hs < 2 ^ 63"
  shows "runs (arc_clone a w) (\<lambda>w'. world_wf w' (add_mset a hs) \<and> world_ms w' = world_ms w \<and> arc_deref w' = arc_deref w)"
proof -
  let ?i = "unat (alloc_slot a)"
  obtain e flt n where e: "?i < length (arc_charges w)" "?i < length (arc_blocks w)" "arc_charges w ! ?i = Some e"
    "slot_gen e = alloc_gen a" "arc_blocks w ! ?i = Some (flt, n)" "n = size (handles_at ?i hs)"
    by (rule wf_handle [OF wf a])
  have i: "?i < SECCOMP_ARC_CHARGE_SLOTS" using e(1) wf_lengths [OF wf] by simp
  have gen: "\<forall>b\<in>#handles_at ?i (add_mset a hs). \<forall>e. arc_charges w ! ?i = Some e \<longrightarrow> alloc_gen b = slot_gen e"
    using wf_slot [OF wf i] e(3,4) by (auto simp: slot_ok_def)
  have "n < 2 ^ 63" using e(6) handles_at_size [of ?i hs] n by simp
  then have run: "arc_clone a w = Some (w\<lparr>arc_blocks := (arc_blocks w)[?i := Some (flt, n + 1)]\<rparr>)"
    using e by (simp add: arc_clone_def Let_def)
  have "world_wf (w\<lparr>arc_blocks := (arc_blocks w)[?i := Some (flt, n + 1)]\<rparr>) (add_mset a hs) \<and>
      world_ms (w\<lparr>arc_blocks := (arc_blocks w)[?i := Some (flt, n + 1)]\<rparr>) = world_ms w"
    using wf_count [OF wf i e(5), of "add_mset a hs" "n + 1"] e(6) gen by simp
  then show ?thesis using run deref_update_count [OF e(5)] by (simp add: fun_eq_iff)
qed

lemma clone_all_ok:
  assumes "world_wf w hs" "set as \<subseteq> set_mset hs" "size hs + length as \<le> 2 ^ 63"
  shows "runs (clone_all as w) (\<lambda>w'. world_wf w' (mset as + hs) \<and> world_ms w' = world_ms w \<and> arc_deref w' = arc_deref w)"
  using assms
proof (induction as arbitrary: w hs)
  case (Cons a as)
  have 1: "runs (arc_clone a w) (\<lambda>w'. world_wf w' (add_mset a hs) \<and> world_ms w' = world_ms w \<and> arc_deref w' = arc_deref w)"
    by (rule arc_clone_ok) (use Cons.prems in auto)
  show ?case unfolding clone_all.simps
  proof (rule runs_bind [OF 1])
    fix w1
    assume w1: "world_wf w1 (add_mset a hs) \<and> world_ms w1 = world_ms w \<and> arc_deref w1 = arc_deref w"
    have "runs (clone_all as w1) (\<lambda>w'. world_wf w' (mset as + add_mset a hs) \<and> world_ms w' = world_ms w1 \<and> arc_deref w' = arc_deref w1)"
      by (rule Cons.IH) (use w1 Cons.prems in auto)
    with w1 show "runs (clone_all as w1) (\<lambda>w'. world_wf w' (mset (a # as) + hs) \<and> world_ms w' = world_ms w \<and> arc_deref w' = arc_deref w)"
      by simp
  qed
qed simp

context heap_client_bounded
begin

lemma drop_filter_ok:
  "hinv h R (opt_ms (prog_heap_charge flt) + C) \<Longrightarrow> runs (drop_filter hp flt h) (\<lambda>h'. hinv h' R C)"
  unfolding drop_filter_def by (rule drop_opt)

lemma arc_drop_ok:
  assumes wf: "world_wf w (add_mset a hs)" and inv: "hinv h R (world_ms w + C)"
  shows "runs (arc_drop hp a w h) (\<lambda>(w', h'). world_wf w' hs \<and> hinv h' R (world_ms w' + C) \<and>
    (\<forall>b\<in>#hs. arc_deref w' b = arc_deref w b))"
proof -
  let ?i = "unat (alloc_slot a)"
  obtain e flt n where e: "?i < length (arc_charges w)" "?i < length (arc_blocks w)" "arc_charges w ! ?i = Some e"
    "slot_gen e = alloc_gen a" "arc_blocks w ! ?i = Some (flt, n)" "n = size (handles_at ?i (add_mset a hs))"
    by (rule wf_handle [OF wf, of a]) simp
  have i: "?i < SECCOMP_ARC_CHARGE_SLOTS" using e(1) wf_lengths [OF wf] by simp
  show ?thesis
  proof (cases "n = 1")
    case False
    have gen: "\<forall>b\<in>#handles_at ?i hs. \<forall>e. arc_charges w ! ?i = Some e \<longrightarrow> alloc_gen b = slot_gen e"
      using wf_slot [OF wf i] e(3,4) by (auto simp: slot_ok_def)
    have "1 \<le> n - 1" using e(6) False by (cases "handles_at ?i hs") simp_all
    then have "world_wf (w\<lparr>arc_blocks := (arc_blocks w)[?i := Some (flt, n - 1)]\<rparr>) hs \<and>
        world_ms (w\<lparr>arc_blocks := (arc_blocks w)[?i := Some (flt, n - 1)]\<rparr>) = world_ms w"
      using wf_count [OF wf i e(5), of hs "n - 1"] e(6) gen False by simp
    then show ?thesis using e False inv deref_update_count [OF e(5)] by (simp add: arc_drop_def Let_def)
  next
    case True
    let ?w = "w\<lparr>arc_charges := (arc_charges w)[?i := None], arc_blocks := (arc_blocks w)[?i := None]\<rparr>"
    have none: "handles_at ?i hs = {#}" using e(6) True by simp
    have wf': "world_wf ?w hs"
      by (rule wf_update [OF wf i]) (use none in \<open>auto simp: slot_ok_def\<close>)
    have ms: "world_ms w = add_mset (slot_charge e) (opt_ms (prog_heap_charge flt) + world_ms ?w)"
      using world_ms_update [of w ?i None None] wf_lengths [OF wf] i e(3,5) by (simp add: slot_ms_def block_ms_def)
    have take: "arc_take_charge a (w\<lparr>arc_blocks := (arc_blocks w)[?i := None]\<rparr>) = Some (?w, slot_charge e)"
      using e by (cases w) (simp add: arc_take_charge_def Let_def)
    have der: "arc_deref ?w b = arc_deref w b" if "b \<in># hs" for b
    proof -
      have "unat (alloc_slot b) \<noteq> ?i" using none that in_handles_at [of b ?i hs] by auto
      then show ?thesis by (simp add: arc_deref_def)
    qed
    have "hinv h R (opt_ms (prog_heap_charge flt) + (add_mset (slot_charge e) (world_ms ?w + C)))"
      using inv ms by (simp add: ac_simps)
    from drop_filter_ok [OF this]
    have "runs (drop_filter hp flt h) (\<lambda>h1. runs (arc_deallocate hp a w h1) (\<lambda>(w', h'). w' = ?w \<and> hinv h' R (world_ms ?w + C)))"
      unfolding arc_deallocate_def take using drop_chg by (auto elim!: runs_mono)
    then have "runs (arc_drop hp a w h) (\<lambda>(w', h'). w' = ?w \<and> hinv h' R (world_ms ?w + C))"
      using e True by (simp add: arc_drop_def Let_def)
    then show ?thesis by (rule runs_mono) (use wf' der in auto)
  qed
qed

lemma drop_all_ok:
  assumes "world_wf w (mset as + hs)" "hinv h R (world_ms w + C)"
  shows "runs (drop_all hp as w h) (\<lambda>(w', h'). world_wf w' hs \<and> hinv h' R (world_ms w' + C) \<and>
    (\<forall>b\<in>#hs. arc_deref w' b = arc_deref w b))"
  using assms
proof (induction as arbitrary: w h)
  case (Cons a as)
  have "world_wf w (add_mset a (mset as + hs))" using Cons.prems(1) by simp
  from arc_drop_ok [OF this Cons.prems(2)] show ?case unfolding drop_all.simps
  proof (rule runs_bind, clarify)
    fix w1 h1
    assume w1: "world_wf w1 (mset as + hs)" "hinv h1 R (world_ms w1 + C)" "\<forall>b\<in>#mset as + hs. arc_deref w1 b = arc_deref w b"
    show "runs (drop_all hp as w1 h1) (\<lambda>(w', h'). world_wf w' hs \<and> hinv h' R (world_ms w' + C) \<and>
        (\<forall>b\<in>#hs. arc_deref w' b = arc_deref w b))"
      by (rule runs_mono [OF Cons.IH [OF w1(1,2)]]) (use w1(3) in auto)
  qed
qed simp

end

text \<open>Every control block is charged at least four machine words, so the byte gate of the class bounds the
  number of occupied slots below the size of the table.\<close>

lemma and_not_sub: "(w :: 'a::len word) AND NOT m = w - (w AND m)"
proof -
  have "w AND NOT m = w AND NOT (w AND m)" by (rule bit_word_eqI) (auto simp: bit_and_iff bit_not_iff bit_or_iff)
  also have "\<dots> = w - (w AND m)" by (rule disjunctive_diff [symmetric]) (simp add: bit_and_iff)
  finally show ?thesis .
qed

lemma align_up_ge:
  assumes "checked_align_up v a = Ok n"
  shows "v \<le> n"
proof -
  have p: "is_power_of_two a" "v + (a - 1) \<le> usize_max" "n = unat ((word_of_nat (v + (a - 1)) :: u64) AND NOT (word_of_nat (a - 1)))"
    using assms by (auto simp: checked_align_up_def checked split: if_splits option.splits)
  let ?w = "word_of_nat (v + (a - 1)) :: u64" and ?m = "word_of_nat (a - 1) :: u64"
  have small: "unat (word_of_nat k :: u64) = k" if "k \<le> usize_max" for k
    using that by (simp add: unat_of_nat usize_max_def)
  have w: "unat ?w = v + (a - 1)" "unat ?m = a - 1" using p(2) by (intro small; simp)+
  let ?x = "?w AND ?m"
  have "n = unat ?w - unat ?x"
    using p(3) word_and_le2 [of ?w ?m] unfolding and_not_sub by (simp only: unat_sub)
  moreover have "unat ?x \<le> a - 1" using word_and_le1 [of ?w ?m] w(2) by (simp add: word_le_nat_alt)
  ultimately show ?thesis using w(1) by linarith
qed

lemma arc_charge_ge:
  assumes "arc_charge_bytes s a = Ok n"
  shows "4 * USIZE_BYTES \<le> n"
proof -
  have "checked_align_up (s + 2 * USIZE_BYTES + ALLOCATOR_LINK_SLACK) (max (max a USIZE_BYTES) USIZE_BYTES) = Ok n"
    using assms by (auto simp: arc_charge_bytes_def allocation_charge_bytes_def checked USIZE_BYTES_def split: option.splits if_splits)
  from align_up_ge [OF this] show ?thesis by (simp add: ALLOCATOR_LINK_SLACK_def USIZE_BYTES_def)
qed

lemma slots_charged:
  assumes "\<forall>s \<in> set ss. \<exists>e. s = Some e \<and> hold_class (slot_charge e) = CoreProcess \<and> 4 * USIZE_BYTES \<le> hold_bytes (slot_charge e)"
  shows "length ss * (4 * USIZE_BYTES) \<le> class_bytes CoreProcess (sum_list (map slot_ms ss))"
  using assms by (induction ss) (fastforce simp: slot_ms_def)+

text \<open>So with one more block of at least that size charged beside the store, a slot is free.\<close>

lemma slot_available:
  assumes wf: "world_wf w hs" and c: "hold_class c = CoreProcess" "4 * USIZE_BYTES \<le> hold_bytes c"
    and bound: "class_bytes CoreProcess (add_mset c (world_ms w + C)) \<le> limit_bytes CoreProcess"
  shows "\<exists>i. first_free (arc_charges w) = Some i"
proof (rule ccontr)
  assume "\<nexists>i. first_free (arc_charges w) = Some i"
  then have full: "None \<notin> set (arc_charges w)" by (simp add: first_free_None [symmetric])
  have "\<forall>s \<in> set (arc_charges w). \<exists>e. s = Some e \<and> hold_class (slot_charge e) = CoreProcess \<and> 4 * USIZE_BYTES \<le> hold_bytes (slot_charge e)"
  proof
    fix s assume "s \<in> set (arc_charges w)"
    then obtain i where "i < length (arc_charges w)" "s = arc_charges w ! i" by (auto simp: in_set_conv_nth)
    moreover from this have "s \<noteq> None" using full by (metis nth_mem)
    ultimately show "\<exists>e. s = Some e \<and> hold_class (slot_charge e) = CoreProcess \<and> 4 * USIZE_BYTES \<le> hold_bytes (slot_charge e)"
      using wf_slot [OF wf, of i] wf_lengths [OF wf] by (auto simp: slot_ok_def)
  qed
  from slots_charged [OF this] have "SECCOMP_ARC_CHARGE_SLOTS * (4 * USIZE_BYTES) \<le> class_bytes CoreProcess (world_ms w)"
    using wf_lengths [OF wf] by (simp add: world_ms_def)
  with bound c show False by (simp add: slots_value USIZE_BYTES_def)
qed

context heap_client_bounded
begin

lemma place_ok:
  assumes wf: "world_wf w hs" and flt: "filter_ok flt"
    and c: "hold_class c = CoreProcess" "4 * USIZE_BYTES \<le> hold_bytes c"
    and inv: "hinv h R (add_mset c (opt_ms (prog_heap_charge flt) + (world_ms w + C)))"
  shows "runs (place_filter_arc hp al flt c w h) (\<lambda>(h', w', r). hinv h' R (world_ms w' + C) \<and>
     (\<forall>b\<in>#hs. arc_deref w' b = arc_deref w b) \<and>
     (case r of Inl _ \<Rightarrow> world_wf w' hs | Inr a \<Rightarrow> world_wf w' (add_mset a hs) \<and> arc_deref w' a = Some flt))"
    (is "runs _ ?Q")
proof (cases "checked_add_word (next_arc_gen w) 1")
  case None
  have "runs (drop_heap_charge hp c h) (\<lambda>h1. runs (drop_filter hp flt h1) (\<lambda>h2. hinv h2 R (world_ms w + C)))"
    by (rule runs_mono [OF drop_chg [OF inv] drop_filter_ok])
  then show ?thesis using None wf by (simp add: place_filter_arc_def arc_try_install_def)
next
  case (Some g)
  have "class_bytes CoreProcess (add_mset c (world_ms w + (opt_ms (prog_heap_charge flt) + C))) \<le> limit_bytes CoreProcess"
    using class_bound [OF inv, of CoreProcess] by (simp add: ac_simps)
  then obtain i where i: "first_free (arc_charges w) = Some i"
    using slot_available [OF wf c] by blast
  have len: "length (arc_charges w) = SECCOMP_ARC_CHARGE_SLOTS" "length (arc_blocks w) = SECCOMP_ARC_CHARGE_SLOTS"
    using wf_lengths [OF wf] by simp_all
  have il: "i < SECCOMP_ARC_CHARGE_SLOTS" "arc_charges w ! i = None" using first_free_Some [OF i] len by simp_all
  let ?e = "\<lambda>b. \<lparr>slot_gen = next_arc_gen w, slot_allocated = b, slot_charge = c\<rparr>"
  let ?a = "\<lparr>alloc_slot = word_of_nat i, alloc_gen = next_arc_gen w\<rparr> :: arc_allocator"
  let ?w = "w\<lparr>next_arc_gen := g\<rparr>"
  note u = slot_of_nat [OF il(1)]
  have inst: "arc_try_install c w = (?w\<lparr>arc_charges := (arc_charges w)[i := Some (?e False)]\<rparr>, Ok ?a)"
    using Some i by (simp add: arc_try_install_def Let_def)
  have none: "arc_blocks w ! i = None" "handles_at i hs = {#}" using wf_slot [OF wf il(1)] il(2) by (simp_all add: slot_ok_def)
  have wfg: "world_wf ?w hs" "world_ms ?w = world_ms w" "arc_deref ?w = arc_deref w"
    using wf by (simp_all add: world_wf_def world_ms_def arc_deref_def fun_eq_iff)
  show ?thesis
  proof (cases "filter_arc_ok al")
    case True
    let ?w2 = "?w\<lparr>arc_charges := (arc_charges w)[i := Some (?e True)], arc_blocks := (arc_blocks w)[i := Some (flt, 1)]\<rparr>"
    have run: "place_filter_arc hp al flt c w h = Some (h, ?w2, Ok ?a)"
      using True il len u by (simp add: place_filter_arc_def inst arc_allocate_def Let_def set_allocated_def)
    have wf2: "world_wf ?w2 (add_mset ?a hs)"
      using wf_update [OF wfg(1) il(1), of "Some (?e True)" "Some (flt, 1)" "add_mset ?a hs"] none c flt u
      by (simp add: slot_ok_def)
    have "world_ms ?w2 = add_mset c (opt_ms (prog_heap_charge flt) + world_ms w)"
      using world_ms_update [of ?w i "Some (?e True)" "Some (flt, 1)"] len il none wfg(2)
      by (simp add: slot_ms_def block_ms_def)
    with inv have inv2: "hinv h R (world_ms ?w2 + C)" by (simp add: ac_simps)
    have "arc_deref ?w2 ?a = Some flt" using u len il by (simp add: arc_deref_def)
    moreover have "arc_deref ?w2 b = arc_deref w b" if "b \<in># hs" for b
    proof -
      have "unat (alloc_slot b) \<noteq> i" using none(2) that in_handles_at [of b i hs] by auto
      then show ?thesis by (simp add: arc_deref_def)
    qed
    ultimately show ?thesis using run wf2 inv2 by simp
  next
    case False
    have same: "(arc_charges w)[i := None] = arc_charges w" by (metis il(2) list_update_id)
    have w2: "?w\<lparr>arc_charges := (arc_charges w)[i := None]\<rparr> = ?w"
      using same by (cases w) simp
    have alloc: "arc_allocate ?a False (?w\<lparr>arc_charges := (arc_charges w)[i := Some (?e False)]\<rparr>) =
        (?w\<lparr>arc_charges := (arc_charges w)[i := Some (?e False)]\<rparr>, False)"
      using il len u by (simp add: arc_allocate_def Let_def set_allocated_def)
    have take: "arc_take_charge ?a (?w\<lparr>arc_charges := (arc_charges w)[i := Some (?e False)]\<rparr>) = Some (?w, c)"
      using il len u w2 by (simp add: arc_take_charge_def Let_def)
    have "hinv h R (opt_ms (prog_heap_charge flt) + add_mset c (world_ms w + C))" using inv by (simp add: ac_simps)
    then have "runs (drop_filter hp flt h) (\<lambda>h1. runs (drop_heap_charge hp c h1) (\<lambda>h2. hinv h2 R (world_ms w + C)))"
      by (rule runs_mono [OF drop_filter_ok drop_chg])
    then show ?thesis using False wfg by (simp add: place_filter_arc_def inst alloc cancel_failed_allocation_def take)
  qed
qed

text \<open>A new control block: on success its handle is the only one, on failure the store is as before
  apart from the generation counter, and nothing of the filter is left charged.\<close>

lemma new_arc_ok:
  assumes wf: "world_wf w hs" and inv: "hinv h R (opt_ms (prog_heap_charge flt) + (world_ms w + C))" and flt: "filter_ok flt"
  shows "runs (try_new_filter_arc hp env al flt w h) (\<lambda>(h', w', r). hinv h' R (world_ms w' + C) \<and>
     (\<forall>b\<in>#hs. arc_deref w' b = arc_deref w b) \<and>
     (case r of Inl _ \<Rightarrow> world_wf w' hs | Inr a \<Rightarrow> world_wf w' (add_mset a hs) \<and> arc_deref w' a = Some flt))"
    (is "runs _ ?Q")
proof -
  have fail: "runs (drop_filter hp flt h0) (\<lambda>h1. ?Q (h1, w, Err ()))"
    if "hinv h0 R (opt_ms (prog_heap_charge flt) + (world_ms w + C))" for h0
    by (rule runs_mono [OF drop_filter_ok [OF that]]) (use wf in simp)
  show ?thesis
  proof (cases "arc_charge_bytes (filter_size env) (filter_align env)")
    case (Inl e)
    then show ?thesis using fail [OF inv] by (simp add: try_new_filter_arc_def)
  next
    case (Inr bytes)
    obtain h1 r where 1: "reserve_heap hp CoreProcess bytes h = Some (h1, r)"
      "case r of Inl _ \<Rightarrow> hinv h1 R (opt_ms (prog_heap_charge flt) + (world_ms w + C))
         | Inr x \<Rightarrow> hold_class x = CoreProcess \<and> hold_bytes x = bytes \<and>
             hinv h1 (add_mset x R) (opt_ms (prog_heap_charge flt) + (world_ms w + C))"
      using reserve [OF inv charge_bytes_bound(3) [OF Inr], of CoreProcess] by (auto simp: runs_def)
    show ?thesis
    proof (cases r)
      case (Inl e)
      then show ?thesis using fail [of h1] 1 Inr by (simp add: try_new_filter_arc_def)
    next
      case x: (Inr x)
      with 1 have x1: "hold_class x = CoreProcess" "hold_bytes x = bytes"
        "hinv h1 (add_mset x R) (opt_ms (prog_heap_charge flt) + (world_ms w + C))" by simp_all
      obtain h2 c where c: "commit_heap hp x h1 = Some (h2, Ok c)" "hold_class c = CoreProcess" "hold_bytes c = bytes"
        "hinv h2 R (add_mset c (opt_ms (prog_heap_charge flt) + (world_ms w + C)))"
        using commit [OF x1(3)] x1 by (auto simp: runs_def)
      have "4 * USIZE_BYTES \<le> hold_bytes c" using arc_charge_ge [OF Inr] c(3) by simp
      from place_ok [OF wf flt c(2) this c(4), of al] show ?thesis
        using 1(1) x c(1) Inr by (simp add: try_new_filter_arc_def)
    qed
  qed
qed

lemma abandon_ok:
  "hinv h (add_mset x R) C \<Longrightarrow> runs (abandon hp x e h) (\<lambda>(h', r). case r of Inl _ \<Rightarrow> hinv h' R C | Inr y \<Rightarrow> Q h' y)"
  by (rule runs_mono [OF abandon]) auto

lemma prog_charge_bound: "prog_charge env n = Some b \<Longrightarrow> b \<le> usize_max"
  by (auto simp: prog_charge_def checked split: sum.splits)

definition built where
  "built R C prog dflt flags = (\<lambda>(h', r :: seccomp_error + sec_filter). case r of
     Inl _ \<Rightarrow> hinv h' R C
   | Inr flt \<Rightarrow> filter_prog flt = prog \<and> default_action flt = dflt \<and> filter_flags flt = flags \<and>
       fast_allow flt = compute_fast_allow prog dflt \<and> hinv h' R (opt_ms (prog_heap_charge flt) + C))"

lemma new_validated_ok:
  assumes inv: "hinv h R C"
  shows "runs (new_validated_from_slice hp env al prog dflt flags h) (built R C prog dflt flags)"
proof (cases "prog_charge env (length prog)")
  case None
  then show ?thesis using inv by (simp add: new_validated_from_slice_def built_def)
next
  case total: (Some b)
  have ab: "runs (abandon hp x e h') (built R C prog dflt flags)" if "hinv h' (add_mset x R) C" for x e h'
    unfolding built_def by (rule abandon_ok [OF that])
  obtain h1 r where 1: "reserve_heap hp CoreProcess b h = Some (h1, r)"
    "case r of Inl _ \<Rightarrow> hinv h1 R C | Inr x \<Rightarrow> hold_class x = CoreProcess \<and> hold_bytes x = b \<and> hinv h1 (add_mset x R) C"
    using reserve [OF inv prog_charge_bound [OF total], of CoreProcess] by (auto simp: runs_def)
  show ?thesis
  proof (cases r)
    case (Inl e)
    then show ?thesis using 1 total by (simp add: new_validated_from_slice_def built_def)
  next
    case x: (Inr x)
    with 1 have h1: "hinv h1 (add_mset x R) C" by simp
    show ?thesis
    proof (cases "Option.bind (prog_grant al (length prog)) (prog_charge env)")
      case None
      then have "new_validated_from_slice hp env al prog dflt flags h = abandon hp x SeccompOutOfMemory h1"
        using total 1(1) x by (auto simp: new_validated_from_slice_def bind_eq_None_conv split: option.splits)
      then show ?thesis using ab [OF h1] by simp
    next
      case (Some actual)
      then obtain n where n: "prog_grant al (length prog) = Some n" "prog_charge env n = Some actual"
        by (auto simp: bind_eq_Some_conv)
      obtain h2 x' res where 2: "resize_heap hp x actual h1 = Some (h2, x', res)" "hinv h2 (add_mset x' R) C"
        using resize [OF h1 prog_charge_bound [OF n(2)]] by (auto simp: runs_def)
      obtain h3 c where 3: "commit_heap hp x' h2 = Some (h3, Ok c)" "hinv h3 R (add_mset c C)"
        using commit [OF 2(2)] by (auto simp: runs_def)
      note eq = new_validated_from_slice_def total 1(1) x n 2(1)
      show ?thesis
      proof (cases "prog_arc_ok al \<and> (\<exists>u. res = Inr u)")
        case True
        then show ?thesis using 3 by (auto simp: eq built_def)
      next
        case False
        then have "new_validated_from_slice hp env al prog dflt flags h = abandon hp x' SeccompOutOfMemory h2"
          by (cases res) (simp_all add: eq)
        then show ?thesis using ab [OF 2(2)] by simp
      qed
    qed
  qed
qed

text \<open>Both checked constructors produce a filter that carries a validated program.\<close>

lemma validate_mono: "validate_program prog = Ok () \<Longrightarrow> validate_program_with_limit prog MAX_TRUSTED_INSNS = Ok ()"
  by (auto simp: validate_program_def validate_program_with_limit_def MAX_INSNS_def MAX_TRUSTED_INSNS_def
      split: if_splits option.splits)

lemma new_filter_ok:
  assumes "hinv h R C"
  shows "runs (new_from_slice hp env al prog dflt flags h) (\<lambda>(h', r). built R C prog dflt flags (h', r) \<and>
      (\<forall>flt. r = Ok flt \<longrightarrow> filter_ok flt))"
    and "runs (new_trusted_from_slice hp env al prog dflt flags h) (\<lambda>(h', r). built R C prog dflt flags (h', r) \<and>
      (\<forall>flt. r = Ok flt \<longrightarrow> filter_ok flt))"
proof -
  have v: "runs (new_validated_from_slice hp env al prog dflt flags h) (\<lambda>(h', r). built R C prog dflt flags (h', r) \<and>
      (\<forall>flt. r = Ok flt \<longrightarrow> filter_ok flt))" if "validate_program_with_limit prog MAX_TRUSTED_INSNS = Ok ()"
    by (rule runs_mono [OF new_validated_ok [OF assms]]) (use that in \<open>auto simp: built_def filter_ok_def\<close>)
  show "runs (new_from_slice hp env al prog dflt flags h) (\<lambda>(h', r). built R C prog dflt flags (h', r) \<and>
      (\<forall>flt. r = Ok flt \<longrightarrow> filter_ok flt))"
    using v validate_mono [of prog] assms
    by (cases "validate_program prog") (simp_all add: new_from_slice_def built_def)
  show "runs (new_trusted_from_slice hp env al prog dflt flags h) (\<lambda>(h', r). built R C prog dflt flags (h', r) \<and>
      (\<forall>flt. r = Ok flt \<longrightarrow> filter_ok flt))"
    using v assms
    by (cases "validate_program_with_limit prog MAX_TRUSTED_INSNS") (simp_all add: new_trusted_from_slice_def built_def)
qed

text \<open>One process's chain beside the handles of all others.\<close>

definition state_at where
  "state_at R C env hs h w st \<longleftrightarrow>
     world_wf w (mset (av_values (chain st)) + hs) \<and>
     adm_ok (handle_layout env) (chain st) \<and> av_class (chain st) = CoreProcess \<and>
     hinv h R (opt_ms (av_charge (chain st)) + (world_ms w + C))"

definition added where
  "added R C env hs flt fs w st = (\<lambda>(h', w', st', r :: unit + unit). state_at R C env hs h' w' st' \<and>
     (\<forall>b \<in># mset (av_values (chain st)) + hs. arc_deref w' b = arc_deref w b) \<and>
     no_new_privs st' = no_new_privs st \<and> log_violations st' = log_violations st \<and>
     (case r of Inl _ \<Rightarrow> av_values (chain st') = av_values (chain st)
      | Inr _ \<Rightarrow> sum_list (map prog_len fs) + prog_len flt \<le> MAX_FILTER_INSNS_TOTAL \<and>
          (\<exists>a. av_values (chain st') = av_values (chain st) @ [a] \<and> arc_deref w' a = Some flt)))"

lemma publish_ok:
  assumes p: "prepared = None \<and> length (av_values ch) + 1 \<le> av_capacity ch \<and> hinv h R (opt_ms (av_charge ch) + C) \<or>
      (\<exists>q. prepared = Some q \<and> prep_ok ly (av_class ch) (length (av_values ch) + 1) q \<and>
         length (av_values ch) \<le> prep_capacity q \<and> hinv h (add_mset (prep_reservation q) R) (opt_ms (av_charge ch) + C))"
    and ok: "adm_ok ly ch"
  shows "runs (case prepared of None \<Rightarrow> Some (h, ch, Ok ()) | Some q \<Rightarrow> vec_install_prepared hp q ch h)
    (\<lambda>(h', ch', r). r = Ok () \<and> adm_at hinv R C ly h' ch' \<and> av_values ch' = av_values ch \<and> av_class ch' = av_class ch \<and>
       length (av_values ch) + 1 \<le> av_capacity ch')"
  using p
proof
  assume "\<exists>q. prepared = Some q \<and> prep_ok ly (av_class ch) (length (av_values ch) + 1) q \<and>
         length (av_values ch) \<le> prep_capacity q \<and> hinv h (add_mset (prep_reservation q) R) (opt_ms (av_charge ch) + C)"
  then show ?thesis using install [OF _ ok] by auto
qed (use ok in \<open>simp add: adm_at_def\<close>)

lemma drop_prepared_ok:
  assumes "prepared = None \<and> hinv h R C \<or> (\<exists>q. prepared = Some q \<and> hinv h (add_mset (prep_reservation q) R) C)"
  shows "runs (drop_prepared hp prepared h) (\<lambda>h'. hinv h' R C)"
  using assms drop_res by (auto simp: drop_prepared_def)

lemma add_filter_ok:
  assumes at: "state_at R (opt_ms (prog_heap_charge flt) + C) env hs h w st" and flt: "filter_ok flt"
    and g: "grant_ok (chain_grant al)" and fs: "deref_all w (av_values (chain st)) = Some fs"
  shows "runs (add_filter hp env al flt st w h) (added R C env hs flt fs w st)"
proof -
  let ?ch = "chain st" and ?P = "opt_ms (prog_heap_charge flt)"
  let ?A = "opt_ms (av_charge (chain st))"
  have wf: "world_wf w (mset (av_values ?ch) + hs)" and ok: "adm_ok (handle_layout env) ?ch" "av_class ?ch = CoreProcess"
    and inv: "hinv h R (?P + (?A + (world_ms w + C)))"
    using at by (simp_all add: state_at_def ac_simps)
  have fail: "runs (drop_filter hp flt h0) (\<lambda>h1. added R C env hs flt fs w st (h1, w, st, Err ()))"
    if "hinv h0 R (?P + (?A + (world_ms w + C)))" for h0
    by (rule runs_mono [OF drop_filter_ok [OF that]]) (use wf ok in \<open>simp add: added_def state_at_def\<close>)
  show ?thesis
  proof (cases "MAX_FILTER_INSNS_TOTAL < saturating_add_usize (sum_list (map prog_len fs)) (prog_len flt)")
    case True
    then show ?thesis using fail [OF inv] fs by (simp add: add_filter_def)
  next
    case False
    then have cap: "sum_list (map prog_len fs) + prog_len flt \<le> MAX_FILTER_INSNS_TOTAL"
      by (simp add: saturating_add_usize_def MAX_FILTER_INSNS_TOTAL_def MAX_INSNS_def usize_max_def min_def split: if_splits)
    obtain h1 r where 1: "vec_prepare_capacity_for hp (handle_layout env) (chain_grant al) ?ch 1 h = Some (h1, r)"
      "growth_post R (?P + (?A + (world_ms w + C))) (handle_layout env) ?ch (length (av_values ?ch) + 1) (h1, r)"
      using prepare_for [OF inv g, of "handle_layout env" ?ch 1] by (auto simp: runs_def)
    show ?thesis
    proof (cases r)
      case (Inl e)
      then show ?thesis using fail [of h1] 1 False fs by (simp add: add_filter_def growth_post_def)
    next
      case (Inr prepared)
      define R1 where "R1 = (case prepared of None \<Rightarrow> R | Some q \<Rightarrow> add_mset (prep_reservation q) R)"
      have h1: "hinv h1 R1 (?P + (world_ms w + (?A + C)))"
        using 1(2) Inr by (auto simp: growth_post_def R1_def ac_simps split: option.splits)
      obtain h2 w1 ra where 2: "try_new_filter_arc hp env al flt w h1 = Some (h2, w1, ra)"
        "hinv h2 R1 (?A + (world_ms w1 + C))" "\<forall>b\<in>#mset (av_values ?ch) + hs. arc_deref w1 b = arc_deref w b"
        "case ra of Inl _ \<Rightarrow> world_wf w1 (mset (av_values ?ch) + hs)
           | Inr a \<Rightarrow> world_wf w1 (add_mset a (mset (av_values ?ch) + hs)) \<and> arc_deref w1 a = Some flt"
        using new_arc_ok [OF wf h1 flt, of env al] by (auto simp: runs_def ac_simps)
      note eq = add_filter_def fs False 1(1) [unfolded One_nat_def] Inr 2(1)
      show ?thesis
      proof (cases ra)
        case ra: (Inl u)
        have "runs (drop_prepared hp prepared h2) (\<lambda>h'. hinv h' R (?A + (world_ms w1 + C)))"
          by (rule drop_prepared_ok) (use 2(2) in \<open>auto simp: R1_def split: option.splits\<close>)
        then show ?thesis using ra 2(3,4) ok by (simp add: eq) (auto simp: added_def state_at_def elim!: runs_mono)
      next
        case ra: (Inr a)
        have "runs (case prepared of None \<Rightarrow> Some (h2, ?ch, Ok ()) | Some q \<Rightarrow> vec_install_prepared hp q ?ch h2)
          (\<lambda>(h', ch', r). r = Ok () \<and> adm_at hinv R (world_ms w1 + C) (handle_layout env) h' ch' \<and> av_values ch' = av_values ?ch \<and>
             av_class ch' = av_class ?ch \<and> length (av_values ?ch) + 1 \<le> av_capacity ch')"
          by (rule publish_ok [OF _ ok(1)])
            (use 1(2) 2(2) Inr in \<open>auto simp: R1_def growth_post_def split: option.splits\<close>)
        then obtain h3 ch' where 3: "(case prepared of None \<Rightarrow> Some (h2, ?ch, Ok ()) | Some q \<Rightarrow> vec_install_prepared hp q ?ch h2) =
            Some (h3, ch', Ok ())" "adm_at hinv R (world_ms w1 + C) (handle_layout env) h3 ch'" "av_values ch' = av_values ?ch"
          "av_class ch' = av_class ?ch" "length (av_values ?ch) + 1 \<le> av_capacity ch'"
          by (auto simp: runs_def)
        have push: "vec_push_reserved a ch' = (ch'\<lparr>av_values := av_values ?ch @ [a]\<rparr>, Ok ())"
          using 3(3,5) by (simp add: vec_push_reserved_def)
        have "add_filter hp env al flt st w h =
            Some (h3, w1, st\<lparr>chain := ch'\<lparr>av_values := av_values ?ch @ [a]\<rparr>\<rparr>, Ok ())"
          by (simp add: eq ra 3(1) push)
        then show ?thesis using 2(3,4) ra 3 ok cap
          by (simp add: added_def state_at_def adm_at_def adm_ok_def)
      qed
    qed
  qed
qed

lemma copy_ok:
  assumes inv: "hinv h R C" and g: "grant_ok g"
  shows "runs (vec_try_copy_from_slice hp ly g cls src h) (\<lambda>(h', r). case r of Inl _ \<Rightarrow> hinv h' R C
    | Inr a \<Rightarrow> adm_at hinv R C ly h' a \<and> av_values a = src \<and> av_class a = cls)"
proof -
  let ?v = "vec_new cls :: 'b admitted"
  have at: "adm_at hinv R C ly h ?v" using inv by (simp add: adm_at_def adm_ok_new) (simp add: vec_new_def)
  have new: "av_charge ?v = None" "av_values ?v = []" "av_class ?v = cls" by (simp_all add: vec_new_def)
  obtain h1 r where 1: "vec_prepare_exact_capacity hp ly g ?v (length src) h = Some (h1, r)"
    "growth_post R C ly ?v (length src) (h1, r)"
    using prepare_exact [OF inv g, of ly ?v "length src"] by (auto simp: runs_def)
  consider e where "r = Inl e" | "r = Inr None" | q where "r = Inr (Some q)"
    by (metis option.exhaust sum.exhaust)
  then show ?thesis
  proof cases
    case 1
    with \<open>growth_post R C ly ?v (length src) (h1, r)\<close> have "hinv h1 R C" by (simp add: growth_post_def)
    with \<open>vec_prepare_exact_capacity hp ly g ?v (length src) h = Some (h1, r)\<close> 1 new show ?thesis
      by (simp add: vec_try_copy_from_slice_def drop_admitted_def drop_charge_opt_def)
  next
    case 2
    with 1 new have "hinv h1 R C" "length src \<le> av_capacity ?v" by (simp_all add: growth_post_def)
    then show ?thesis using 2 1(1) new
      by (simp add: vec_try_copy_from_slice_def extend_within_def adm_at_def adm_ok_def)
        (simp add: vec_new_def backing_ok_def)
  next
    case 3
    with 1 new have q: "hinv h1 (add_mset (prep_reservation q) R) (opt_ms (av_charge ?v) + C)"
      "prep_ok ly (av_class ?v) (length src) q" "length (av_values ?v) \<le> prep_capacity q"
      by (simp_all add: growth_post_def)
    obtain h2 out where 2: "vec_install_prepared hp q ?v h1 = Some (h2, out, Ok ())" "adm_at hinv R C ly h2 out"
      "av_values out = []" "av_class out = cls" "length src \<le> av_capacity out"
      using install [OF q(1) adm_ok_new q(2,3)] new by (auto simp: runs_def)
    then show ?thesis using 3 1(1)
      by (simp add: vec_try_copy_from_slice_def extend_within_def adm_at_def adm_ok_def)
  qed
qed

end

end
