(* ===== verification/SeccompSystem.thy ===== *)
theory SeccompSystem
  imports SeccompState
begin

text \<open>
  All filter chains of the kernel together. A state is the heap ledger, the store of shared control
  blocks and the chains of the live processes; a call creates a chain, installs a program or the strict
  program on one of them, copies a chain at fork or drops it at exit, in any order, for any owner, with
  other users of the ledger acting in between. The abstract system is a list of chains, each a list of
  programs with their default actions; the concrete one refines it, its verdicts are those of the
  abstract chain, and its memory is exactly what the ledger carries for it.
\<close>

section \<open>Calls\<close>

type_synonym sec_sys = "heap_state \<times> raii multiset \<times> arc_world \<times> seccomp_state list"

datatype sec_op =
    Sec_New
  | Sec_Install nat "seccomp_insn list" seccomp_action u32 sec_allocs
  | Sec_Strict nat sec_allocs
  | Sec_Clone nat sec_allocs
  | Sec_Drop nat

datatype sec_reply = Sec_Done | Sec_Error seccomp_error | Sec_NoMemory

fun op_ok :: "nat \<Rightarrow> sec_op \<Rightarrow> bool" where
  "op_ok n Sec_New \<longleftrightarrow> True"
| "op_ok n (Sec_Install i prog d fl al) \<longleftrightarrow> i < n \<and> grant_ok (chain_grant al)"
| "op_ok n (Sec_Strict i al) \<longleftrightarrow> i < n \<and> grant_ok (chain_grant al)"
| "op_ok n (Sec_Clone i al) \<longleftrightarrow> i < n \<and> grant_ok (chain_grant al)"
| "op_ok n (Sec_Drop i) \<longleftrightarrow> i < n"

text \<open>Installing: build the filter, then add it to the chain.\<close>

definition install_built ::
  "'h heap_calls \<Rightarrow> sec_env \<Rightarrow> sec_allocs \<Rightarrow> nat \<Rightarrow> ('h \<times> (seccomp_error + sec_filter)) option \<Rightarrow> arc_world \<Rightarrow>
   seccomp_state list \<Rightarrow> (('h \<times> arc_world \<times> seccomp_state list) \<times> sec_reply) option" where
  "install_built hp env al i m w ps = do {
     (h1, r) \<leftarrow> m;
     case r of
       Inl e \<Rightarrow> Some ((h1, w, ps), Sec_Error e)
     | Inr flt \<Rightarrow> do {
         (h2, w1, st, r') \<leftarrow> add_filter hp env al flt (ps ! i) w h1;
         Some ((h2, w1, ps[i := st]), case r' of Inl _ \<Rightarrow> Sec_NoMemory | Inr _ \<Rightarrow> Sec_Done) } }"

fun sec_call ::
  "'h heap_calls \<Rightarrow> sec_env \<Rightarrow> sec_op \<Rightarrow> 'h \<times> arc_world \<times> seccomp_state list \<Rightarrow>
   (('h \<times> arc_world \<times> seccomp_state list) \<times> sec_reply) option" where
  "sec_call hp env Sec_New (h, w, ps) = Some ((h, w, ps @ [state_new]), Sec_Done)"
| "sec_call hp env (Sec_Install i prog d fl al) (h, w, ps) =
     install_built hp env al i (new_from_slice hp env al prog d fl h) w ps"
| "sec_call hp env (Sec_Strict i al) (h, w, ps) =
     install_built hp env al i (try_strict_filter hp env al h) w ps"
| "sec_call hp env (Sec_Clone i al) (h, w, ps) = do {
     (h1, w1, r) \<leftarrow> state_try_clone hp env al (ps ! i) w h;
     Some (case r of Inl _ \<Rightarrow> ((h1, w1, ps), Sec_NoMemory) | Inr st \<Rightarrow> ((h1, w1, ps @ [st]), Sec_Done)) }"
| "sec_call hp env (Sec_Drop i) (h, w, ps) = do {
     (w1, h1) \<leftarrow> drop_state hp (ps ! i) w h;
     Some ((h1, w1, remove_at i ps), Sec_Done) }"

section \<open>The abstract system\<close>

type_synonym sec_chain = "(seccomp_insn list \<times> seccomp_action) list"

definition chain_abs :: "arc_world \<Rightarrow> seccomp_state \<Rightarrow> sec_chain" where
  "chain_abs w st =
     (case deref_all w (av_values (chain st)) of
        None \<Rightarrow> []
      | Some fs \<Rightarrow> map (\<lambda>f. (filter_prog f, default_action f)) fs)"

definition chain_insns :: "sec_chain \<Rightarrow> nat" where
  "chain_insns c = sum_list (map (length \<circ> fst) c)"

definition install_spec :: "nat \<Rightarrow> seccomp_insn list \<Rightarrow> seccomp_action \<Rightarrow> sec_chain list \<Rightarrow> sec_reply \<Rightarrow> sec_chain list \<Rightarrow> bool" where
  "install_spec i prog d cs r cs' \<longleftrightarrow>
     (if r = Sec_Done
      then chain_insns (cs ! i) + length prog \<le> MAX_FILTER_INSNS_TOTAL \<and> cs' = cs[i := cs ! i @ [(prog, d)]]
      else cs' = cs)"

fun sec_spec :: "sec_op \<Rightarrow> sec_chain list \<Rightarrow> sec_reply \<Rightarrow> sec_chain list \<Rightarrow> bool" where
  "sec_spec Sec_New cs r cs' \<longleftrightarrow> r = Sec_Done \<and> cs' = cs @ [[]]"
| "sec_spec (Sec_Install i prog d fl al) cs r cs' \<longleftrightarrow>
     install_spec i prog d cs r cs' \<and> (\<forall>e. validate_program prog = Err e \<longrightarrow> r = Sec_Error e)"
| "sec_spec (Sec_Strict i al) cs r cs' \<longleftrightarrow> install_spec i STRICT_PROGRAM Kill cs r cs'"
| "sec_spec (Sec_Clone i al) cs r cs' \<longleftrightarrow> r = Sec_Done \<and> cs' = cs @ [cs ! i] \<or> r = Sec_NoMemory \<and> cs' = cs"
| "sec_spec (Sec_Drop i) cs r cs' \<longleftrightarrow> r = Sec_Done \<and> cs' = remove_at i cs"

section \<open>Invariant\<close>

definition handles :: "seccomp_state list \<Rightarrow> arc_allocator multiset" where
  "handles ps = sum_list (map (\<lambda>st. mset (av_values (chain st))) ps)"

definition chain_ms :: "seccomp_state list \<Rightarrow> heap_charge multiset" where
  "chain_ms ps = sum_list (map (\<lambda>st. opt_ms (av_charge (chain st))) ps)"

definition chain_ok :: "sec_env \<Rightarrow> arc_world \<Rightarrow> seccomp_state \<Rightarrow> bool" where
  "chain_ok env w st \<longleftrightarrow> adm_ok (handle_layout env) (chain st) \<and> av_class (chain st) = CoreProcess \<and>
     chain_insns (chain_abs w st) \<le> MAX_FILTER_INSNS_TOTAL"

lemma sum_remove_at:
  fixes f :: "'a \<Rightarrow> 'b::comm_monoid_add"
  assumes "i < length xs"
  shows "sum_list (map f xs) = f (xs ! i) + sum_list (map f (remove_at i xs))"
    and "sum_list (map f (xs[i := x])) = f x + sum_list (map f (remove_at i xs))"
proof -
  have "sum_list (map f xs) = sum_list (map f (take i xs @ xs ! i # drop (Suc i) xs))"
    using id_take_nth_drop [OF assms] by (rule arg_cong)
  then show "sum_list (map f xs) = f (xs ! i) + sum_list (map f (remove_at i xs))"
    by (simp add: remove_at_def ac_simps)
  show "sum_list (map f (xs[i := x])) = f x + sum_list (map f (remove_at i xs))"
    using assms by (simp add: remove_at_def upd_conv_take_nth_drop ac_simps)
qed

lemma handles_split:
  assumes "i < length ps"
  shows "handles ps = mset (av_values (chain (ps ! i))) + handles (remove_at i ps)"
    and "handles (ps[i := st]) = mset (av_values (chain st)) + handles (remove_at i ps)"
  unfolding handles_def by (rule sum_remove_at [OF assms])+

lemma chain_ms_split:
  assumes "i < length ps"
  shows "chain_ms ps = opt_ms (av_charge (chain (ps ! i))) + chain_ms (remove_at i ps)"
    and "chain_ms (ps[i := st]) = opt_ms (av_charge (chain st)) + chain_ms (remove_at i ps)"
  unfolding chain_ms_def by (rule sum_remove_at [OF assms])+

lemma handles_member: "st \<in> set ps \<Longrightarrow> a \<in> set (av_values (chain st)) \<Longrightarrow> a \<in># handles ps"
  by (induction ps) (auto simp: handles_def)

lemma remove_at_subset: "set (remove_at i xs) \<subseteq> set xs"
  by (auto simp: remove_at_def dest: in_set_takeD in_set_dropD)

lemma deref_all_cong:
  "(\<And>a. a \<in> set as \<Longrightarrow> arc_deref w' a = arc_deref w a) \<Longrightarrow> deref_all w' as = deref_all w as"
  by (induction as) auto

lemma deref_all_snoc:
  "deref_all w as = Some xs \<Longrightarrow> arc_deref w a = Some y \<Longrightarrow> deref_all w (as @ [a]) = Some (xs @ [y])"
proof (induction as arbitrary: xs)
  case (Cons b bs)
  then obtain z zs where "arc_deref w b = Some z" "deref_all w bs = Some zs" "xs = z # zs"
    by (auto simp: bind_eq_Some_conv)
  with Cons.IH [of zs] Cons.prems(2) show ?case by simp
qed simp

lemma chain_abs_cong:
  "(\<And>a. a \<in> set (av_values (chain st)) \<Longrightarrow> arc_deref w' a = arc_deref w a) \<Longrightarrow> chain_abs w' st = chain_abs w st"
  using deref_all_cong [of "av_values (chain st)" w' w] by (simp add: chain_abs_def)

lemma deref_all_live:
  assumes "world_wf w hs" "set as \<subseteq> set_mset hs"
  shows "\<exists>fs. deref_all w as = Some fs \<and> (\<forall>f \<in> set fs. filter_ok f)"
  using assms(2)
proof (induction as)
  case (Cons a as)
  have a: "a \<in># hs" and sub: "set as \<subseteq> set_mset hs" using Cons.prems by simp_all
  obtain fs where fs: "deref_all w as = Some fs" "\<forall>f \<in> set fs. filter_ok f" using Cons.IH [OF sub] by blast
  obtain f where f: "arc_deref w a = Some f" "filter_ok f" by (rule deref_handle [OF assms(1) a])
  show ?case using fs f by simp
qed simp

lemma chain_abs_Some:
  "deref_all w (av_values (chain st)) = Some fs \<Longrightarrow>
   chain_abs w st = map (\<lambda>f. (filter_prog f, default_action f)) fs \<and> chain_insns (chain_abs w st) = sum_list (map prog_len fs)"
  by (simp add: chain_abs_def chain_insns_def comp_def prog_len_def [abs_def])

lemma allocation_charge_ge: "allocation_charge_bytes p a = Ok n \<Longrightarrow> p \<le> n"
  using align_up_ge [of "p + ALLOCATOR_LINK_SLACK" "max a USIZE_BYTES" n]
  by (simp add: allocation_charge_bytes_def checked_add_usize_def split: if_splits)

lemma charge_of_ge:
  assumes "charge_of ly n = Ok b" "0 < elem_size ly"
  shows "n \<le> b"
proof (cases "n = 0")
  case False
  then have "allocation_charge_bytes (elem_size ly * n) (elem_align ly) = Ok b"
    using assms by (simp add: charge_of_def vec_charge_bytes_def checked_mul_usize_def split: if_splits)
  then have "elem_size ly * n \<le> b" by (rule allocation_charge_ge)
  moreover have "1 * n \<le> elem_size ly * n" using assms(2) by (intro mult_right_mono) simp_all
  ultimately show ?thesis by linarith
qed simp

lemma capacity_paid:
  assumes "adm_ok ly a" "0 < elem_size ly"
  shows "length (av_values a) \<le> class_bytes (av_class a) (opt_ms (av_charge a))"
proof -
  have l: "length (av_values a) \<le> av_capacity a" using assms(1) by (simp add: adm_ok_def)
  show ?thesis
  proof (cases "av_charge a")
    case None
    then show ?thesis using assms(1) by (auto simp: adm_ok_def backing_ok_def)
  next
    case (Some c)
    then have c: "hold_class c = av_class a" "charge_of ly (av_capacity a) = Ok (hold_bytes c)"
      using assms(1) by (simp_all add: adm_ok_def backing_ok_def)
    have "av_capacity a \<le> hold_bytes c" by (rule charge_of_ge [OF c(2) assms(2)])
    with l c(1) Some show ?thesis by simp
  qed
qed

lemma chains_paid:
  assumes "\<forall>st \<in> set ps. chain_ok env w st" "0 < elem_size (handle_layout env)"
  shows "size (handles ps) \<le> class_bytes CoreProcess (chain_ms ps)"
  using assms(1)
proof (induction ps)
  case (Cons st ps)
  then have "length (av_values (chain st)) \<le> class_bytes CoreProcess (opt_ms (av_charge (chain st)))"
    using capacity_paid [OF _ assms(2), of "chain st"] by (auto simp: chain_ok_def)
  with Cons show ?case by (simp add: handles_def chain_ms_def)
qed (simp add: handles_def chain_ms_def)

context heap_client_bounded
begin

definition sys_ok where
  "sys_ok env h w ps \<longleftrightarrow> world_wf w (handles ps) \<and> hinv h {#} (chain_ms ps + world_ms w) \<and>
     (\<forall>st \<in> set ps. chain_ok env w st)"

definition refines where
  "refines env op w ps = (\<lambda>((h', w', ps'), r). sys_ok env h' w' ps' \<and>
     sec_spec op (map (chain_abs w) ps) r (map (chain_abs w') ps'))"

lemma sys_state_at:
  assumes "sys_ok env h w ps" "i < length ps"
  shows "state_at {#} (chain_ms (remove_at i ps)) env (handles (remove_at i ps)) h w (ps ! i)"
  using assms handles_split(1) [OF assms(2)] chain_ms_split(1) [OF assms(2)]
  by (auto simp: sys_ok_def state_at_def chain_ok_def ac_simps)

lemma others_same:
  assumes "\<forall>b \<in># mset (av_values (chain (ps ! i))) + handles (remove_at i ps). arc_deref w' b = arc_deref w b"
    and "i < length ps" "st \<in> set ps"
  shows "chain_abs w' st = chain_abs w st"
proof (rule chain_abs_cong)
  fix a assume "a \<in> set (av_values (chain st))"
  then have "a \<in># handles ps" using assms(3) by (rule handles_member [rotated])
  then show "arc_deref w' a = arc_deref w a" using assms(1) handles_split(1) [OF assms(2)] by auto
qed

lemma state_at_sys:
  assumes at: "state_at {#} (chain_ms (remove_at i ps)) env (handles (remove_at i ps)) h w st" and i: "i < length ps"
    and ok: "chain_insns (chain_abs w st) \<le> MAX_FILTER_INSNS_TOTAL"
      "\<forall>st \<in> set (remove_at i ps). chain_ok env w st"
  shows "sys_ok env h w (ps[i := st])"
proof -
  have "set (ps[i := st]) \<subseteq> insert st (set (remove_at i ps))"
    using i by (auto simp: upd_conv_take_nth_drop remove_at_def)
  then have "\<forall>st' \<in> set (ps[i := st]). chain_ok env w st'"
    using ok at by (auto simp: chain_ok_def state_at_def)
  with at show ?thesis
    by (simp add: sys_ok_def state_at_def handles_split(2) [OF i] chain_ms_split(2) [OF i] ac_simps)
qed

lemma others_ok:
  assumes "sys_ok env h w ps" "\<And>st. st \<in> set ps \<Longrightarrow> chain_abs w' st = chain_abs w st"
  shows "\<forall>st \<in> set (remove_at i ps). chain_ok env w' st"
  using assms remove_at_subset [of i ps] by (auto simp: sys_ok_def chain_ok_def)

text \<open>Installing a built filter.\<close>

lemma install_built_ok:
  assumes sys: "sys_ok env h w ps" and i: "i < length ps" and g: "grant_ok (chain_grant al)"
    and m: "\<And>R C. hinv h R C \<Longrightarrow> runs m (\<lambda>(h', r). built R C prog d fl (h', r) \<and> (\<forall>flt. r = Ok flt \<longrightarrow> filter_ok flt))"
  shows "runs (install_built hp env al i m w ps) (\<lambda>((h', w', ps'), r). sys_ok env h' w' ps' \<and>
    install_spec i prog d (map (chain_abs w) ps) r (map (chain_abs w') ps'))"
proof -
  obtain h1 r where 1: "m = Some (h1, r)" "built {#} (chain_ms ps + world_ms w) prog d fl (h1, r)"
    "\<forall>flt. r = Ok flt \<longrightarrow> filter_ok flt"
    using m [of "{#}" "chain_ms ps + world_ms w"] sys by (auto simp: sys_ok_def runs_def)
  show ?thesis
  proof (cases r)
    case (Inl e)
    then show ?thesis using 1 sys by (simp add: install_built_def built_def sys_ok_def install_spec_def)
  next
    case (Inr flt)
    let ?C = "chain_ms (remove_at i ps)" and ?hs = "handles (remove_at i ps)"
    have flt: "filter_prog flt = prog" "default_action flt = d" "filter_ok flt"
      and h1: "hinv h1 {#} (opt_ms (prog_heap_charge flt) + (chain_ms ps + world_ms w))"
      using 1 Inr by (simp_all add: built_def)
    have at: "state_at {#} (opt_ms (prog_heap_charge flt) + ?C) env ?hs h1 w (ps ! i)"
      using sys_state_at [OF sys i] h1 chain_ms_split(1) [OF i] by (simp add: state_at_def ac_simps)
    obtain fs where fs: "deref_all w (av_values (chain (ps ! i))) = Some fs"
      using deref_all_live [of w "mset (av_values (chain (ps ! i))) + ?hs" "av_values (chain (ps ! i))"] at
      by (auto simp: state_at_def)
    obtain h2 w1 st r' where 2: "add_filter hp env al flt (ps ! i) w h1 = Some (h2, w1, st, r')"
      "added {#} ?C env ?hs flt fs w (ps ! i) (h2, w1, st, r')"
      using add_filter_ok [OF at flt(3) g fs] by (auto simp: runs_def)
    then have at1: "state_at {#} ?C env ?hs h2 w1 st"
      and der: "\<forall>b \<in># mset (av_values (chain (ps ! i))) + ?hs. arc_deref w1 b = arc_deref w b"
      by (simp_all add: added_def)
    have same: "chain_abs w1 st' = chain_abs w st'" if "st' \<in> set ps" for st' by (rule others_same [OF der i that])
    have fs1: "deref_all w1 (av_values (chain (ps ! i))) = Some fs"
      using fs der deref_all_cong [of "av_values (chain (ps ! i))" w1 w] by auto
    have old: "chain_insns (chain_abs w (ps ! i)) = sum_list (map prog_len fs)" "chain_abs w (ps ! i) = map (\<lambda>f. (filter_prog f, default_action f)) fs"
      using chain_abs_Some [OF fs] by blast+
    have le: "chain_insns (chain_abs w (ps ! i)) \<le> MAX_FILTER_INSNS_TOTAL" using sys i by (auto simp: sys_ok_def chain_ok_def)
    have abs1: "chain_abs w1 st = (case r' of Inl _ \<Rightarrow> chain_abs w (ps ! i) | Inr _ \<Rightarrow> chain_abs w (ps ! i) @ [(prog, d)])"
      using 2(2) fs1 old(2) flt deref_all_snoc [OF fs1] by (auto simp: added_def chain_abs_def split: sum.splits)
    have ins1: "chain_insns (chain_abs w1 st) \<le> MAX_FILTER_INSNS_TOTAL"
      using abs1 le 2(2) old flt by (auto simp: added_def chain_insns_def prog_len_def split: sum.splits)
    have sys1: "sys_ok env h2 w1 (ps[i := st])"
      by (rule state_at_sys [OF at1 i ins1 others_ok [OF sys same]])
    have "map (chain_abs w1) (ps[i := st]) = (map (chain_abs w) ps)[i := chain_abs w1 st]"
      using same i by (auto simp: list_eq_iff_nth_eq nth_list_update)
    moreover have "(map (chain_abs w) ps)[i := chain_abs w (ps ! i)] = map (chain_abs w) ps"
      by (metis list_update_id map_update)
    ultimately have "install_spec i prog d (map (chain_abs w) ps) (case r' of Inl _ \<Rightarrow> Sec_NoMemory | Inr _ \<Rightarrow> Sec_Done) (map (chain_abs w1) (ps[i := st]))"
      using 2(2) abs1 old(1) i flt(1) by (cases r') (simp_all add: install_spec_def added_def prog_len_def)
    with 1(1) Inr 2(1) sys1 show ?thesis by (simp add: install_built_def)
  qed
qed

lemma clone_state_ok:
  assumes sys: "sys_ok env h w ps" and i: "i < length ps" and g: "grant_ok (chain_grant al)" and sz: "0 < elem_size (handle_layout env)"
  shows "runs (state_try_clone hp env al (ps ! i) w h) (\<lambda>(h', w', r).
    (case r of Inl _ \<Rightarrow> w' = w \<and> sys_ok env h' w ps
     | Inr st \<Rightarrow> sys_ok env h' w' (ps @ [st]) \<and> (\<forall>st' \<in> set ps. chain_abs w' st' = chain_abs w st') \<and>
         chain_abs w' st = chain_abs w (ps ! i)))"
proof -
  let ?st = "ps ! i"
  have inv: "hinv h {#} (chain_ms ps + world_ms w)" and wf: "world_wf w (handles ps)" and ok: "\<forall>st \<in> set ps. chain_ok env w st"
    using sys by (simp_all add: sys_ok_def)
  obtain h1 r where 1: "vec_try_copy_from_slice hp (handle_layout env) (chain_grant al) CoreProcess (av_values (chain ?st)) h = Some (h1, r)"
    "case r of Inl _ \<Rightarrow> hinv h1 {#} (chain_ms ps + world_ms w)
       | Inr ch \<Rightarrow> adm_at hinv {#} (chain_ms ps + world_ms w) (handle_layout env) h1 ch \<and> av_values ch = av_values (chain ?st) \<and> av_class ch = CoreProcess"
    using copy_ok [OF inv g, of "handle_layout env" CoreProcess "av_values (chain ?st)"] by (auto simp: runs_def)
  show ?thesis
  proof (cases r)
    case (Inl e)
    then show ?thesis using 1 wf ok by (simp add: state_try_clone_def sys_ok_def)
  next
    case (Inr ch)
    with 1 have ch: "adm_ok (handle_layout env) ch" "hinv h1 {#} (opt_ms (av_charge ch) + (chain_ms ps + world_ms w))"
      "av_values ch = av_values (chain ?st)" "av_class ch = CoreProcess" by (simp_all add: adm_at_def)
    have sub: "set (av_values ch) \<subseteq> set_mset (handles ps)"
      using handles_member [of ?st ps] i ch(3) by auto
    have "size (handles ps) + length (av_values ch) \<le> class_bytes CoreProcess (opt_ms (av_charge ch) + (chain_ms ps + world_ms w))"
      using chains_paid [OF ok sz] capacity_paid [OF ch(1) sz] ch(4) by simp
    also have "\<dots> \<le> 2 ^ 63" using class_bound [OF ch(2), of CoreProcess] by simp
    finally have "runs (clone_all (av_values ch) w) (\<lambda>w'. world_wf w' (mset (av_values ch) + handles ps) \<and>
        world_ms w' = world_ms w \<and> arc_deref w' = arc_deref w)"
      by (rule clone_all_ok [OF wf sub])
    then obtain w' where w': "clone_all (av_values ch) w = Some w'" "world_wf w' (mset (av_values ch) + handles ps)"
      "world_ms w' = world_ms w" "arc_deref w' = arc_deref w" by (auto simp: runs_def)
    let ?new = "\<lparr>chain = ch, no_new_privs = no_new_privs ?st, log_violations = log_violations ?st\<rparr>"
    have same: "chain_abs w' st' = chain_abs w st'" for st' by (rule chain_abs_cong) (simp add: w'(4))
    have new: "chain_abs w' ?new = chain_abs w ?st" using ch(3) same [of ?st] by (simp add: chain_abs_def)
    have "chain_ok env w' ?new" using ok i new ch by (auto simp: chain_ok_def)
    moreover have "\<forall>st \<in> set ps. chain_ok env w' st" using ok same by (simp add: chain_ok_def)
    ultimately have "sys_ok env h1 w' (ps @ [?new])"
      using w'(2,3) ch(2) by (simp add: sys_ok_def handles_def chain_ms_def ac_simps)
    then show ?thesis using 1(1) Inr w'(1) same new by (simp add: state_try_clone_def)
  qed
qed

lemma drop_state_ok:
  assumes sys: "sys_ok env h w ps" and i: "i < length ps"
  shows "runs (drop_state hp (ps ! i) w h) (\<lambda>(w', h'). sys_ok env h' w' (remove_at i ps) \<and>
    (\<forall>st' \<in> set (remove_at i ps). chain_abs w' st' = chain_abs w st'))"
proof -
  let ?A = "opt_ms (av_charge (chain (ps ! i)))" and ?C = "chain_ms (remove_at i ps)"
  have at: "world_wf w (mset (av_values (chain (ps ! i))) + handles (remove_at i ps))" "hinv h {#} (world_ms w + (?A + ?C))"
    using sys_state_at [OF sys i] by (simp_all add: state_at_def ac_simps)
  obtain w1 h1 where 1: "drop_all hp (av_values (chain (ps ! i))) w h = Some (w1, h1)" "world_wf w1 (handles (remove_at i ps))"
    "hinv h1 {#} (?A + (?C + world_ms w1))" "\<forall>b\<in>#handles (remove_at i ps). arc_deref w1 b = arc_deref w b"
    using drop_all_ok [OF at] by (auto simp: runs_def ac_simps)
  have same: "chain_abs w1 st' = chain_abs w st'" if "st' \<in> set (remove_at i ps)" for st'
    by (rule chain_abs_cong) (use 1(4) handles_member [OF that] in blast)
  have ok: "\<forall>st' \<in> set (remove_at i ps). chain_ok env w1 st'"
    using sys same remove_at_subset [of i ps] by (auto simp: sys_ok_def chain_ok_def)
  have "runs (drop_admitted hp (chain (ps ! i)) h1) (\<lambda>h2. hinv h2 {#} (?C + world_ms w1))"
    unfolding drop_admitted_def by (rule drop_opt [OF 1(3)])
  then show ?thesis using 1(1,2) ok same
    by (simp add: drop_state_def sys_ok_def)
qed

lemma sec_call_ok:
  assumes sys: "sys_ok env h w ps" and en: "op_ok (length ps) op" and sz: "0 < elem_size (handle_layout env)"
  shows "runs (sec_call hp env op (h, w, ps)) (refines env op w ps)"
proof (cases op)
  case Sec_New
  have "chain_abs w state_new = []" by (simp add: chain_abs_def state_new_def vec_new_def)
  moreover from this have "chain_ok env w state_new"
    by (simp add: chain_ok_def chain_insns_def) (simp add: state_new_def adm_ok_new, simp add: vec_new_def)
  ultimately show ?thesis using sys Sec_New
    by (simp add: refines_def sys_ok_def handles_def chain_ms_def) (simp add: state_new_def vec_new_def)
next
  case (Sec_Install i prog d fl al)
  with en have i: "i < length ps" "grant_ok (chain_grant al)" by simp_all
  have r: "r = Sec_Error e" if "validate_program prog = Err e" "sec_call hp env op (h, w, ps) = Some (s, r)" for s e r
    using that Sec_Install by (simp add: install_built_def new_from_slice_def)
  have "runs (sec_call hp env op (h, w, ps)) (\<lambda>((h', w', ps'), r). sys_ok env h' w' ps' \<and>
      install_spec i prog d (map (chain_abs w) ps) r (map (chain_abs w') ps'))"
    using install_built_ok [OF sys i new_filter_ok(1)] Sec_Install by simp
  then show ?thesis using Sec_Install r by (auto simp: runs_def refines_def)
next
  case (Sec_Strict i al)
  with en have i: "i < length ps" "grant_ok (chain_grant al)" by simp_all
  have "runs (install_built hp env al i (try_strict_filter hp env al h) w ps) (\<lambda>((h', w', ps'), r). sys_ok env h' w' ps' \<and>
      install_spec i STRICT_PROGRAM Kill (map (chain_abs w) ps) r (map (chain_abs w') ps'))"
    unfolding try_strict_filter_def by (rule install_built_ok [OF sys i new_filter_ok(2)])
  then show ?thesis using Sec_Strict by (simp add: refines_def)
next
  case (Sec_Clone i al)
  with en have i: "i < length ps" "grant_ok (chain_grant al)" by simp_all
  obtain h1 w1 r where 1: "state_try_clone hp env al (ps ! i) w h = Some (h1, w1, r)"
    "case r of Inl _ \<Rightarrow> w1 = w \<and> sys_ok env h1 w ps
     | Inr st \<Rightarrow> sys_ok env h1 w1 (ps @ [st]) \<and> (\<forall>st' \<in> set ps. chain_abs w1 st' = chain_abs w st') \<and>
         chain_abs w1 st = chain_abs w (ps ! i)"
    using clone_state_ok [OF sys i sz] by (auto simp: runs_def)
  show ?thesis using 1 i Sec_Clone by (cases r) (simp_all add: refines_def)
next
  case (Sec_Drop i)
  with en have i: "i < length ps" by simp
  have m: "map f (remove_at i ps) = remove_at i (map f ps)" for f :: "seccomp_state \<Rightarrow> sec_chain"
    by (simp add: remove_at_def take_map drop_map)
  obtain w1 h1 where 1: "drop_state hp (ps ! i) w h = Some (w1, h1)" "sys_ok env h1 w1 (remove_at i ps)"
    "\<forall>st' \<in> set (remove_at i ps). chain_abs w1 st' = chain_abs w st'"
    using drop_state_ok [OF sys i] by (auto simp: runs_def)
  have "map (chain_abs w1) (remove_at i ps) = remove_at i (map (chain_abs w) ps)"
    unfolding m [symmetric] using 1(3) by simp
  then show ?thesis using 1(1,2) Sec_Drop by (simp add: refines_def)
qed

end

section \<open>Reachable states\<close>

fun sec_exec :: "sec_env \<Rightarrow> nat option \<Rightarrow> sec_op \<Rightarrow> sec_sys \<Rightarrow> (sec_sys \<times> sec_reply) option" where
  "sec_exec env own op (H, L, w, ps) =
     map_option (\<lambda>((H', w', ps'), r). ((H', L, w', ps'), r)) (sec_call (ledger_heap own) env op (H, w, ps))"

fun sec_enabled :: "nat option \<Rightarrow> sec_op \<Rightarrow> sec_sys \<Rightarrow> bool" where
  "sec_enabled own op (H, L, w, ps) \<longleftrightarrow> owner_live H own \<and> op_ok (length ps) op"

definition sec_charges :: "arc_world \<Rightarrow> seccomp_state list \<Rightarrow> heap_charge multiset" where
  "sec_charges w ps = chain_ms ps + world_ms w"

inductive sec_reachable :: "sec_env \<Rightarrow> sec_sys \<Rightarrow> bool" for env where
  boot: "heap_reachable (H, L) \<Longrightarrow> sec_reachable env (H, L, arc_boot, [])"
| call: "sec_reachable env s \<Longrightarrow> sec_enabled own op s \<Longrightarrow> sec_exec env own op s = Some (s', r) \<Longrightarrow> sec_reachable env s'"
| other: "sec_reachable env (H, L, w, ps) \<Longrightarrow> heap_enabled op (H, held {#} (sec_charges w ps) + L) \<Longrightarrow>
    heap_exec op (H, held {#} (sec_charges w ps) + L) = Some (H', held {#} (sec_charges w ps) + L') \<Longrightarrow>
    sec_reachable env (H', L', w, ps)"

definition sec_inv :: "sec_env \<Rightarrow> sec_sys \<Rightarrow> bool" where
  "sec_inv env s \<longleftrightarrow> (case s of (H, L, w, ps) \<Rightarrow>
     heap_reachable (H, held {#} (sec_charges w ps) + L) \<and> world_wf w (handles ps) \<and> (\<forall>st \<in> set ps. chain_ok env w st))"

lemma sec_inv_ledger:
  "ledger_bounded.sys_ok own L env H w ps \<longleftrightarrow> sec_inv env (H, L, w, ps) \<and> owner_live H own"
  by (auto simp: ledger_bounded.sys_ok_def sec_inv_def ledger_inv_def sec_charges_def)

lemma sec_boot_inv: "heap_reachable (H, L) \<Longrightarrow> sec_inv env (H, L, arc_boot, [])"
proof -
  assume "heap_reachable (H, L)"
  moreover have "sum_list (replicate n {#}) = ({#} :: heap_charge multiset)" for n by (induction n) simp_all
  then have "world_ms arc_boot = {#}" by (simp add: world_ms_def arc_boot_def slot_ms_def block_ms_def)
  ultimately show ?thesis
    by (simp add: sec_inv_def sec_charges_def chain_ms_def) (simp add: world_wf_def arc_boot_def handles_def slot_ok_def)
qed

text \<open>Every enabled call returns and refines the abstract call.\<close>

lemma sec_exec_ok:
  assumes "sec_inv env (H, L, w, ps)" "sec_enabled own op (H, L, w, ps)" "0 < elem_size (handle_layout env)"
  shows "\<exists>H' w' ps' r. sec_exec env own op (H, L, w, ps) = Some ((H', L, w', ps'), r) \<and> sec_inv env (H', L, w', ps') \<and>
    sec_spec op (map (chain_abs w) ps) r (map (chain_abs w') ps')"
proof -
  have "ledger_bounded.sys_ok own L env H w ps" using assms by (simp add: sec_inv_ledger)
  from ledger_bounded.sec_call_ok [OF this _ assms(3), of op] assms(2)
  show ?thesis by (auto simp: runs_def ledger_bounded.refines_def sec_inv_ledger)
qed

lemma reachable_sec_inv:
  assumes "sec_reachable env s" "0 < elem_size (handle_layout env)"
  shows "sec_inv env s"
  using assms(1)
proof (induction rule: sec_reachable.induct)
  case (boot H L)
  then show ?case by (rule sec_boot_inv)
next
  case (call s own op s' r)
  obtain H L w ps where s: "s = (H, L, w, ps)" by (cases s)
  from sec_exec_ok [OF _ _ assms(2), of H L w ps own op] call s show ?case by auto
next
  case (other H L w ps op H' L')
  then show ?case using heap_reachable.step by (auto simp: sec_inv_def)
qed

lemma live_chain:
  assumes "sec_inv env (H, L, w, ps)" "i < length ps"
  obtains fs where "deref_all w (av_values (chain (ps ! i))) = Some fs" "\<forall>f \<in> set fs. filter_ok f"
proof -
  have "set (av_values (chain (ps ! i))) \<subseteq> set_mset (handles ps)" using handles_member [of "ps ! i" ps] assms(2) by auto
  with deref_all_live [of w "handles ps"] assms(1) that show thesis by (auto simp: sec_inv_def)
qed

section \<open>Properties\<close>

text \<open>C4: the filter chains of all processes refine lists of programs. In every reachable state every
  call returns, whatever the allocator and the ledger answer: a program is appended to exactly one
  chain if it is valid and the chain stays within the total instruction cap, an invalid program is
  refused with the validator's error, a fork copies the chain, an exit removes it, a failed call changes
  no chain, and no call changes the chain of another process although control blocks are shared.\<close>

theorem seccomp_system_refines:
  assumes "sec_reachable env (H, L, w, ps)" "sec_enabled own op (H, L, w, ps)" "0 < elem_size (handle_layout env)"
  shows "\<exists>H' w' ps' r. sec_exec env own op (H, L, w, ps) = Some ((H', L, w', ps'), r) \<and>
    sec_spec op (map (chain_abs w) ps) r (map (chain_abs w') ps')"
  using sec_exec_ok [OF reachable_sec_inv [OF assms(1,3)] assms(2,3)] by blast

text \<open>C7: the memory of all filters is exactly accounted for. In every reachable state the ledger holds,
  beside the values of its other users, exactly the charges of the chain backings, of the installed
  programs and of the control blocks; a block's strong count is the number of handles to it in all
  chains; every chain is within the instruction cap; and when the last process is gone no slot of the
  charge table is occupied.\<close>

theorem seccomp_system_accounting:
  assumes "sec_reachable env (H, L, w, ps)" "0 < elem_size (handle_layout env)"
  shows "heap_reachable (H, held {#} (sec_charges w ps) + L) \<and>
    (\<forall>st \<in> set ps. chain_insns (chain_abs w st) \<le> MAX_FILTER_INSNS_TOTAL) \<and>
    (\<forall>i < SECCOMP_ARC_CHARGE_SLOTS. case arc_blocks w ! i of
        None \<Rightarrow> arc_charges w ! i = None \<and> handles_at i (handles ps) = {#}
      | Some (flt, n) \<Rightarrow> arc_charges w ! i \<noteq> None \<and> n = size (handles_at i (handles ps)) \<and> 1 \<le> n) \<and>
    (ps = [] \<longrightarrow> arc_charges w = replicate SECCOMP_ARC_CHARGE_SLOTS None)"
proof -
  have inv: "sec_inv env (H, L, w, ps)" by (rule reachable_sec_inv [OF assms])
  then have wf: "world_wf w (handles ps)" by (simp add: sec_inv_def)
  have slot: "case arc_blocks w ! i of
        None \<Rightarrow> arc_charges w ! i = None \<and> handles_at i (handles ps) = {#}
      | Some (flt, n) \<Rightarrow> arc_charges w ! i \<noteq> None \<and> n = size (handles_at i (handles ps)) \<and> 1 \<le> n"
    if "i < SECCOMP_ARC_CHARGE_SLOTS" for i
    using wf_slot [OF wf that] by (cases "arc_charges w ! i") (auto simp: slot_ok_def)
  have "arc_charges w ! i = None" if "ps = []" "i < SECCOMP_ARC_CHARGE_SLOTS" for i
    using wf_slot [OF wf that(2)] that(1) by (cases "arc_charges w ! i") (auto simp: slot_ok_def handles_def)
  then have "ps = [] \<longrightarrow> arc_charges w = replicate SECCOMP_ARC_CHARGE_SLOTS None"
    using wf_lengths [OF wf] by (auto intro: nth_equalityI)
  moreover have "heap_reachable (H, held {#} (sec_charges w ps) + L)"
    "\<forall>st \<in> set ps. chain_insns (chain_abs w st) \<le> MAX_FILTER_INSNS_TOTAL"
    using inv by (simp_all add: sec_inv_def chain_ok_def)
  ultimately show ?thesis using slot by blast
qed

text \<open>C13: the verdict on a system call is the most severe of the installed programs' own answers. In every
  reachable state evaluating a process's chain succeeds, gives the most severe action among the
  interpretations of its programs, and each of these is one of the program's own return instructions:
  neither the fast path, the default action nor the interpreter's trap decides.\<close>

theorem seccomp_verdict_exact:
  assumes "sec_reachable env (H, L, w, ps)" "0 < elem_size (handle_layout env)" "i < length ps"
  shows "\<exists>v. state_evaluate w (ps ! i) nr args = Some v \<and>
    verdict_action v = foldl strictest Allow (map (\<lambda>(prog, d). interpret_program prog d nr args) (chain_abs w (ps ! i))) \<and>
    (\<forall>(prog, d) \<in> set (chain_abs w (ps ! i)). Ret (interpret_program prog d nr args) \<in> set prog)"
proof -
  obtain fs where fs: "deref_all w (av_values (chain (ps ! i))) = Some fs" "\<forall>f \<in> set fs. filter_ok f"
    by (rule live_chain [OF reachable_sec_inv [OF assms(1,2)] assms(3)])
  have ev: "filter_evaluate f nr args = interpret_program (filter_prog f) (default_action f) nr args" if "f \<in> set fs" for f
    using fs(2) that by (intro fast_path_equal) (simp add: filter_ok_def)
  have "Ret (interpret_program (filter_prog f) (default_action f) nr args) \<in> set (filter_prog f)" if "f \<in> set fs" for f
    using fs(2) that by (intro validated_decides [of _ MAX_TRUSTED_INSNS]) (simp add: filter_ok_def)
  then have own: "\<forall>(prog, d) \<in> set (chain_abs w (ps ! i)). Ret (interpret_program prog d nr args) \<in> set prog"
    using fs(1) by (auto simp: chain_abs_def)
  have "map (\<lambda>f. filter_evaluate f nr args) fs = map (\<lambda>(prog, d). interpret_program prog d nr args) (chain_abs w (ps ! i))"
    using ev fs(1) by (simp add: chain_abs_def)
  then have "verdict_action (chain_evaluate fs nr args) =
      foldl strictest Allow (map (\<lambda>(prog, d). interpret_program prog d nr args) (chain_abs w (ps ! i)))"
    by (simp only: chain_evaluate_def chain_loop_action verdict_allow_def seccomp_verdict.simps)
  with own fs(1) show ?thesis by (intro exI [of _ "chain_evaluate fs nr args"]) (simp add: state_evaluate_def)
qed

text \<open>C19: the fixed table of control block charges never runs out before the bytes do. In every reachable
  state, whenever the ledger has admitted the charge of one more control block, there is a free slot
  for it, and the handle it gets names a slot no live handle uses; only exhaustion of the 64-bit
  generation counter could refuse.\<close>

theorem seccomp_slots_suffice:
  assumes "sec_reachable env (H, add_mset (LiveCharge c) L, w, ps)" "0 < elem_size (handle_layout env)"
    and "hold_class c = CoreProcess" "arc_charge_bytes size_T align_T = Ok (hold_bytes c)" "next_arc_gen w \<noteq> - 1"
  shows "\<exists>w' a. arc_try_install c w = (w', Ok a) \<and> (\<forall>b \<in># handles ps. alloc_slot b \<noteq> alloc_slot a)"
proof -
  have inv: "sec_inv env (H, add_mset (LiveCharge c) L, w, ps)" by (rule reachable_sec_inv [OF assms(1,2)])
  then have wf: "world_wf w (handles ps)" by (simp add: sec_inv_def)
  have "ledger_inv None L H {#} (add_mset c (world_ms w + chain_ms ps))"
    using inv by (simp add: sec_inv_def ledger_inv_def sec_charges_def owner_live_def ac_simps)
  from ledger_bounded.class_bound [OF this] obtain i where i: "first_free (arc_charges w) = Some i"
    using slot_available [OF wf assms(3) arc_charge_ge [OF assms(4)]] by blast
  have il: "i < SECCOMP_ARC_CHARGE_SLOTS" "arc_charges w ! i = None" using first_free_Some [OF i] wf_lengths [OF wf] by simp_all
  then have none: "handles_at i (handles ps) = {#}" using wf_slot [OF wf il(1)] by (simp add: slot_ok_def)
  have "unat (next_arc_gen w) + 1 < 2 ^ 64" using assms(5) by (rule u64_not_max)
  then obtain g where "checked_add_word (next_arc_gen w) 1 = Some g" by (simp add: checked_add_word_def)
  moreover have "alloc_slot b \<noteq> word_of_nat i" if "b \<in># handles ps" for b
    using none that in_handles_at [of b i "handles ps"] slot_of_nat [OF il(1)] by auto
  ultimately show ?thesis using i by (simp add: arc_try_install_def Let_def)
qed


section \<open>Concrete runs\<close>

definition sec_demo_env :: sec_env where
  "sec_demo_env = \<lparr>insn_layout = \<lparr>elem_size = 16, elem_align = 8\<rparr>, prog_vec_size = 24, prog_vec_align = 8,
     filter_size = 128, filter_align = 8, handle_layout = \<lparr>elem_size = 24, elem_align = 8\<rparr>\<rparr>"

definition sec_demo_allocs :: sec_allocs where
  "sec_demo_allocs = \<lparr>prog_grant = Some, prog_arc_ok = True, chain_grant = Some, filter_arc_ok = True\<rparr>"

lemma sec_demo_handles: "0 < elem_size (handle_layout sec_demo_env)"
  by (simp add: sec_demo_env_def)

lemma sec_demo_process: "sec_reachable sec_demo_env (heap_boot, {#}, arc_boot, [state_new])"
  by (rule sec_reachable.call [OF sec_reachable.boot [OF heap_reachable.boot], of None Sec_New])
    (simp_all add: owner_live_def)

lemma sec_demo_empty_chain: "chain_abs w state_new = []"
  by (simp add: chain_abs_def state_new_def vec_new_def)

theorem seccomp_system_refines_witness:
  "\<exists>s. sec_exec sec_demo_env None (Sec_Install 0 [] Kill 0 sec_demo_allocs) (heap_boot, {#}, arc_boot, [state_new]) =
     Some (s, Sec_Error NoTerminator)"
proof -
  have v: "validate_program [] = Err NoTerminator" by (simp add: validate_program_def validate_program_with_limit_def)
  have "sec_enabled None (Sec_Install 0 [] Kill 0 sec_demo_allocs) (heap_boot, {#}, arc_boot, [state_new])"
    by (simp add: owner_live_def sec_demo_allocs_def grant_ok_def)
  from seccomp_system_refines [OF sec_demo_process this sec_demo_handles] v show ?thesis by auto
qed

theorem seccomp_system_accounting_witness:
  "heap_reachable (heap_boot, held {#} (sec_charges arc_boot [state_new]) + {#}) \<and> chain_insns (chain_abs arc_boot state_new) = 0"
  using seccomp_system_accounting [OF sec_demo_process sec_demo_handles] by (simp add: sec_demo_empty_chain chain_insns_def)

theorem seccomp_verdict_exact_witness:
  "\<exists>v. state_evaluate arc_boot state_new 60 (replicate 6 0) = Some v \<and> verdict_action v = Allow"
  using seccomp_verdict_exact [OF sec_demo_process sec_demo_handles, of 0 60 "replicate 6 0"] by (auto simp: sec_demo_empty_chain)

text \<open>A ledger on which the charge of one control block has been committed.\<close>

definition sec_demo_charge :: heap_charge where
  "sec_demo_charge = \<lparr>hold_owner = None, hold_class = CoreProcess, hold_bytes = 160, armed = True\<rparr>"

definition sec_demo_reserved :: heap_state where
  "sec_demo_reserved = demo_published\<lparr>GLOBAL_STATE := 160, CLASS_STATES := (\<lambda>_. 0)(CoreProcess := 160)\<rparr>"

definition sec_demo_committed :: heap_state where
  "sec_demo_committed =
     demo_published\<lparr>GLOBAL_STATE := 0xA000000000, CLASS_STATES := (\<lambda>_. 0)(CoreProcess := 0xA000000000)\<rparr>"

lemma sec_demo_cells: "add_reserved 0 160 ADMITTED_HEAP_BYTES = Inr 160"
  "add_reserved 0 160 (limit_bytes CoreProcess) = Inr 160" "commit_reserved 160 160 = Inr 0xA000000000"
  by (simp_all add: cell_eval)

lemma sec_demo_reachable: "heap_reachable (sec_demo_committed, {#LiveCharge sec_demo_charge#})"
proof -
  have 1: "heap_exec (OpReserve CoreProcess 160 None) (demo_published, {#}) =
      Some (sec_demo_reserved, {#LiveReservation sec_demo_charge#})"
    using sec_demo_cells
    by (simp add: try_reserve_owned_def reserve_owned_pair_def reserve_pair_def Let_def set_class_def
        demo_published_def sec_demo_reserved_def sec_demo_charge_def heap_boot_def)
  have 2: "heap_exec (OpCommit sec_demo_charge) (sec_demo_reserved, {#LiveReservation sec_demo_charge#}) =
      Some (sec_demo_committed, {#LiveCharge sec_demo_charge#})"
    by (simp add: reservation_commit_def commit_pair_def Let_def set_class_def sec_demo_cells
        demo_published_def sec_demo_reserved_def sec_demo_committed_def sec_demo_charge_def heap_boot_def)
  have "heap_reachable (sec_demo_reserved, {#LiveReservation sec_demo_charge#})"
    by (rule heap_reachable.step [OF demo_reachable(1) _ 1]) (simp add: usize_max_def owner_live_def)
  then show ?thesis by (rule heap_reachable.step [OF _ _ 2]) simp
qed

lemma sec_demo_block_charge: "arc_charge_bytes 128 8 = Ok (hold_bytes sec_demo_charge)"
proof -
  have "is_power_of_two 8" unfolding is_power_of_two_def by (rule bexI [of _ 3]) simp_all
  then show ?thesis
    by (simp add: arc_charge_bytes_def allocation_charge_bytes_def checked_align_up_def checked_add_usize_def usize_max_def
        USIZE_BYTES_def ALLOCATOR_LINK_SLACK_def sec_demo_charge_def)
qed

theorem seccomp_slots_suffice_witness:
  "\<exists>w' a. arc_try_install sec_demo_charge arc_boot = (w', Ok a)"
  using seccomp_slots_suffice [OF sec_reachable.boot [OF sec_demo_reachable] sec_demo_handles _ sec_demo_block_charge]
  by (auto simp: sec_demo_charge_def arc_boot_def)


end
