(* ===== verification/BuddyBlocks.thy ===== *)
theory BuddyBlocks
  imports Prelude
begin

text \<open>
  The geometry behind the buddy allocator of \<open>src/kernel/mm/buddy_allocator.rs\<close>, independent of
  its bitmaps. A block is a pair \<open>(o, s)\<close>: the \<open>2 ^ o\<close> pages from page \<open>s\<close> on. The theory has
  the two facts about aligned blocks that everything rests on (two of them are nested or
  disjoint; the buddy of a block is its other half-neighbour), the notion of a set of blocks
  that tiles a set of pages, how splitting, merging, adding and removing blocks act on a tiling,
  and why a tiling without two free buddies already holds every aligned block that is wholly
  free. \<open>ORDER_COUNT\<close> and \<open>PAGE_SIZE\<close> are the code's constants.
\<close>

definition ORDER_COUNT :: usize where
  "ORDER_COUNT = 11"

definition PAGE_SIZE :: usize where
  "PAGE_SIZE = 4096"

type_synonym block = "nat \<times> nat"

definition pages_of :: "block \<Rightarrow> nat set" where
  "pages_of b = {snd b ..< snd b + 2 ^ fst b}"

definition buddy_of :: "block \<Rightarrow> block" where
  "buddy_of b = (fst b, snd b XOR 2 ^ fst b)"

definition block_ok :: "nat \<Rightarrow> block \<Rightarrow> bool" where
  "block_ok n b \<longleftrightarrow> fst b < ORDER_COUNT \<and> 2 ^ fst b dvd snd b \<and> snd b + 2 ^ fst b \<le> n"

section \<open>Aligned blocks\<close>

lemma in_pages_of [simp]: "p \<in> pages_of (k, s) \<longleftrightarrow> s \<le> p \<and> p < s + 2 ^ k"
  by (auto simp: pages_of_def)

lemma finite_pages_of [simp]: "finite (pages_of b)"
  by (simp add: pages_of_def)

lemma card_pages_of [simp]: "card (pages_of (k, s)) = 2 ^ k"
  by (simp add: pages_of_def)

lemma pages_of_start: "s \<in> pages_of (k, s)"
  by simp

lemma pages_of_nonempty [simp]: "pages_of b \<noteq> {}"
  by (simp add: pages_of_def)

lemma and_pred_exp: "(x :: nat) AND (2 ^ n - 1) = x mod 2 ^ n"
  by (metis mask_eq_exp_minus_1 take_bit_eq_mask take_bit_eq_mod)

lemma and_pred_exp_0: "(x :: nat) AND (2 ^ n - 1) = 0 \<longleftrightarrow> 2 ^ n dvd x"
  by (simp only: and_pred_exp dvd_eq_mod_eq_0)

lemma pow2_dvd: "j \<le> k \<Longrightarrow> (2 :: nat) ^ j dvd 2 ^ k"
  by (rule le_imp_power_dvd)

text \<open>A page lies in exactly one aligned block of each order.\<close>

lemma aligned_unique:
  assumes "2 ^ k dvd s" "p \<in> pages_of (k, s)"
  shows "s = p div 2 ^ k * 2 ^ k"
proof -
  from assms(1) obtain c where c: "s = 2 ^ k * c" ..
  with assms(2) have "2 ^ k * c \<le> p" "p < 2 ^ k * (c + 1)" by (auto simp: algebra_simps)
  then have "p div 2 ^ k = c"
    by (metis Suc_eq_plus1 div_nat_eqI mult.commute)
  with c show ?thesis by simp
qed

lemma aligned_page: "p \<in> pages_of (k, p div 2 ^ k * 2 ^ k)"
  using mod_less_divisor [of "2 ^ k" p] div_mult_mod_eq [of p "2 ^ k"] by (simp del: mod_less_divisor)

lemma aligned_eq:
  assumes "2 ^ k dvd s" "2 ^ k dvd t" "p \<in> pages_of (k, s)" "p \<in> pages_of (k, t)"
  shows "s = t"
  using aligned_unique assms by metis

text \<open>Two aligned blocks that share a page are nested.\<close>

lemma aligned_nested:
  assumes "2 ^ j dvd s" "2 ^ k dvd t" "j \<le> k"
    and "p \<in> pages_of (j, s)" "p \<in> pages_of (k, t)"
  shows "pages_of (j, s) \<subseteq> pages_of (k, t)"
proof -
  from assms(2) pow2_dvd [OF assms(3)] have "2 ^ j dvd t" by (rule dvd_trans [rotated])
  then obtain c where c: "t = 2 ^ j * c" ..
  from assms(1) obtain a where a: "s = 2 ^ j * a" ..
  obtain m :: nat where m: "2 ^ k = 2 ^ j * m" using pow2_dvd [OF assms(3)] ..
  from assms(4,5) have "2 ^ j * c < 2 ^ j * (a + 1)" "2 ^ j * a < 2 ^ j * (c + m)"
    by (auto simp: a c m algebra_simps)
  then have "c < a + 1" "a < c + m" by (simp_all only: mult_less_cancel1)
  then have *: "c \<le> a" "a + 1 \<le> c + m" by simp_all
  from * have "2 ^ j * c \<le> 2 ^ j * a" "2 ^ j * (a + 1) \<le> 2 ^ j * (c + m)"
    by (simp_all only: mult_le_mono2)
  then have "t \<le> s" "s + 2 ^ j \<le> t + 2 ^ k" by (simp_all add: a c m algebra_simps)
  then show ?thesis by auto
qed

lemma aligned_Suc: "2 ^ k dvd s \<Longrightarrow> \<not> 2 ^ Suc k dvd s \<Longrightarrow> \<exists>c. s = 2 ^ Suc k * c + (2 :: nat) ^ k"
proof -
  assume "2 ^ k dvd s" "\<not> 2 ^ Suc k dvd s"
  moreover from this obtain c where c: "s = 2 ^ k * c" by blast
  ultimately have "odd c" by (auto simp: c)
  then obtain d where "c = 2 * d + 1" by (rule oddE)
  then show ?thesis by (intro exI [of _ d]) (simp add: c algebra_simps)
qed

lemma push_bit_nat: "push_bit k (c :: nat) = 2 ^ k * c"
  by (simp add: push_bit_eq_mult)

lemma xor_exp_even: "2 ^ Suc k dvd (s :: nat) \<Longrightarrow> s XOR 2 ^ k = s + 2 ^ k"
proof -
  assume "2 ^ Suc k dvd s"
  then obtain c where c: "s = 2 ^ k * (2 * c)" by (auto simp: mult.assoc mult.left_commute)
  have "s XOR 2 ^ k = push_bit k (2 * c) XOR push_bit k 1"
    unfolding c push_bit_nat by simp
  also have "\<dots> = push_bit k (2 * c XOR 1)" by (simp only: push_bit_xor)
  also have "2 * c XOR 1 = 2 * c + 1" by (simp add: xor_Suc_0_eq)
  finally show ?thesis by (simp add: push_bit_nat c)
qed

lemma xor_exp_invol: "((s :: nat) XOR 2 ^ k) XOR 2 ^ k = s"
  by (simp add: xor.assoc)

lemma xor_exp_add: "2 ^ Suc k dvd (s :: nat) \<Longrightarrow> (s + 2 ^ k) XOR 2 ^ k = s"
  using xor_exp_invol [of s k] xor_exp_even [of k s] by simp

lemma xor_exp_odd:
  assumes "2 ^ k dvd (s :: nat)" "\<not> 2 ^ Suc k dvd s"
  shows "2 ^ Suc k dvd s - 2 ^ k" "2 ^ k \<le> s" "s XOR 2 ^ k = s - 2 ^ k"
proof -
  from aligned_Suc [OF assms] obtain c where c: "s = 2 ^ Suc k * c + 2 ^ k" ..
  then show *: "2 ^ Suc k dvd s - 2 ^ k" "2 ^ k \<le> s"
    by (simp_all only: diff_add_inverse2 dvd_triv_left le_add2)
  show "s XOR 2 ^ k = s - 2 ^ k" using xor_exp_add [OF *(1)] *(2) by simp
qed

lemma xor_exp_aligned:
  assumes "2 ^ k dvd (s :: nat)"
  shows "2 ^ k dvd s XOR 2 ^ k"
proof (cases "2 ^ Suc k dvd s")
  case True
  then show ?thesis using assms by (simp only: xor_exp_even dvd_add_triv_right_iff)
next
  case False
  from xor_exp_odd [OF assms False] dvd_diff_nat [OF assms dvd_refl] show ?thesis by simp
qed

text \<open>A block and its buddy are the two halves of one aligned block of the next order.\<close>

lemma merge_start:
  assumes "2 ^ k dvd (s :: nat)"
  shows "2 ^ Suc k dvd min s (s XOR 2 ^ k)"
    and "max s (s XOR 2 ^ k) = min s (s XOR 2 ^ k) + 2 ^ k"
proof -
  have "2 ^ Suc k dvd min s (s XOR 2 ^ k) \<and> max s (s XOR 2 ^ k) = min s (s XOR 2 ^ k) + 2 ^ k"
  proof (cases "2 ^ Suc k dvd s")
    case True
    then show ?thesis by (simp only: xor_exp_even) simp
  next
    case False
    with xor_exp_odd [OF assms False] show ?thesis by (simp add: min_absorb2 max_absorb1)
  qed
  then show "2 ^ Suc k dvd min s (s XOR 2 ^ k)"
    and "max s (s XOR 2 ^ k) = min s (s XOR 2 ^ k) + 2 ^ k" by simp_all
qed

lemma pages_halves: "pages_of (Suc k, s) = pages_of (k, s) \<union> pages_of (k, s + 2 ^ k)"
  by (auto simp: pages_of_def)

lemma pages_halves_disjoint: "pages_of (k, s) \<inter> pages_of (k, s + 2 ^ k) = {}"
  by (auto simp: pages_of_def)

lemma min_max_pages: "pages_of (k, min s t) \<union> pages_of (k, max s t) = pages_of (k, s) \<union> pages_of (k, t)"
  "pages_of (k, min s t) \<inter> pages_of (k, max s t) = pages_of (k, s) \<inter> pages_of (k, t)"
  by (cases "s \<le> t"; simp add: min_def max_def Un_commute Int_commute)+

lemma merge_pages:
  assumes "2 ^ k dvd (s :: nat)"
  shows "pages_of (Suc k, min s (s XOR 2 ^ k)) = pages_of (k, s) \<union> pages_of (buddy_of (k, s))"
  using min_max_pages(1) [of k s "s XOR 2 ^ k"] merge_start(2) [OF assms]
  by (simp add: pages_halves buddy_of_def)

lemma buddy_disjoint:
  assumes "2 ^ k dvd (s :: nat)"
  shows "pages_of (k, s) \<inter> pages_of (buddy_of (k, s)) = {}"
  using min_max_pages(2) [of k s "s XOR 2 ^ k"] merge_start(2) [OF assms] pages_halves_disjoint
  by (simp add: buddy_of_def)

section \<open>Tilings\<close>

definition tiling :: "nat \<Rightarrow> block set \<Rightarrow> nat set \<Rightarrow> bool" where
  "tiling n F P \<longleftrightarrow> (\<forall>b\<in>F. block_ok n b)
    \<and> (\<forall>b\<in>F. \<forall>c\<in>F. pages_of b \<inter> pages_of c \<noteq> {} \<longrightarrow> b = c)
    \<and> (\<Union>b\<in>F. pages_of b) = P"

definition maximal :: "block set \<Rightarrow> bool" where
  "maximal F \<longleftrightarrow> (\<forall>b\<in>F. fst b < ORDER_COUNT - 1 \<longrightarrow> buddy_of b \<notin> F)"

definition split_pieces :: "nat \<Rightarrow> nat \<Rightarrow> nat \<Rightarrow> block set" where
  "split_pieces k j s = (\<lambda>i. (i, s + 2 ^ i)) ` {j ..< k}"

lemma tiling_block_ok: "tiling n F P \<Longrightarrow> b \<in> F \<Longrightarrow> block_ok n b"
  by (simp add: tiling_def)

lemma tiling_pages: "tiling n F P \<Longrightarrow> b \<in> F \<Longrightarrow> pages_of b \<subseteq> P"
  by (auto simp: tiling_def)

lemma tiling_eq:
  "tiling n F P \<Longrightarrow> b \<in> F \<Longrightarrow> c \<in> F \<Longrightarrow> p \<in> pages_of b \<Longrightarrow> p \<in> pages_of c \<Longrightarrow> b = c"
  by (auto simp: tiling_def)

lemma tiling_cover: "tiling n F P \<Longrightarrow> p \<in> P \<Longrightarrow> \<exists>b\<in>F. p \<in> pages_of b"
  by (auto simp: tiling_def)

lemma tiling_empty [simp]: "tiling n {} {}"
  by (simp add: tiling_def)

lemma tiling_remove_set:
  assumes "tiling n F P" "B \<subseteq> F"
  shows "tiling n (F - B) (P - (\<Union>b\<in>B. pages_of b))"
proof -
  have "(\<Union>b\<in>F - B. pages_of b) = P - (\<Union>b\<in>B. pages_of b)"
  proof (intro set_eqI iffI)
    fix p assume "p \<in> (\<Union>b\<in>F - B. pages_of b)"
    then obtain c where c: "c \<in> F" "c \<notin> B" "p \<in> pages_of c" by blast
    then have "p \<notin> pages_of b" if "b \<in> B" for b
      using tiling_eq [OF assms(1) c(1) _ c(3)] that assms(2) by blast
    moreover have "p \<in> P" using tiling_pages [OF assms(1) c(1)] c(3) by blast
    ultimately show "p \<in> P - (\<Union>b\<in>B. pages_of b)" by blast
  next
    fix p assume "p \<in> P - (\<Union>b\<in>B. pages_of b)"
    then show "p \<in> (\<Union>b\<in>F - B. pages_of b)" using tiling_cover [OF assms(1)] by blast
  qed
  then show ?thesis using assms(1) by (simp add: tiling_def)
qed

lemma tiling_remove:
  assumes "tiling n F P" "b \<in> F"
  shows "tiling n (F - {b}) (P - pages_of b)"
  using tiling_remove_set [OF assms(1), of "{b}"] assms(2) by simp

lemma tiling_insert:
  assumes "tiling n F P" "block_ok n b" "pages_of b \<inter> P = {}"
  shows "tiling n (insert b F) (P \<union> pages_of b)"
proof -
  have "pages_of b \<inter> pages_of c = {}" if "c \<in> F" for c
    using tiling_pages [OF assms(1) that] assms(3) by blast
  then show ?thesis using assms(1,2) by (simp add: tiling_def Int_commute Un_commute)
qed

lemma finite_tiling:
  assumes "tiling n F P"
  shows "finite F"
proof (rule finite_subset)
  show "F \<subseteq> {..<ORDER_COUNT} \<times> {..n}"
    using tiling_block_ok [OF assms] by (fastforce simp: block_ok_def)
qed simp

lemma tiling_bounded: "tiling n F P \<Longrightarrow> P \<subseteq> {..<n}"
  by (fastforce simp: tiling_def block_ok_def pages_of_def)

lemma tiling_card:
  assumes "tiling n F P"
  shows "card P = (\<Sum>b\<in>F. 2 ^ fst b)"
proof -
  have "card P = card (\<Union>b\<in>F. pages_of b)" using assms by (simp add: tiling_def)
  also have "\<dots> = (\<Sum>b\<in>F. card (pages_of b))"
    by (rule card_UN_disjoint) (use finite_tiling [OF assms] tiling_eq [OF assms] in auto)
  finally show ?thesis by (simp add: pages_of_def)
qed

section \<open>Splitting\<close>

lemma split_pieces_Suc: "j \<le> k \<Longrightarrow> split_pieces (Suc k) j s = insert (k, s + 2 ^ k) (split_pieces k j s)"
  by (auto simp: split_pieces_def less_Suc_eq)

lemma split_pieces_self [simp]: "split_pieces j j s = {}"
  by (simp add: split_pieces_def)

lemma block_ok_halves:
  assumes "block_ok n (Suc k, s)"
  shows "block_ok n (k, s)" "block_ok n (k, s + 2 ^ k)"
proof -
  from assms have "2 ^ k dvd s" by (auto simp: block_ok_def dest: dvd_mult_right)
  with assms show "block_ok n (k, s)" "block_ok n (k, s + 2 ^ k)"
    by (auto simp: block_ok_def)
qed

lemma block_ok_le:
  assumes "j \<le> k" "block_ok n (k, s)"
  shows "block_ok n (j, s)"
  using assms(1,2) by (induction rule: dec_induct) (blast intro: block_ok_halves(1))+

lemma pages_of_mono: "j \<le> k \<Longrightarrow> pages_of (j, s) \<subseteq> pages_of (k, s)"
proof -
  assume "j \<le> k"
  then have "(2 :: nat) ^ j \<le> 2 ^ k" by (simp add: power_increasing)
  then have "s + 2 ^ j \<le> s + 2 ^ k" by (rule add_left_mono)
  then show ?thesis by (auto simp: pages_of_def)
qed

lemma tiling_split_pieces:
  assumes "j \<le> k" "block_ok n (k, s)" "tiling n X Q" "pages_of (k, s) \<inter> Q = {}"
  shows "tiling n (X \<union> split_pieces k j s) (Q \<union> (pages_of (k, s) - pages_of (j, s)))"
  using assms
proof (induction k rule: dec_induct)
  case base
  then show ?case by simp
next
  case (step k)
  let ?c = "(k, s + 2 ^ k)"
  have disj: "pages_of (k, s) \<inter> Q = {}" "pages_of ?c \<inter> Q = {}"
    using step.prems(3) by (auto simp: pages_halves)
  have "tiling n (X \<union> split_pieces k j s) (Q \<union> (pages_of (k, s) - pages_of (j, s)))"
    using step.prems disj by (intro step.IH) (auto intro: block_ok_halves)
  then have "tiling n (insert ?c (X \<union> split_pieces k j s))
      (Q \<union> (pages_of (k, s) - pages_of (j, s)) \<union> pages_of ?c)"
    by (rule tiling_insert)
      (use disj step.prems(1) block_ok_halves(2) pages_halves_disjoint [of k s] in blast)+
  moreover have "Q \<union> (pages_of (k, s) - pages_of (j, s)) \<union> pages_of ?c
      = Q \<union> (pages_of (Suc k, s) - pages_of (j, s))"
    using pages_of_mono [OF step.hyps(1), of s] pages_halves_disjoint [of k s]
    unfolding pages_halves by blast
  ultimately show ?case by (simp add: split_pieces_Suc [OF step.hyps(1)])
qed

lemma tiling_split:
  assumes "tiling n F P" "(k, s) \<in> F" "j \<le> k"
  shows "tiling n (F - {(k, s)} \<union> split_pieces k j s) (P - pages_of (j, s))"
proof -
  have "tiling n (F - {(k, s)} \<union> split_pieces k j s)
      (P - pages_of (k, s) \<union> (pages_of (k, s) - pages_of (j, s)))"
    using assms tiling_block_ok [OF assms(1,2)] tiling_remove [OF assms(1,2)]
    by (intro tiling_split_pieces) auto
  moreover have "P - pages_of (k, s) \<union> (pages_of (k, s) - pages_of (j, s)) = P - pages_of (j, s)"
    using tiling_pages [OF assms(1,2)] pages_of_mono [OF assms(3), of s] by blast
  ultimately show ?thesis by simp
qed

lemma split_piece_buddy:
  assumes "b \<in> split_pieces k j s" "2 ^ k dvd s"
  shows "buddy_of b = (fst b, s)" "fst b < k" "snd b = s + 2 ^ fst b"
proof -
  from assms(1) obtain i where i: "b = (i, s + 2 ^ i)" "j \<le> i" "i < k"
    by (auto simp: split_pieces_def)
  have "2 ^ Suc i dvd s" using i assms(2) pow2_dvd [of "Suc i" k] by (meson Suc_leI dvd_trans)
  then show "buddy_of b = (fst b, s)" "fst b < k" "snd b = s + 2 ^ fst b"
    using i xor_exp_add [of i s] by (auto simp: buddy_of_def)
qed

lemma maximal_split:
  assumes t: "tiling n F P" and m: "maximal F" and b: "(k, s) \<in> F"
  shows "maximal (F - {(k, s)} \<union> split_pieces k j s)"
proof -
  have al: "2 ^ k dvd s" using tiling_block_ok [OF t b] by (simp add: block_ok_def)
  have no: "(i, s) \<notin> F" if "i < k" for i
    using tiling_eq [OF t _ b, of "(i, s)" s] that by auto
  show ?thesis unfolding maximal_def
  proof (intro ballI impI notI)
    fix c assume c: "c \<in> F - {(k, s)} \<union> split_pieces k j s"
      and o: "fst c < ORDER_COUNT - 1"
      and d: "buddy_of c \<in> F - {(k, s)} \<union> split_pieces k j s"
    have inv: "buddy_of (buddy_of c) = c" by (simp add: buddy_of_def xor_exp_invol)
    show False
    proof (cases "c \<in> split_pieces k j s")
      case True
      note * = split_piece_buddy [OF True al]
      from d * no have "(fst c, s) \<in> split_pieces k j s" by (cases c) auto
      then show False using split_piece_buddy(3) [OF _ al] by fastforce
    next
      case False
      with c have cF: "c \<in> F" by simp
      show False
      proof (cases "buddy_of c \<in> split_pieces k j s")
        case True
        note * = split_piece_buddy [OF True al]
        have "fst (buddy_of c) = fst c" by (simp add: buddy_of_def)
        with *(1,2) inv no [of "fst c"] cF show False by simp
      next
        case False
        with d cF o m show False by (auto simp: maximal_def)
      qed
    qed
  qed
qed

section \<open>Merging\<close>

text \<open>
  \<open>merge_chain F b\<close> follows the free buddies upwards from \<open>b\<close>: the buddies it absorbs, and the
  block that results.
\<close>

function merge_chain :: "block set \<Rightarrow> block \<Rightarrow> block list \<times> block" where
  "merge_chain F (k, s) =
    (if k < ORDER_COUNT - 1 \<and> buddy_of (k, s) \<in> F
     then let (bs, f) = merge_chain F (Suc k, min s (s XOR 2 ^ k)) in (buddy_of (k, s) # bs, f)
     else ([], (k, s)))"
  by pat_completeness auto
termination by (relation "measure (\<lambda>(F, b). ORDER_COUNT - fst b)") auto

declare merge_chain.simps [simp del]

lemma fst_buddy_of [simp]: "fst (buddy_of b) = fst b"
  by (simp add: buddy_of_def)

lemma block_ok_merge:
  assumes "block_ok n (k, s)" "block_ok n (buddy_of (k, s))" "k < ORDER_COUNT - 1"
  shows "block_ok n (Suc k, min s (s XOR 2 ^ k))"
proof -
  have al: "2 ^ k dvd s" using assms(1) by (simp add: block_ok_def)
  have "max s (s XOR 2 ^ k) + 2 ^ k \<le> n"
    using assms(1,2) by (auto simp: block_ok_def buddy_of_def max_def)
  then show ?thesis
    using merge_start [OF al] assms(3) by (simp add: block_ok_def)
qed

lemma merge_chain_props:
  assumes "tiling n F P" "block_ok n (k, s)" "merge_chain F (k, s) = (bs, f)"
  shows "set bs \<subseteq> F \<and> block_ok n f \<and> fst f = k + length bs \<and> map fst bs = [k ..< fst f]
    \<and> pages_of f = pages_of (k, s) \<union> (\<Union>b\<in>set bs. pages_of b)
    \<and> (fst f < ORDER_COUNT - 1 \<longrightarrow> buddy_of f \<notin> F)"
  using assms
proof (induction F "(k, s)" arbitrary: k s bs f rule: merge_chain.induct)
  case (1 F k s)
  have al: "2 ^ k dvd s" using 1(3) by (simp add: block_ok_def)
  show ?case
  proof (cases "k < ORDER_COUNT - 1 \<and> buddy_of (k, s) \<in> F")
    case False
    with 1(4) have "bs = []" "f = (k, s)" by (simp_all add: merge_chain.simps [of F k] del: One_nat_def)
    with 1(3) False show ?thesis by auto
  next
    case True
    then obtain cs where cs: "merge_chain F (Suc k, min s (s XOR 2 ^ k)) = (cs, f)"
        "bs = buddy_of (k, s) # cs"
      using 1(4) by (cases "merge_chain F (Suc k, min s (s XOR 2 ^ k))")
        (simp add: merge_chain.simps [of F k] del: One_nat_def)
    have ok: "block_ok n (Suc k, min s (s XOR 2 ^ k))"
      using block_ok_merge 1(3) tiling_block_ok [OF 1(2)] True by blast
    note ih = 1(1) [OF True 1(2) ok cs(1)]
    have "k < fst f" using ih by linarith
    then have "[k ..< fst f] = k # [Suc k ..< fst f]" by (rule upt_conv_Cons)
    then have "map fst bs = [k ..< fst f]" using ih cs(2) by (simp only: list.map fst_buddy_of fst_conv)
    moreover have "pages_of f = pages_of (k, s) \<union> (\<Union>b\<in>set bs. pages_of b)"
      using ih cs(2) merge_pages [OF al] by (simp add: Un_assoc)
    moreover have "set bs \<subseteq> F" "fst f = k + length bs" using ih cs(2) True by simp_all
    ultimately show ?thesis using ih by blast
  qed
qed

lemma merge_chain_disjoint:
  assumes "tiling n F P" "block_ok n (k, s)" "pages_of (k, s) \<inter> P = {}"
    and "merge_chain F (k, s) = (bs, f)"
  shows "tiling n (insert f (F - set bs)) (P \<union> pages_of (k, s))" "f \<notin> F"
proof -
  note props = merge_chain_props [OF assms(1,2,4)]
  have sub: "set bs \<subseteq> F" and pf: "pages_of f = pages_of (k, s) \<union> (\<Union>b\<in>set bs. pages_of b)"
    using props by blast+
  have *: "(\<Union>b\<in>set bs. pages_of b) \<subseteq> P" using sub tiling_pages [OF assms(1)] by blast
  have "tiling n (insert f (F - set bs)) (P - (\<Union>b\<in>set bs. pages_of b) \<union> pages_of f)"
    by (rule tiling_insert [OF tiling_remove_set [OF assms(1) sub]])
      (use props pf assms(3) in blast)+
  moreover have "P - (\<Union>b\<in>set bs. pages_of b) \<union> pages_of f = P \<union> pages_of (k, s)"
    unfolding pf using * by blast
  ultimately show "tiling n (insert f (F - set bs)) (P \<union> pages_of (k, s))" by simp
  show "f \<notin> F"
  proof
    assume "f \<in> F"
    then have "pages_of (k, s) \<subseteq> P" using tiling_pages [OF assms(1), of f] pf by blast
    with assms(3) show False using pages_of_nonempty [of "(k, s)"] by blast
  qed
qed

lemma buddy_invol: "buddy_of (buddy_of b) = b"
  by (simp add: buddy_of_def xor_exp_invol)

lemma maximal_merge:
  assumes "tiling n F P" "block_ok n (k, s)" "maximal F" "merge_chain F (k, s) = (bs, f)"
  shows "maximal (insert f (F - set bs))"
  unfolding maximal_def
proof (intro ballI impI notI)
  fix c assume c: "c \<in> insert f (F - set bs)" "fst c < ORDER_COUNT - 1"
    and d: "buddy_of c \<in> insert f (F - set bs)"
  note props = merge_chain_props [OF assms(1,2,4)]
  have self: "buddy_of b \<noteq> b" for b
  proof
    assume "buddy_of b = b"
    then have "snd b XOR (snd b XOR 2 ^ fst b) = 0" by (simp add: buddy_of_def prod_eq_iff)
    then show False by (simp add: xor.assoc [symmetric])
  qed
  consider "c = f" | "c \<noteq> f" "c \<in> F" using c by blast
  then show False
  proof cases
    case 1
    with props c(2) d self [of f] show False by auto
  next
    case 2
    show False
    proof (cases "buddy_of c = f")
      case True
      then have "buddy_of f = c" using buddy_invol [of c] by simp
      with props 2 c(2) True fst_buddy_of [of c] show False by auto
    next
      case False
      with d 2 c(2) assms(3) show False by (auto simp: maximal_def)
    qed
  qed
qed

section \<open>Maximal tilings\<close>

lemma tiling_nested:
  assumes "tiling n F P" "b \<in> F" "2 ^ k dvd s" "p \<in> pages_of b" "p \<in> pages_of (k, s)"
  shows "fst b \<le> k \<Longrightarrow> pages_of b \<subseteq> pages_of (k, s)"
    and "k \<le> fst b \<Longrightarrow> pages_of (k, s) \<subseteq> pages_of b"
proof -
  obtain j t where b: "b = (j, t)" by (cases b)
  have al: "2 ^ j dvd t" using tiling_block_ok [OF assms(1,2)] b by (simp add: block_ok_def)
  show "fst b \<le> k \<Longrightarrow> pages_of b \<subseteq> pages_of (k, s)"
    using aligned_nested [OF al assms(3) _ assms(4) [unfolded b] assms(5)] b by simp
  show "k \<le> fst b \<Longrightarrow> pages_of (k, s) \<subseteq> pages_of b"
    using aligned_nested [OF assms(3) al _ assms(5) assms(4) [unfolded b]] b by simp
qed

text \<open>
  In a tiling without free buddies an aligned block whose pages are all free lies inside one
  free block: otherwise its smallest free part would have a free buddy.
\<close>

lemma maximal_full:
  assumes t: "tiling n F P" and m: "maximal F" and k: "k < ORDER_COUNT"
    and al: "2 ^ k dvd s" and sub: "pages_of (k, s) \<subseteq> P"
  shows "\<exists>b\<in>F. k \<le> fst b \<and> pages_of (k, s) \<subseteq> pages_of b"
proof (rule ccontr)
  assume no: "\<not> ?thesis"
  have inside: "fst b < k \<and> pages_of b \<subseteq> pages_of (k, s)"
    if "b \<in> F" "p \<in> pages_of b" "p \<in> pages_of (k, s)" for b p
    using tiling_nested [OF t that(1) al that(2,3)] no that(1) by fastforce
  let ?I = "{b \<in> F. pages_of b \<inter> pages_of (k, s) \<noteq> {}}"
  obtain b0 where "b0 \<in> F" "s \<in> pages_of b0" using tiling_cover [OF t] sub pages_of_start by blast
  then have "b0 \<in> ?I" using pages_of_start [of s k] by blast
  then obtain b where b: "b \<in> ?I" "\<And>c. c \<in> ?I \<Longrightarrow> fst b \<le> fst c"
    using ex_has_least_nat [of "\<lambda>b. b \<in> ?I" b0 fst] by blast
  obtain j u where ju: "b = (j, u)" by (cases b)
  have bF: "b \<in> F" using b by simp
  have bal: "2 ^ j dvd u" using tiling_block_ok [OF t bF] ju by (simp add: block_ok_def)
  obtain p where p: "p \<in> pages_of b" "p \<in> pages_of (k, s)" using b(1) by blast
  have jk: "j < k" and bs: "pages_of b \<subseteq> pages_of (k, s)" using inside [OF bF p] ju by simp_all
  let ?v = "u XOR 2 ^ j"
  have val: "2 ^ j dvd ?v" by (rule xor_exp_aligned [OF bal])
  have "pages_of (Suc j, min u ?v) \<subseteq> pages_of (k, s)"
  proof (rule aligned_nested [OF merge_start(1) [OF bal] al])
    show "Suc j \<le> k" using jk by simp
    show "u \<in> pages_of (Suc j, min u ?v)" unfolding merge_pages [OF bal] by simp
    show "u \<in> pages_of (k, s)" using bs ju pages_of_start [of u j] by blast
  qed
  then have vs: "pages_of (j, ?v) \<subseteq> pages_of (k, s)"
    unfolding merge_pages [OF bal] by (simp add: buddy_of_def)
  have vk: "?v \<in> pages_of (k, s)" using vs pages_of_start by blast
  then obtain c where c: "c \<in> F" "?v \<in> pages_of c" using tiling_cover [OF t] sub by blast
  have "c \<in> ?I" using c vk by blast
  then have jc: "j \<le> fst c" using b(2) [of c] ju by simp
  have "c = buddy_of b"
  proof (cases "fst c = j")
    case True
    then have "c = (j, snd c)" by (cases c) simp
    moreover have "2 ^ j dvd snd c" using tiling_block_ok [OF t c(1)] True by (simp add: block_ok_def)
    ultimately have "snd c = ?v" using aligned_eq [OF _ val, of "snd c" ?v] c(2) pages_of_start by simp
    with True ju show ?thesis by (simp add: buddy_of_def prod_eq_iff)
  next
    case False
    with jc have "Suc j \<le> fst c" by simp
    moreover have "?v \<in> pages_of (Suc j, min u ?v)"
      unfolding merge_pages [OF bal] by (simp add: buddy_of_def)
    ultimately have "pages_of (Suc j, min u ?v) \<subseteq> pages_of c"
      by (intro tiling_nested(2) [OF t c(1) merge_start(1) [OF bal] c(2)])
    then have "u \<in> pages_of c" unfolding merge_pages [OF bal] using pages_of_start [of u j] by blast
    then have "c = b" using tiling_eq [OF t c(1) bF] ju pages_of_start [of u j] by simp
    with False ju show ?thesis by simp
  qed
  moreover have "buddy_of b \<notin> F" using m bF jk k ju by (simp add: maximal_def)
  ultimately show False using c(1) by simp
qed

text \<open>A tiling by blocks that could not have been chosen larger has no free buddies.\<close>

lemma maximal_greedy:
  assumes "tiling n F P"
    and "\<And>k s. (k, s) \<in> F \<Longrightarrow> k < ORDER_COUNT - 1 \<Longrightarrow> 2 ^ Suc k dvd s
      \<Longrightarrow> \<not> pages_of (Suc k, s) \<subseteq> P"
  shows "maximal F"
  unfolding maximal_def
proof (intro ballI impI notI)
  fix b assume b: "b \<in> F" "fst b < ORDER_COUNT - 1" "buddy_of b \<in> F"
  obtain k s where ks: "b = (k, s)" by (cases b)
  have al: "2 ^ k dvd s" using tiling_block_ok [OF assms(1) b(1)] ks by (simp add: block_ok_def)
  have *: "pages_of (Suc k, min s (s XOR 2 ^ k)) \<subseteq> P"
    unfolding merge_pages [OF al] using b ks tiling_pages [OF assms(1)] by blast
  have "(k, min s (s XOR 2 ^ k)) \<in> F" using b ks by (auto simp: min_def buddy_of_def)
  then show False using assms(2) [OF _ _ merge_start(1) [OF al]] * b(2) ks by simp
qed

end
