(* ===== verification/BuddyMap.thy ===== *)
theory BuddyMap
  imports BuddyBlocks
begin

text \<open>
  The free-block index of the buddy allocator (\<open>FixedFreeMap\<close> in
  \<open>src/kernel/mm/buddy_allocator.rs\<close>): eleven bitmaps, one per order, in one fixed array of
  64-bit words, with a population count and a search cursor per order. The definitions follow the
  code; \<open>commit_set\<close> returns \<open>None\<close> where the code would panic (an index outside the word array,
  a counter that would wrap). The lemmas show that on a well-formed index (\<open>fm_ok\<close>) the bitmap
  is an exact representation of a set of blocks: \<open>location\<close> finds a bit for every aligned block
  of the region and for nothing else, \<open>commit_set\<close> inserts and removes one block, the
  word-at-a-time search from the cursor finds a block whenever the order has one, and the
  counters are the cardinalities.
\<close>

section \<open>Data\<close>

datatype buddy_init_error = InitEmptyRegion | InitRegionMisaligned | InitAddressOverflow
  | InitMetadataSizeOverflow | InitMetadataAllocationFailed | InitMetadataCorrupt

record free_bit =
  fb_word_index :: usize
  fb_mask :: u64
  fb_order :: usize
  fb_block_idx :: usize

record free_map_layout =
  ly_word_base :: "usize list"
  ly_valid_blocks :: "usize list"
  ly_total_words :: usize

record fixed_free_map =
  fm_words :: "u64 list"
  fm_word_base :: "usize list"
  fm_valid_blocks :: "usize list"
  fm_block_count :: "usize list"
  fm_search_cursor :: "usize list"

definition trailing_zeros :: "u64 \<Rightarrow> nat" where
  "trailing_zeros w = length (takeWhile (\<lambda>i. \<not> bit w i) [0 ..< 64])"

definition count_ones :: "u64 \<Rightarrow> nat" where
  "count_ones w = length (filter (bit w) [0 ..< 64])"

section \<open>Operations\<close>

fun layout_loop :: "usize \<Rightarrow> usize list \<Rightarrow> free_map_layout \<Rightarrow> buddy_init_error + free_map_layout" where
  "layout_loop total_pages [] ly = Ok ly"
| "layout_loop total_pages (order # orders) ly =
    (let block_pages = 2 ^ order;
         blocks = total_pages div block_pages;
         words = blocks div 64 + (if blocks mod 64 \<noteq> 0 then 1 else 0)
     in case checked_add_usize (ly_total_words ly) words of
          None \<Rightarrow> Err InitMetadataSizeOverflow
        | Some t \<Rightarrow> layout_loop total_pages orders
            (ly\<lparr>ly_valid_blocks := (ly_valid_blocks ly)[order := blocks],
                ly_word_base := (ly_word_base ly)[order := ly_total_words ly],
                ly_total_words := t\<rparr>))"

definition free_map_layout_new :: "usize \<Rightarrow> buddy_init_error + free_map_layout" where
  "free_map_layout_new total_pages =
    and_then (layout_loop total_pages [0 ..< ORDER_COUNT]
        \<lparr>ly_word_base = replicate (ORDER_COUNT + 1) 0, ly_valid_blocks = replicate ORDER_COUNT 0,
         ly_total_words = 0\<rparr>)
      (\<lambda>ly. Ok (ly\<lparr>ly_word_base := (ly_word_base ly)[ORDER_COUNT := ly_total_words ly]\<rparr>))"

definition from_storage :: "free_map_layout \<Rightarrow> u64 list \<Rightarrow> buddy_init_error + fixed_free_map" where
  "from_storage layout words =
    (if length words \<noteq> ly_total_words layout \<or> (\<exists>w\<in>set words. w \<noteq> 0)
     then Err InitMetadataCorrupt
     else Ok \<lparr>fm_words = words, fm_word_base = ly_word_base layout,
       fm_valid_blocks = ly_valid_blocks layout, fm_block_count = replicate ORDER_COUNT 0,
       fm_search_cursor = replicate ORDER_COUNT 0\<rparr>)"

definition location :: "fixed_free_map \<Rightarrow> usize \<Rightarrow> usize \<Rightarrow> free_bit option" where
  "location m order block_idx =
    (if order \<ge> ORDER_COUNT then None
     else if block_idx AND (2 ^ order - 1) \<noteq> 0 then None
     else let block_no = drop_bit order block_idx in
       if block_no \<ge> fm_valid_blocks m ! order then None
       else Option.bind (checked_add_usize (fm_word_base m ! order) (block_no div 64)) (\<lambda>word_index.
         if word_index \<ge> fm_word_base m ! (order + 1) \<or> word_index \<ge> length (fm_words m) then None
         else Some \<lparr>fb_word_index = word_index, fb_mask = push_bit (block_no mod 64) 1,
           fb_order = order, fb_block_idx = block_idx\<rparr>))"

definition is_set :: "fixed_free_map \<Rightarrow> free_bit \<Rightarrow> bool" where
  "is_set m b \<longleftrightarrow> fb_word_index b < length (fm_words m)
    \<and> fm_words m ! fb_word_index b AND fb_mask b \<noteq> 0"

definition list_get :: "'a list \<Rightarrow> usize \<Rightarrow> 'a option" where
  "list_get xs i = (if i < length xs then Some (xs ! i) else None)"

definition first_set_in_word ::
    "fixed_free_map \<Rightarrow> usize \<Rightarrow> usize \<Rightarrow> u64 \<Rightarrow> free_bit option" where
  "first_set_in_word m order word_offset search_mask =
    Option.bind (list_get (fm_word_base m) order) (\<lambda>word_start.
    Option.bind (checked_add_usize word_start word_offset) (\<lambda>word_index.
    Option.bind (list_get (fm_word_base m) (order + 1)) (\<lambda>word_end.
    if word_index \<ge> word_end then None else
    Option.bind (list_get (fm_words m) word_index) (\<lambda>word.
    let block_word = word AND search_mask in
    if block_word = 0 then None else
    let bit_in_word = trailing_zeros block_word in
    Option.bind (checked_mul_usize word_offset 64) (\<lambda>first.
    Option.bind (checked_add_usize first bit_in_word) (\<lambda>block_no.
    Option.bind (list_get (fm_valid_blocks m) order) (\<lambda>blocks.
    if block_no \<ge> blocks then None
    else Some \<lparr>fb_word_index = word_index, fb_mask = push_bit bit_in_word 1,
      fb_order = order, fb_block_idx = push_bit order block_no mod 2 ^ 64\<rparr>)))))))"

definition valid_mask :: "usize \<Rightarrow> usize \<Rightarrow> u64" where
  "valid_mask blocks word_offset =
    (let first_block = min (word_offset * 64) usize_max;
         remaining = blocks - first_block
     in if remaining = 0 then 0
        else if remaining \<ge> 64 then - 1
        else push_bit remaining 1 - 1)"

fun scan_words :: "fixed_free_map \<Rightarrow> usize \<Rightarrow> usize \<Rightarrow> usize list \<Rightarrow> free_bit option" where
  "scan_words m order blocks [] = None"
| "scan_words m order blocks (word_offset # offsets) =
    (case first_set_in_word m order word_offset (valid_mask blocks word_offset) of
       Some b \<Rightarrow> Some b
     | None \<Rightarrow> scan_words m order blocks offsets)"

fun or_else :: "'a option \<Rightarrow> 'a option \<Rightarrow> 'a option" where
  "or_else (Some x) r = Some x"
| "or_else None r = r"

text \<open>
  The search proper: the cursor word from the cursor bit on, the later words, the earlier words,
  and last the bits of the cursor word before the cursor.
\<close>

definition cursor_search :: "fixed_free_map \<Rightarrow> usize \<Rightarrow> usize \<Rightarrow> usize \<Rightarrow> usize \<Rightarrow> free_bit option" where
  "cursor_search m order blocks word_count start_block =
    (let start_word = start_block div 64; start_bit = start_block mod 64 in
     or_else (first_set_in_word m order start_word
         (push_bit start_bit (- 1) AND valid_mask blocks start_word))
      (or_else (scan_words m order blocks [start_word + 1 ..< word_count])
      (or_else (scan_words m order blocks [0 ..< start_word])
        (if start_bit \<noteq> 0
         then first_set_in_word m order start_word
           ((push_bit start_bit 1 - 1) AND valid_mask blocks start_word)
         else None))))"

definition find_first :: "fixed_free_map \<Rightarrow> usize \<Rightarrow> free_bit option" where
  "find_first m order =
    Option.bind (list_get (fm_valid_blocks m) order) (\<lambda>blocks.
    Option.bind (list_get (fm_block_count m) order) (\<lambda>population.
    if blocks = 0 \<or> population = 0 then None else
    Option.bind (list_get (fm_word_base m) order) (\<lambda>word_start.
    Option.bind (list_get (fm_word_base m) (order + 1)) (\<lambda>word_end.
    Option.bind (checked_sub_usize word_end word_start) (\<lambda>word_count.
    if word_count = 0 then None else
    cursor_search m order blocks word_count (min (fm_search_cursor m ! order) (blocks - 1)))))))"

definition count_for_order :: "fixed_free_map \<Rightarrow> usize \<Rightarrow> usize option" where
  "count_for_order m order = list_get (fm_block_count m) order"

definition commit_set :: "fixed_free_map \<Rightarrow> free_bit \<Rightarrow> bool \<Rightarrow> fixed_free_map option" where
  "commit_set m b v =
    (let i = fb_word_index b; k = fb_order b; block_no = drop_bit k (fb_block_idx b) in
     if i \<ge> length (fm_words m) \<or> k \<ge> ORDER_COUNT then None
     else if v then
       (if fm_block_count m ! k = usize_max then None
        else let population = fm_block_count m ! k + 1 in
          Some (m\<lparr>fm_words := (fm_words m)[i := fm_words m ! i OR fb_mask b],
            fm_block_count := (fm_block_count m)[k := population],
            fm_search_cursor :=
              (if population = 1 \<or> block_no < fm_search_cursor m ! k
               then (fm_search_cursor m)[k := block_no] else fm_search_cursor m)\<rparr>))
     else
       (if fm_block_count m ! k = 0 then None
        else let blocks = fm_valid_blocks m ! k in
          Some (m\<lparr>fm_words := (fm_words m)[i := fm_words m ! i AND NOT (fb_mask b)],
            fm_block_count := (fm_block_count m)[k := fm_block_count m ! k - 1],
            fm_search_cursor :=
              (if blocks \<noteq> 0 then (fm_search_cursor m)[k := (block_no + 1) mod blocks]
               else fm_search_cursor m)\<rparr>)))"

text \<open>Slicing the word array outside its bounds panics: the outer option.\<close>

definition count_actual :: "fixed_free_map \<Rightarrow> usize \<Rightarrow> usize option option" where
  "count_actual m order =
    (if order \<ge> ORDER_COUNT then Some None
     else let a = fm_word_base m ! order; z = fm_word_base m ! (order + 1) in
       if a \<le> z \<and> z \<le> length (fm_words m)
       then Some (Some (sum_list (map count_ones (take (z - a) (drop a (fm_words m))))))
       else None)"

section \<open>Geometry\<close>

definition blocks_of :: "nat \<Rightarrow> nat \<Rightarrow> nat" where
  "blocks_of n k = n div 2 ^ k"

definition words_of :: "nat \<Rightarrow> nat \<Rightarrow> nat" where
  "words_of n k = blocks_of n k div 64 + (if blocks_of n k mod 64 \<noteq> 0 then 1 else 0)"

definition base_of :: "nat \<Rightarrow> nat \<Rightarrow> nat" where
  "base_of n k = (\<Sum>i<k. words_of n i)"

definition region_limit :: nat where
  "region_limit = 2 ^ 52"

lemma base_of_0 [simp]: "base_of n 0 = 0"
  and base_of_Suc: "base_of n (Suc k) = base_of n k + words_of n k"
  by (simp_all add: base_of_def)

lemma base_of_mono: "j \<le> k \<Longrightarrow> base_of n j \<le> base_of n k"
  unfolding base_of_def by (rule sum_mono2) auto

lemma ceil_words: "i < b div 64 + (if b mod 64 \<noteq> 0 then 1 else 0) \<longleftrightarrow> 64 * i < (b :: nat)"
proof -
  define q r where "q = b div 64" and "r = b mod 64"
  have "b = 64 * q + r" "r < 64" by (simp_all add: q_def r_def)
  then show ?thesis unfolding q_def [symmetric] r_def [symmetric] by auto
qed

lemma words_of_cover: "i < words_of n k \<longleftrightarrow> 64 * i < blocks_of n k"
  unfolding words_of_def by (rule ceil_words)

lemma words_of_block: "b < blocks_of n k \<Longrightarrow> b div 64 < words_of n k"
  by (simp add: words_of_cover)

lemma blocks_of_le: "blocks_of n k \<le> n"
  by (simp add: blocks_of_def)

lemma words_of_le: "words_of n k \<le> n + 1"
proof -
  have "blocks_of n k div 64 \<le> n" using blocks_of_le [of n k] div_le_dividend order_trans by blast
  then show ?thesis by (auto simp: words_of_def)
qed

lemma base_of_le: "base_of n k \<le> k * (n + 1)"
proof (induction k)
  case (Suc k)
  then show ?case using words_of_le [of n k] by (simp add: base_of_Suc)
qed simp

lemma base_of_bounded:
  assumes "n \<le> region_limit" "k \<le> ORDER_COUNT"
  shows "base_of n k \<le> usize_max" "base_of n k + words_of n k \<le> usize_max"
proof -
  have "base_of n k + words_of n k \<le> k * (n + 1) + (n + 1)"
    using base_of_le [of n k] words_of_le [of n k] by (rule add_mono)
  also have "\<dots> = (k + 1) * (n + 1)" by simp
  also have "\<dots> \<le> 12 * (2 ^ 52 + 1)"
    using assms by (intro mult_mono) (auto simp: region_limit_def ORDER_COUNT_def)
  also have "\<dots> \<le> usize_max" by (simp add: usize_max_def)
  finally show "base_of n k + words_of n k \<le> usize_max" .
  then show "base_of n k \<le> usize_max" by simp
qed

text \<open>Word offsets of different orders never meet.\<close>

lemma word_index_less:
  assumes "i < words_of n k" "k < ORDER_COUNT"
  shows "base_of n k + i < base_of n (Suc k)" "base_of n k + i < base_of n ORDER_COUNT"
proof -
  show *: "base_of n k + i < base_of n (Suc k)" using assms by (simp add: base_of_Suc)
  show "base_of n k + i < base_of n ORDER_COUNT"
    using * base_of_mono [of "Suc k" ORDER_COUNT n] assms by simp
qed

lemma word_index_inj:
  assumes "base_of n k + i = base_of n l + j" "i < words_of n k" "j < words_of n l"
  shows "k = l \<and> i = j"
proof (cases k l rule: linorder_cases)
  case less
  then have "base_of n (Suc k) \<le> base_of n l" by (intro base_of_mono) simp
  with assms(1,2) show ?thesis by (simp add: base_of_Suc)
next
  case greater
  then have "base_of n (Suc l) \<le> base_of n k" by (intro base_of_mono) simp
  with assms(1,3) show ?thesis by (simp add: base_of_Suc)
qed (use assms(1) in simp)

definition layout_ok :: "nat \<Rightarrow> free_map_layout \<Rightarrow> bool" where
  "layout_ok n ly \<longleftrightarrow> ly_word_base ly = map (base_of n) [0 ..< ORDER_COUNT + 1]
    \<and> ly_valid_blocks ly = map (blocks_of n) [0 ..< ORDER_COUNT]
    \<and> ly_total_words ly = base_of n ORDER_COUNT"

lemma update_prefix:
  "k < m \<Longrightarrow> (map f [0 ..< k] @ replicate (m - k) x)[k := f k] = map f [0 ..< Suc k] @ replicate (m - Suc k) x"
proof -
  assume "k < m"
  then have "replicate (m - k) x = x # replicate (m - Suc k) x" by (simp flip: Suc_diff_Suc)
  then show ?thesis by (simp add: list_update_append)
qed

lemma layout_loop_step:
  "layout_loop n (k # ks) ly =
    (case checked_add_usize (ly_total_words ly) (words_of n k) of
       None \<Rightarrow> Err InitMetadataSizeOverflow
     | Some t \<Rightarrow> layout_loop n ks
         (ly\<lparr>ly_valid_blocks := (ly_valid_blocks ly)[k := blocks_of n k],
             ly_word_base := (ly_word_base ly)[k := ly_total_words ly], ly_total_words := t\<rparr>))"
  by (simp only: layout_loop.simps Let_def words_of_def blocks_of_def)

lemma layout_loop_eq:
  assumes "n \<le> region_limit" "k \<le> ORDER_COUNT"
  shows "layout_loop n [k ..< ORDER_COUNT]
      \<lparr>ly_word_base = map (base_of n) [0 ..< k] @ replicate (ORDER_COUNT + 1 - k) 0,
       ly_valid_blocks = map (blocks_of n) [0 ..< k] @ replicate (ORDER_COUNT - k) 0,
       ly_total_words = base_of n k\<rparr>
    = Ok \<lparr>ly_word_base = map (base_of n) [0 ..< ORDER_COUNT] @ [0],
       ly_valid_blocks = map (blocks_of n) [0 ..< ORDER_COUNT],
       ly_total_words = base_of n ORDER_COUNT\<rparr>"
  using assms(2)
proof (induction k rule: inc_induct)
  case base
  show ?case by simp
next
  case (step k)
  have "checked_add_usize (base_of n k) (words_of n k) = Some (base_of n (Suc k))"
    using base_of_bounded [OF assms(1), of k] step.hyps by (simp add: checked_add_usize_def base_of_Suc)
  moreover have "k < ORDER_COUNT + 1" using step.hyps by simp
  ultimately show ?case
    unfolding upt_conv_Cons [OF step.hyps(2)] layout_loop_step
    using step.IH
    by (simp only: free_map_layout.simps option.case
        update_prefix [OF step.hyps(2)] update_prefix [of k "ORDER_COUNT + 1"])
qed

lemma layout_new_ok:
  assumes "n \<le> region_limit"
  shows "\<exists>ly. free_map_layout_new n = Ok ly \<and> layout_ok n ly"
proof -
  have *: "map (base_of n) [0 ..< ORDER_COUNT + 1]
      = (map (base_of n) [0 ..< ORDER_COUNT] @ [0])[ORDER_COUNT := base_of n ORDER_COUNT]"
    by (simp add: list_update_append)
  show ?thesis
    using layout_loop_eq [OF assms, of 0] unfolding free_map_layout_new_def layout_ok_def *
    by simp
qed

section \<open>The index as a set of blocks\<close>

definition free_blocks :: "fixed_free_map \<Rightarrow> block set" where
  "free_blocks m = {(k, s). \<exists>b. location m k s = Some b \<and> is_set m b}"

definition the_bit :: "nat \<Rightarrow> block \<Rightarrow> free_bit" where
  "the_bit n b = \<lparr>fb_word_index = base_of n (fst b) + snd b div 2 ^ fst b div 64,
     fb_mask = push_bit (snd b div 2 ^ fst b mod 64) 1, fb_order = fst b, fb_block_idx = snd b\<rparr>"

text \<open>\<open>word_bit n m k i j\<close>: bit \<open>j\<close> of word \<open>i\<close> of the bitmap of order \<open>k\<close>.\<close>

definition word_bit :: "nat \<Rightarrow> fixed_free_map \<Rightarrow> nat \<Rightarrow> nat \<Rightarrow> nat \<Rightarrow> bool" where
  "word_bit n m k i j \<longleftrightarrow> bit (fm_words m ! (base_of n k + i)) j"

definition fm_shape :: "nat \<Rightarrow> fixed_free_map \<Rightarrow> bool" where
  "fm_shape n m \<longleftrightarrow> n \<le> region_limit
    \<and> fm_word_base m = map (base_of n) [0 ..< ORDER_COUNT + 1]
    \<and> fm_valid_blocks m = map (blocks_of n) [0 ..< ORDER_COUNT]
    \<and> length (fm_words m) = base_of n ORDER_COUNT
    \<and> length (fm_block_count m) = ORDER_COUNT \<and> length (fm_search_cursor m) = ORDER_COUNT"

definition fm_ok :: "nat \<Rightarrow> fixed_free_map \<Rightarrow> bool" where
  "fm_ok n m \<longleftrightarrow> fm_shape n m
    \<and> (\<forall>k<ORDER_COUNT. \<forall>i<words_of n k. \<forall>j<64. word_bit n m k i j \<longrightarrow> 64 * i + j < blocks_of n k)
    \<and> (\<forall>k<ORDER_COUNT. fm_block_count m ! k = card {s. (k, s) \<in> free_blocks m})"

lemma block_ok_no:
  assumes "block_ok n (k, s)"
  shows "s div 2 ^ k < blocks_of n k" "s div 2 ^ k * 2 ^ k = s"
proof -
  from assms have "2 ^ k dvd s" "s + 2 ^ k \<le> n" by (simp_all add: block_ok_def)
  then show "s div 2 ^ k * 2 ^ k = s" by simp
  have "(s + 2 ^ k) div 2 ^ k \<le> n div 2 ^ k" using \<open>s + 2 ^ k \<le> n\<close> by (rule div_le_mono)
  moreover have "(s + 2 ^ k) div 2 ^ k = s div 2 ^ k + 1" by (rule div_add_self2) simp
  ultimately show "s div 2 ^ k < blocks_of n k" unfolding blocks_of_def by linarith
qed

lemma block_no_ok:
  assumes "k < ORDER_COUNT" "b < blocks_of n k"
  shows "block_ok n (k, b * 2 ^ k)"
proof -
  have "(b + 1) * 2 ^ k \<le> n div 2 ^ k * 2 ^ k"
    using assms(2) by (intro mult_le_mono1) (simp add: blocks_of_def)
  also have "\<dots> \<le> n" by simp
  finally show ?thesis using assms(1) by (simp add: block_ok_def algebra_simps)
qed

lemma block_ok_iff:
  "block_ok n (k, s) \<longleftrightarrow> k < ORDER_COUNT \<and> 2 ^ k dvd s \<and> s div 2 ^ k < blocks_of n k"
  using block_ok_no(1) [of n k s] block_no_ok [of k "s div 2 ^ k" n]
  by (auto simp: block_ok_def [of n "(k, s)"])

lemma fm_shape_nth:
  assumes "fm_shape n m"
  shows "k \<le> ORDER_COUNT \<Longrightarrow> fm_word_base m ! k = base_of n k"
    and "k < ORDER_COUNT \<Longrightarrow> fm_valid_blocks m ! k = blocks_of n k"
    and "length (fm_words m) = base_of n ORDER_COUNT"
    and "length (fm_word_base m) = ORDER_COUNT + 1" "length (fm_valid_blocks m) = ORDER_COUNT"
    and "length (fm_block_count m) = ORDER_COUNT" "length (fm_search_cursor m) = ORDER_COUNT"
  using assms by (simp_all add: fm_shape_def nth_append del: upt_Suc)

lemma location_eq:
  assumes sh: "fm_shape n m"
  shows "location m k s = (if block_ok n (k, s) then Some (the_bit n (k, s)) else None)"
proof (cases "block_ok n (k, s)")
  case False
  then show ?thesis
    using fm_shape_nth(2) [OF sh, of k]
    by (auto simp: location_def block_ok_iff and_pred_exp_0 drop_bit_eq_div Let_def simp del: One_nat_def)
next
  case True
  then have k: "k < ORDER_COUNT" and al: "2 ^ k dvd s" and b: "s div 2 ^ k < blocks_of n k"
    by (simp_all add: block_ok_iff)
  note i = words_of_block [OF b]
  have "checked_add_usize (base_of n k) (s div 2 ^ k div 64) = Some (base_of n k + s div 2 ^ k div 64)"
    using base_of_bounded(2) [of n k] sh k i by (simp add: fm_shape_def checked_add_usize_def)
  with True k al b word_index_less [OF i k] show ?thesis
    using fm_shape_nth [OF sh]
    by (simp add: location_def and_pred_exp_0 drop_bit_eq_div Let_def the_bit_def not_le Suc_eq_plus1
        del: One_nat_def)
qed

lemma and_bit_mask: "(w :: u64) AND push_bit j 1 \<noteq> 0 \<longleftrightarrow> j < 64 \<and> bit w j"
proof -
  have "w AND push_bit j 1 = push_bit j (of_bool (bit w j))"
    by (rule bit_word_eqI) (auto simp: bit_simps)
  then show ?thesis by (auto simp: bit_imp_le_length dest: bit_imp_le_length)
qed

lemma is_set_the_bit:
  assumes "fm_shape n m" "block_ok n (k, s)"
  shows "is_set m (the_bit n (k, s)) \<longleftrightarrow> word_bit n m k (s div 2 ^ k div 64) (s div 2 ^ k mod 64)"
proof -
  from assms(2) have k: "k < ORDER_COUNT" and b: "s div 2 ^ k < blocks_of n k"
    by (simp_all add: block_ok_iff)
  show ?thesis
    using word_index_less(2) [OF words_of_block [OF b] k] fm_shape_nth(3) [OF assms(1)]
    by (simp add: is_set_def the_bit_def word_bit_def and_bit_mask del: push_bit_of_1)
qed

lemma free_blocks_iff:
  assumes "fm_shape n m"
  shows "(k, s) \<in> free_blocks m \<longleftrightarrow> block_ok n (k, s)
    \<and> word_bit n m k (s div 2 ^ k div 64) (s div 2 ^ k mod 64)"
  using is_set_the_bit [OF assms] by (auto simp: free_blocks_def location_eq [OF assms])

lemma is_set_free:
  "fm_shape n m \<Longrightarrow> block_ok n b \<Longrightarrow> is_set m (the_bit n b) \<longleftrightarrow> b \<in> free_blocks m"
  by (cases b) (simp add: is_set_the_bit free_blocks_iff)

lemma free_blocks_ok: "fm_shape n m \<Longrightarrow> b \<in> free_blocks m \<Longrightarrow> block_ok n b"
  by (cases b) (simp add: free_blocks_iff)

lemma finite_order_blocks: "fm_shape n m \<Longrightarrow> finite {s. (k, s) \<in> free_blocks m}"
  by (rule finite_subset [of _ "{..n}"]) (auto dest!: free_blocks_ok simp: block_ok_def)

section \<open>Committing a bit\<close>

lemma word_bit_update:
  assumes "fm_shape n m" "k < ORDER_COUNT" "i < words_of n k" "k' < ORDER_COUNT" "i' < words_of n k'"
    and "fm_words m' = (fm_words m)[base_of n k + i := w]"
  shows "word_bit n m' k' i' j = (if k' = k \<and> i' = i then bit w j else word_bit n m k' i' j)"
  using word_index_inj [OF _ assms(3,5)] word_index_less(2) [OF assms(3,2)]
  by (auto simp: word_bit_def assms(6) nth_list_update fm_shape_nth(3) [OF assms(1)])

lemma block_coords_inj:
  assumes "block_ok n (k, s)" "block_ok n (k, t)"
    and "s div 2 ^ k div 64 = t div 2 ^ k div 64" "s div 2 ^ k mod 64 = t div 2 ^ k mod 64"
  shows "s = t"
proof -
  have "s div 2 ^ k = t div 2 ^ k" using assms(3,4) by (metis div_mult_mod_eq)
  then show ?thesis using block_ok_no(2) assms(1,2) by metis
qed

text \<open>What a change of one bit does to the set of blocks.\<close>

definition bit_changed :: "nat \<Rightarrow> fixed_free_map \<Rightarrow> block \<Rightarrow> bool \<Rightarrow> fixed_free_map \<Rightarrow> bool" where
  "bit_changed n m b v m' \<longleftrightarrow> fm_shape n m' \<and> (\<forall>k<ORDER_COUNT. \<forall>i<words_of n k. \<forall>j<64.
    word_bit n m' k i j = (if k = fst b \<and> i = snd b div 2 ^ fst b div 64 \<and> j = snd b div 2 ^ fst b mod 64
      then v else word_bit n m k i j))"

lemma bit_changed_blocks:
  assumes "fm_shape n m" "block_ok n b" "bit_changed n m b v m'"
  shows "free_blocks m' = (if v then insert b (free_blocks m) else free_blocks m - {b})"
proof -
  have sh: "fm_shape n m'" using assms(3) by (simp add: bit_changed_def)
  have *: "c \<in> free_blocks m' \<longleftrightarrow> (if c = b then v else c \<in> free_blocks m)" for c
  proof (cases "block_ok n c")
    case False
    then show ?thesis using free_blocks_ok sh assms(1,2) by metis
  next
    case True
    obtain k t where c: "c = (k, t)" by (cases c)
    have k: "k < ORDER_COUNT" and q: "t div 2 ^ k div 64 < words_of n k"
      using True words_of_block by (auto simp: c block_ok_iff)
    have "word_bit n m' k (t div 2 ^ k div 64) (t div 2 ^ k mod 64)
        = (if c = b then v else word_bit n m k (t div 2 ^ k div 64) (t div 2 ^ k mod 64))"
      using assms(3) k q block_coords_inj [of n k t "snd b"] True assms(2)
      unfolding bit_changed_def c by (cases b) auto
    with True show ?thesis by (simp add: c free_blocks_iff [OF sh] free_blocks_iff [OF assms(1)])
  qed
  show ?thesis
  proof (rule set_eqI)
    fix c show "c \<in> free_blocks m' \<longleftrightarrow> c \<in> (if v then insert b (free_blocks m) else free_blocks m - {b})"
      unfolding * by (cases v; cases "c = b") simp_all
  qed
qed

lemma bit_changed_ok:
  assumes ok: "fm_ok n m" and b: "block_ok n b" and ch: "bit_changed n m b v m'"
    and fresh: "(b \<in> free_blocks m) = (\<not> v)"
    and cnt: "fm_block_count m' = (fm_block_count m)[fst b :=
      (if v then fm_block_count m ! fst b + 1 else fm_block_count m ! fst b - 1)]"
  shows "fm_ok n m'"
proof -
  have sh: "fm_shape n m" "fm_shape n m'" using ok ch by (simp_all add: fm_ok_def bit_changed_def)
  obtain k s where ks: "b = (k, s)" by (cases b)
  have k: "k < ORDER_COUNT" and q: "s div 2 ^ k < blocks_of n k" using b by (auto simp: ks block_ok_iff)
  have "64 * i + j < blocks_of n l"
    if "l < ORDER_COUNT" "i < words_of n l" "j < 64" "word_bit n m' l i j" for l i j
  proof (cases "l = k \<and> i = s div 2 ^ k div 64 \<and> j = s div 2 ^ k mod 64")
    case True
    then show ?thesis using q by simp
  next
    case False
    then have "word_bit n m l i j" using ch that by (auto simp: bit_changed_def ks)
    then show ?thesis using ok that by (auto simp: fm_ok_def)
  qed
  moreover have "fm_block_count m' ! l = card {t. (l, t) \<in> free_blocks m'}" if l: "l < ORDER_COUNT" for l
  proof -
    have eq: "{t. (l, t) \<in> free_blocks m'} = (if l \<noteq> k then {t. (l, t) \<in> free_blocks m}
        else if v then insert s {t. (l, t) \<in> free_blocks m} else {t. (l, t) \<in> free_blocks m} - {s})"
      by (auto simp: bit_changed_blocks [OF sh(1) b ch] ks)
    have "fm_block_count m ! l = card {t. (l, t) \<in> free_blocks m}" using ok l by (simp add: fm_ok_def)
    then show ?thesis
      using fresh finite_order_blocks [OF sh(1), of l] fm_shape_nth(6) [OF sh(1)] k
      by (auto simp: eq cnt ks nth_list_update)
  qed
  ultimately show ?thesis using sh(2) by (simp add: fm_ok_def)
qed

lemma block_count_bound:
  assumes "fm_ok n m" "k < ORDER_COUNT"
  shows "fm_block_count m ! k < usize_max"
proof -
  have sh: "fm_shape n m" using assms(1) by (simp add: fm_ok_def)
  have "{s. (k, s) \<in> free_blocks m} \<subseteq> {..<n}"
  proof
    fix s assume "s \<in> {s. (k, s) \<in> free_blocks m}"
    then have "s + 2 ^ k \<le> n" using free_blocks_ok [OF sh, of "(k, s)"] by (simp add: block_ok_def)
    moreover have "0 < (2 :: nat) ^ k" by simp
    ultimately have "s < n" by linarith
    then show "s \<in> {..<n}" by simp
  qed
  then have "card {s. (k, s) \<in> free_blocks m} \<le> n" using card_mono [of "{..<n}"] by fastforce
  then have "fm_block_count m ! k \<le> n" using assms by (simp add: fm_ok_def)
  also have "n < usize_max" using sh by (simp add: fm_shape_def region_limit_def usize_max_def)
  finally show ?thesis .
qed

lemma commit_set_fields:
  assumes "commit_set m b v = Some m'"
  shows "fm_words m' = (fm_words m)[fb_word_index b :=
      (if v then fm_words m ! fb_word_index b OR fb_mask b
       else fm_words m ! fb_word_index b AND NOT (fb_mask b))]"
    and "fm_block_count m' = (fm_block_count m)[fb_order b :=
      (if v then fm_block_count m ! fb_order b + 1 else fm_block_count m ! fb_order b - 1)]"
    and "fm_word_base m' = fm_word_base m" "fm_valid_blocks m' = fm_valid_blocks m"
    and "length (fm_search_cursor m') = length (fm_search_cursor m)"
  using assms by (cases v; auto simp: commit_set_def Let_def split: if_splits)+

lemma commit_set_Some:
  assumes "fb_word_index b < length (fm_words m)" "fb_order b < ORDER_COUNT"
    and "fm_block_count m ! fb_order b < usize_max" "\<not> v \<Longrightarrow> fm_block_count m ! fb_order b \<noteq> 0"
  shows "\<exists>m'. commit_set m b v = Some m'"
  using assms by (cases v) (simp_all add: commit_set_def Let_def)

lemma commit_set_bit:
  assumes ok: "fm_ok n m" and b: "block_ok n b" and fresh: "(b \<in> free_blocks m) = (\<not> v)"
  shows "\<exists>m'. commit_set m (the_bit n b) v = Some m' \<and> bit_changed n m b v m'
    \<and> fm_block_count m' = (fm_block_count m)[fst b :=
      (if v then fm_block_count m ! fst b + 1 else fm_block_count m ! fst b - 1)]"
proof -
  have sh: "fm_shape n m" using ok by (simp add: fm_ok_def)
  obtain k s where ks: "b = (k, s)" by (cases b)
  have k: "k < ORDER_COUNT" and q: "s div 2 ^ k < blocks_of n k" using b by (auto simp: ks block_ok_iff)
  define i where "i = s div 2 ^ k div 64"
  define j where "j = s div 2 ^ k mod 64"
  have i: "i < words_of n k" and j: "j < 64" using words_of_block [OF q] by (simp_all add: i_def j_def)
  have "fm_block_count m ! k \<noteq> 0" if "\<not> v"
  proof -
    have "s \<in> {s. (k, s) \<in> free_blocks m}" using fresh that ks by simp
    then show ?thesis using ok k finite_order_blocks [OF sh, of k]
      by (metis (no_types, lifting) card_0_eq empty_iff fm_ok_def)
  qed
  then obtain m' where c: "commit_set m (the_bit n b) v = Some m'"
    using commit_set_Some [of "the_bit n b" m v] block_count_bound [OF ok k]
      word_index_less(2) [OF i k] fm_shape_nth(3) [OF sh] k
    by (auto simp: the_bit_def ks i_def)
  note m' = commit_set_fields [OF c]
  have w: "fm_words m' = (fm_words m)[base_of n k + i :=
      (if v then fm_words m ! (base_of n k + i) OR push_bit j 1
       else fm_words m ! (base_of n k + i) AND NOT (push_bit j 1))]"
    using m'(1) by (simp add: the_bit_def ks i_def j_def del: push_bit_of_1)
  have "fm_shape n m'" using sh m' by (simp add: fm_shape_def)
  moreover have "word_bit n m' l x y = (if l = k \<and> x = i \<and> y = j then v else word_bit n m l x y)"
    if "l < ORDER_COUNT" "x < words_of n l" "y < 64" for l x y
    using word_bit_update [OF sh k i that(1,2) w] that j
    by (auto simp: word_bit_def bit_simps simp del: push_bit_of_1)
  ultimately have "bit_changed n m b v m'" by (simp add: bit_changed_def ks i_def j_def)
  then show ?thesis using c m'(2) ks by (simp add: the_bit_def)
qed

lemma commit_set_ok:
  assumes "fm_ok n m" "block_ok n b" "(b \<in> free_blocks m) = (\<not> v)"
  shows "runs (commit_set m (the_bit n b) v) (\<lambda>m'. fm_ok n m'
    \<and> free_blocks m' = (if v then insert b (free_blocks m) else free_blocks m - {b}))"
proof -
  have sh: "fm_shape n m" using assms(1) by (simp add: fm_ok_def)
  obtain m' where m': "commit_set m (the_bit n b) v = Some m'" "bit_changed n m b v m'"
      "fm_block_count m' = (fm_block_count m)[fst b :=
        (if v then fm_block_count m ! fst b + 1 else fm_block_count m ! fst b - 1)]"
    using commit_set_bit [OF assms] by blast
  show ?thesis
    using bit_changed_ok [OF assms(1,2) m'(2) assms(3) m'(3)] bit_changed_blocks [OF sh assms(2) m'(2)] m'(1)
    by simp
qed

section \<open>Searching\<close>

lemma trailing_zeros_props:
  assumes "w \<noteq> 0"
  shows "trailing_zeros w < 64" "bit w (trailing_zeros w)"
proof -
  obtain i where i: "i < 64" "bit w i"
    using assms bit_word_eqI [of w 0] by auto
  show len: "trailing_zeros w < 64"
  proof (rule ccontr)
    assume "\<not> trailing_zeros w < 64"
    moreover have "trailing_zeros w \<le> 64"
      unfolding trailing_zeros_def using length_takeWhile_le [of _ "[0 ..< 64]"] by fastforce
    ultimately have "takeWhile (\<lambda>i. \<not> bit w i) [0 ..< 64] = [0 ..< 64]"
      unfolding trailing_zeros_def
      by (metis diff_zero length_upt le_antisym not_less takeWhile_eq_take take_all)
    then show False using i by (simp add: takeWhile_eq_all_conv)
  qed
  then show "bit w (trailing_zeros w)"
    unfolding trailing_zeros_def using nth_length_takeWhile [of "\<lambda>i. \<not> bit w i" "[0 ..< 64]"] by simp
qed

lemma word_and_zero_bits: "(w :: u64) AND u = 0 \<longleftrightarrow> (\<forall>j<64. \<not> (bit w j \<and> bit u j))"
proof
  assume "w AND u = 0"
  then show "\<forall>j<64. \<not> (bit w j \<and> bit u j)" by (metis bit_and_iff bit_0_eq bot_apply bot_bool_def)
qed (auto intro!: bit_word_eqI simp: bit_simps)

lemma first_set_in_word_eq:
  assumes ok: "fm_ok n m" and k: "k < ORDER_COUNT" and i: "i < words_of n k"
  shows "case first_set_in_word m k i u of
      None \<Rightarrow> \<forall>j<64. \<not> (word_bit n m k i j \<and> bit u j)
    | Some b \<Rightarrow> \<exists>s. b = the_bit n (k, s) \<and> (k, s) \<in> free_blocks m"
proof -
  have sh: "fm_shape n m" using ok by (simp add: fm_ok_def)
  note nth = fm_shape_nth [OF sh]
  let ?w = "fm_words m ! (base_of n k + i)"
  have wi: "checked_add_usize (base_of n k) i = Some (base_of n k + i)"
    using base_of_bounded(2) [of n k] sh k i by (simp add: fm_shape_def checked_add_usize_def)
  note less = word_index_less [OF i k]
  have get: "list_get (fm_word_base m) k = Some (base_of n k)"
    "list_get (fm_word_base m) (Suc k) = Some (base_of n (Suc k))"
    "list_get (fm_words m) (base_of n k + i) = Some ?w"
    "list_get (fm_valid_blocks m) k = Some (blocks_of n k)"
    using nth k less by (simp_all add: list_get_def)
  show ?thesis
  proof (cases "?w AND u = 0")
    case True
    then show ?thesis using wi get less
      by (simp add: first_set_in_word_def Let_def word_bit_def word_and_zero_bits)
  next
    case False
    define j where "j = trailing_zeros (?w AND u)"
    have j: "j < 64" "bit ?w j" using trailing_zeros_props [OF False] by (simp_all add: j_def bit_and_iff)
    define q where "q = i * 64 + j"
    have q: "q < blocks_of n k" using ok k i j by (auto simp: fm_ok_def word_bit_def q_def mult.commute)
    have n: "n \<le> region_limit" using sh by (simp add: fm_shape_def)
    have qn: "q \<le> usize_max" "i * 64 \<le> usize_max"
      using q blocks_of_le [of n k] n by (auto simp: q_def region_limit_def usize_max_def)
    have ok2: "block_ok n (k, q * 2 ^ k)" by (rule block_no_ok [OF k q])
    have "q * 2 ^ k \<le> n" using ok2 by (simp add: block_ok_def)
    then have "push_bit k q mod 2 ^ 64 = q * 2 ^ k"
      using n by (simp add: push_bit_eq_mult region_limit_def)
    moreover have "q div 64 = i" "q mod 64 = j" using j by (simp_all add: q_def)
    ultimately have "first_set_in_word m k i u = Some (the_bit n (k, q * 2 ^ k))"
      using wi get less False qn q
      by (simp add: first_set_in_word_def Let_def checked_mul_usize_def checked_add_usize_def
          the_bit_def not_le flip: j_def q_def)
    moreover have "(k, q * 2 ^ k) \<in> free_blocks m"
      using ok2 j by (simp add: free_blocks_iff [OF sh] word_bit_def q_def)
    ultimately show ?thesis by auto
  qed
qed

lemma valid_mask_bit:
  assumes "i * 64 \<le> usize_max" "j < 64"
  shows "bit (valid_mask blocks i) j \<longleftrightarrow> i * 64 + j < blocks"
proof -
  have low: "bit (push_bit r 1 - 1 :: u64) j \<longleftrightarrow> j < r" if "r < 64" for r
  proof -
    have "(push_bit r 1 - 1 :: u64) = mask r" by (simp add: mask_eq_exp_minus_1 del: push_bit_of_1 flip: push_bit_of_1)
    then show ?thesis using assms(2) by (simp add: bit_mask_iff)
  qed
  consider "blocks \<le> i * 64" | "i * 64 < blocks" "64 \<le> blocks - i * 64"
    | "i * 64 < blocks" "blocks - i * 64 < 64" by linarith
  then show ?thesis
  proof cases
    case 3
    then show ?thesis using assms low [of "blocks - i * 64"]
      by (auto simp: valid_mask_def Let_def min_absorb1 simp del: push_bit_of_1)
  qed (use assms in \<open>auto simp: valid_mask_def Let_def min_absorb1\<close>)
qed

lemma or_else_Some: "or_else x y = Some z \<longleftrightarrow> x = Some z \<or> (x = None \<and> y = Some z)"
  by (cases x) auto

lemma or_else_None: "or_else x y = None \<longleftrightarrow> x = None \<and> y = None"
  by (cases x) auto

lemma fm_ok_shape: "fm_ok n m \<Longrightarrow> fm_shape n m"
  by (simp add: fm_ok_def)

lemma first_set_in_word_Some:
  assumes "fm_ok n m" "k < ORDER_COUNT" "i < words_of n k" "first_set_in_word m k i u = Some b"
  shows "\<exists>s. b = the_bit n (k, s) \<and> (k, s) \<in> free_blocks m"
  using first_set_in_word_eq [OF assms(1-3), of u] assms(4) by simp

lemma first_set_in_word_None:
  assumes "fm_ok n m" "k < ORDER_COUNT" "i < words_of n k" "first_set_in_word m k i u = None"
    and "word_bit n m k i j" "bit u j" "j < 64"
  shows False
  using first_set_in_word_eq [OF assms(1-3), of u] assms(4-7) by auto

lemma words_of_usize:
  assumes "n \<le> region_limit" "i < words_of n k"
  shows "i * 64 \<le> usize_max"
  using assms blocks_of_le [of n k] by (simp add: words_of_cover region_limit_def usize_max_def)

lemma scan_words_Some:
  assumes "fm_ok n m" "k < ORDER_COUNT" "scan_words m k (blocks_of n k) is = Some b"
    and "\<And>i. i \<in> set is \<Longrightarrow> i < words_of n k"
  shows "\<exists>s. b = the_bit n (k, s) \<and> (k, s) \<in> free_blocks m"
  using assms(3,4)
  by (induction "is") (auto split: option.splits intro: first_set_in_word_Some [OF assms(1,2)])

lemma scan_words_None:
  assumes "fm_ok n m" "k < ORDER_COUNT" "scan_words m k (blocks_of n k) is = None"
    and "i \<in> set is" "i < words_of n k" "j < 64" "i * 64 + j < blocks_of n k"
  shows "\<not> word_bit n m k i j"
proof
  assume bit: "word_bit n m k i j"
  have n: "n \<le> region_limit" using fm_ok_shape [OF assms(1)] by (simp add: fm_shape_def)
  have "first_set_in_word m k i (valid_mask (blocks_of n k) i) = None"
    using assms(3,4) by (induction "is") (auto split: option.splits)
  then show False
    using first_set_in_word_None [OF assms(1,2,5) _ bit] valid_mask_bit [OF words_of_usize [OF n assms(5)] assms(6)]
      assms(6,7) by blast
qed

lemma find_first_eq:
  assumes ok: "fm_ok n m" and k: "k < ORDER_COUNT"
  shows "find_first m k = (if fm_block_count m ! k = 0 then None
    else cursor_search m k (blocks_of n k) (words_of n k) (min (fm_search_cursor m ! k) (blocks_of n k - 1)))"
    and "fm_block_count m ! k \<noteq> 0 \<Longrightarrow> 0 < blocks_of n k"
proof -
  have sh: "fm_shape n m" using ok by (rule fm_ok_shape)
  note nth = fm_shape_nth [OF sh]
  show pos: "0 < blocks_of n k" if "fm_block_count m ! k \<noteq> 0"
  proof -
    from that have "{s. (k, s) \<in> free_blocks m} \<noteq> {}" using ok k by (metis card.empty fm_ok_def)
    then obtain s where "(k, s) \<in> free_blocks m" by blast
    then have "block_ok n (k, s)" by (rule free_blocks_ok [OF sh])
    then show ?thesis using block_ok_no(1) [of n k s] by simp
  qed
  have "0 < words_of n k" if "0 < blocks_of n k" using that by (simp add: words_of_cover)
  then show "find_first m k = (if fm_block_count m ! k = 0 then None
    else cursor_search m k (blocks_of n k) (words_of n k) (min (fm_search_cursor m ! k) (blocks_of n k - 1)))"
    using nth k pos
    by (cases "fm_block_count m ! k = 0")
      (simp_all add: find_first_def list_get_def checked_sub_usize_def base_of_Suc)
qed

lemma cursor_search_Some:
  assumes "fm_ok n m" "k < ORDER_COUNT" "start < blocks_of n k"
    and "cursor_search m k (blocks_of n k) (words_of n k) start = Some b"
  shows "\<exists>s. b = the_bit n (k, s) \<and> (k, s) \<in> free_blocks m"
proof -
  have w: "start div 64 < words_of n k" using words_of_block [OF assms(3)] .
  note scan = scan_words_Some [OF assms(1,2)]
  have late: "i < words_of n k" if "i \<in> set [start div 64 + 1 ..< words_of n k]" for i using that by simp
  have early: "i < words_of n k" if "i \<in> set [0 ..< start div 64]" for i using that w by simp
  have last: "x = Some b" if "(if c then x else None) = Some b" for c x
    using that by (cases c) simp_all
  show ?thesis
    using assms(4) first_set_in_word_Some [OF assms(1,2) w] scan [OF _ late] scan [OF _ early] last
    unfolding cursor_search_def Let_def or_else_Some by blast
qed

lemma cursor_search_finds:
  assumes ok: "fm_ok n m" and k: "k < ORDER_COUNT" and start: "start < blocks_of n k"
    and free: "(k, s) \<in> free_blocks m"
  shows "cursor_search m k (blocks_of n k) (words_of n k) start \<noteq> None"
proof
  assume none: "cursor_search m k (blocks_of n k) (words_of n k) start = None"
  have sh: "fm_shape n m" using ok by (rule fm_ok_shape)
  have n: "n \<le> region_limit" using sh by (simp add: fm_shape_def)
  define b where "b = s div 2 ^ k"
  have b: "b < blocks_of n k" "word_bit n m k (b div 64) (b mod 64)"
    using free block_ok_no(1) by (auto simp: free_blocks_iff [OF sh] b_def)
  have w: "b div 64 < words_of n k" "start div 64 < words_of n k"
    using words_of_block b(1) start by blast+
  have vm: "bit (valid_mask (blocks_of n k) (b div 64)) (b mod 64)"
    using valid_mask_bit [OF words_of_usize [OF n w(1)], of "b mod 64"] b(1) by simp
  note parts = none [unfolded cursor_search_def Let_def or_else_None]
  consider "b div 64 = start div 64" | "start div 64 < b div 64" | "b div 64 < start div 64" by linarith
  then show False
  proof cases
    case 1
    show False
    proof (cases "start mod 64 \<le> b mod 64")
      case True
      then have "bit (push_bit (start mod 64) (- 1) AND valid_mask (blocks_of n k) (start div 64) :: u64) (b mod 64)"
        using vm 1 by (simp add: bit_simps)
      then show False
        using first_set_in_word_None [OF ok k w(2) conjunct1 [OF parts] _ _, of "b mod 64"] b(2)
        unfolding 1 by simp
    next
      case False
      then have "bit ((push_bit (start mod 64) 1 - 1) AND valid_mask (blocks_of n k) (start div 64) :: u64) (b mod 64)"
        using vm 1 by (simp add: bit_simps mask_eq_exp_minus_1 [symmetric])
      moreover have "start mod 64 \<noteq> 0" using False by simp
      then have "first_set_in_word m k (start div 64)
          ((push_bit (start mod 64) 1 - 1) AND valid_mask (blocks_of n k) (start div 64)) = None"
        using parts by (simp only: if_True not_False_eq_True)
      ultimately show False
        using first_set_in_word_None [OF ok k w(2) _ _ _, of _ "b mod 64"] b(2) unfolding 1 by simp
    qed
  next
    case 2
    then show False using scan_words_None [OF ok k conjunct1 [OF conjunct2 [OF parts]] _ w(1)] w(1) b by simp
  next
    case 3
    then show False using scan_words_None [OF ok k conjunct1 [OF conjunct2 [OF conjunct2 [OF parts]]] _ w(1)] b
      by simp
  qed
qed

text \<open>The search finds a block of the order exactly when the order has one.\<close>

lemma find_first_Some:
  assumes "fm_ok n m" "k < ORDER_COUNT" "find_first m k = Some b"
  shows "\<exists>s. b = the_bit n (k, s) \<and> (k, s) \<in> free_blocks m"
proof -
  let ?start = "min (fm_search_cursor m ! k) (blocks_of n k - 1)"
  have nz: "fm_block_count m ! k \<noteq> 0"
  proof
    assume "fm_block_count m ! k = 0"
    with find_first_eq(1) [OF assms(1,2)] assms(3) show False by simp
  qed
  then have "?start < blocks_of n k" using find_first_eq(2) [OF assms(1,2)] by simp
  moreover have "cursor_search m k (blocks_of n k) (words_of n k) ?start = Some b"
    using find_first_eq(1) [OF assms(1,2)] nz assms(3) by simp
  ultimately show ?thesis by (rule cursor_search_Some [OF assms(1,2)])
qed

lemma find_first_finds:
  assumes "fm_ok n m" "k < ORDER_COUNT" "fm_block_count m ! k \<noteq> 0"
  shows "\<exists>s. find_first m k = Some (the_bit n (k, s)) \<and> (k, s) \<in> free_blocks m"
proof -
  have "{s. (k, s) \<in> free_blocks m} \<noteq> {}" using assms by (metis card.empty fm_ok_def)
  then obtain s where "(k, s) \<in> free_blocks m" by blast
  then have "find_first m k \<noteq> None"
    using find_first_eq [OF assms(1,2)] cursor_search_finds [OF assms(1,2) _] assms(3) by simp
  then show ?thesis using find_first_Some [OF assms(1,2)] by auto
qed

lemma block_count_0:
  assumes "fm_ok n m" "k < ORDER_COUNT"
  shows "fm_block_count m ! k = 0 \<longleftrightarrow> (\<forall>s. (k, s) \<notin> free_blocks m)"
  using assms finite_order_blocks [OF fm_ok_shape [OF assms(1)], of k] by (auto simp: fm_ok_def)

section \<open>Population counts\<close>

lemma count_ones_card: "count_ones w = card {j. j < 64 \<and> bit w j}"
proof -
  have "count_ones w = card (set (filter (bit w) [0 ..< 64]))"
    unfolding count_ones_def by (rule distinct_card [symmetric]) simp
  also have "set (filter (bit w) [0 ..< 64]) = {j. j < 64 \<and> bit w j}" by auto
  finally show ?thesis .
qed

lemma card_by_words: "card {b. b < 64 * (w :: nat) \<and> P b} = (\<Sum>i<w. card {j. j < 64 \<and> P (64 * i + j)})"
proof (induction w)
  case (Suc w)
  let ?lo = "{b. b < 64 * w \<and> P b}" and ?hi = "(\<lambda>j. 64 * w + j) ` {j. j < 64 \<and> P (64 * w + j)}"
  have "{b. b < 64 * Suc w \<and> P b} = ?lo \<union> ?hi"
  proof (intro set_eqI iffI)
    fix b assume "b \<in> {b. b < 64 * Suc w \<and> P b}"
    then show "b \<in> ?lo \<union> ?hi"
      by (cases "b < 64 * w") (auto intro!: image_eqI [of _ _ "b - 64 * w"])
  qed auto
  moreover have "card (?lo \<union> ?hi) = card ?lo + card ?hi" by (rule card_Un_disjoint) auto
  moreover have "card ?hi = card {j. j < 64 \<and> P (64 * w + j)}" by (rule card_image) (simp add: inj_on_def)
  ultimately show ?case using Suc by simp
qed simp

lemma order_blocks_card:
  assumes "fm_ok n m" "k < ORDER_COUNT"
  shows "card {s. (k, s) \<in> free_blocks m} = (\<Sum>i<words_of n k. count_ones (fm_words m ! (base_of n k + i)))"
proof -
  have sh: "fm_shape n m" using assms(1) by (rule fm_ok_shape)
  let ?P = "\<lambda>b. word_bit n m k (b div 64) (b mod 64)"
  have "{s. (k, s) \<in> free_blocks m} = (\<lambda>b. b * 2 ^ k) ` {b. b < blocks_of n k \<and> ?P b}"
    using block_ok_no [of n k] block_no_ok [OF assms(2)]
    by (auto simp: free_blocks_iff [OF sh] intro!: image_eqI [of _ _ "_ div 2 ^ k"])
  then have "card {s. (k, s) \<in> free_blocks m} = card {b. b < blocks_of n k \<and> ?P b}"
    by (simp add: card_image inj_on_def)
  also have "{b. b < blocks_of n k \<and> ?P b} = {b. b < 64 * words_of n k \<and> ?P b}"
  proof (intro set_eqI iffI)
    fix b assume b: "b \<in> {b. b < blocks_of n k \<and> ?P b}"
    then have "b div 64 < words_of n k" using words_of_block by simp
    then have "b < 64 * words_of n k" by (simp add: div_less_iff_less_mult mult.commute)
    with b show "b \<in> {b. b < 64 * words_of n k \<and> ?P b}" by simp
  next
    fix b assume b: "b \<in> {b. b < 64 * words_of n k \<and> ?P b}"
    then have "b div 64 < words_of n k" by (simp add: div_less_iff_less_mult mult.commute)
    with b have "64 * (b div 64) + b mod 64 < blocks_of n k"
      using assms unfolding fm_ok_def by (metis (mono_tags, lifting) mem_Collect_eq mod_less_divisor zero_less_numeral)
    with b show "b \<in> {b. b < blocks_of n k \<and> ?P b}" by simp
  qed
  also have "card \<dots> = (\<Sum>i<words_of n k. card {j. j < 64 \<and> ?P (64 * i + j)})" by (rule card_by_words)
  also have "\<dots> = (\<Sum>i<words_of n k. count_ones (fm_words m ! (base_of n k + i)))"
    by (rule sum.cong) (auto simp: count_ones_card word_bit_def intro!: arg_cong [of _ _ card])
  finally show ?thesis .
qed

lemma count_actual_eq:
  assumes "fm_ok n m" "k < ORDER_COUNT"
  shows "count_actual m k = Some (Some (fm_block_count m ! k))"
proof -
  have sh: "fm_shape n m" using assms(1) by (rule fm_ok_shape)
  note nth = fm_shape_nth [OF sh]
  have le: "base_of n (Suc k) \<le> length (fm_words m)"
    using base_of_mono [of "Suc k" ORDER_COUNT n] nth(3) assms(2) by simp
  have "sum_list (map count_ones (take (words_of n k) (drop (base_of n k) (fm_words m))))
      = (\<Sum>i<words_of n k. count_ones (fm_words m ! (base_of n k + i)))"
    using le by (simp add: sum_list_sum_nth base_of_Suc atLeast0LessThan)
  with assms nth le order_blocks_card [OF assms] show ?thesis
    by (simp add: count_actual_def Let_def base_of_Suc fm_ok_def)
qed

section \<open>The empty index and loops of commits\<close>

lemma from_storage_ok:
  assumes "n \<le> region_limit" "layout_ok n ly" "ws = replicate (ly_total_words ly) 0"
  shows "\<exists>m. from_storage ly ws = Ok m \<and> fm_ok n m \<and> free_blocks m = {}"
proof -
  obtain m where m: "from_storage ly ws = Ok m" "fm_words m = ws" "fm_shape n m"
      "fm_block_count m = replicate ORDER_COUNT 0"
    using assms by (simp add: from_storage_def fm_shape_def layout_ok_def)
  have "\<not> word_bit n m k i j" if "k < ORDER_COUNT" "i < words_of n k" for k i j
    using word_index_less(2) [OF that(2,1)] assms(2,3) m(2) by (simp add: word_bit_def layout_ok_def)
  moreover from this have "free_blocks m = {}"
    using words_of_block by (auto simp: free_blocks_iff [OF m(3)] block_ok_iff)
  ultimately have "fm_ok n m" using m(3,4) by (simp add: fm_ok_def)
  with m(1) \<open>free_blocks m = {}\<close> show ?thesis by blast
qed

text \<open>A Rust \<open>for\<close> loop whose body may panic.\<close>

fun for_each :: "('m \<Rightarrow> 'b \<Rightarrow> 'm option) \<Rightarrow> 'b list \<Rightarrow> 'm \<Rightarrow> 'm option" where
  "for_each f [] m = Some m"
| "for_each f (b # bs) m = Option.bind (f m b) (for_each f bs)"

lemma for_each_map: "for_each f (map g bs) m = for_each (\<lambda>m b. f m (g b)) bs m"
  by (induction bs arbitrary: m) (auto intro!: arg_cong [of _ _ "Option.bind _"])

text \<open>
  What the allocator asks of its index: one commit toggles the membership of one admissible block
  and cannot fail when the block is on the other side. The laws are enough for the loops that
  commit a whole preflighted transaction.
\<close>

locale free_index =
  fixes inv :: "'m \<Rightarrow> bool"
    and content :: "'m \<Rightarrow> 'b set"
    and admissible :: "'b \<Rightarrow> bool"
    and put :: "'m \<Rightarrow> 'b \<Rightarrow> bool \<Rightarrow> 'm option"
  assumes put_ok: "inv m \<Longrightarrow> admissible b \<Longrightarrow> (b \<in> content m) = (\<not> v)
    \<Longrightarrow> runs (put m b v) (\<lambda>m'. inv m'
      \<and> content m' = (if v then insert b (content m) else content m - {b}))"
begin

lemma put_all:
  assumes "inv m" "distinct bs" "\<And>b. b \<in> set bs \<Longrightarrow> admissible b"
    and "\<And>b. b \<in> set bs \<Longrightarrow> (b \<in> content m) = (\<not> v)"
  shows "runs (for_each (\<lambda>m b. put m b v) bs m) (\<lambda>m'. inv m'
    \<and> content m' = (if v then content m \<union> set bs else content m - set bs))"
  using assms
proof (induction bs arbitrary: m)
  case (Cons b bs)
  have "runs (put m b v) (\<lambda>m'. inv m'
      \<and> content m' = (if v then insert b (content m) else content m - {b}))"
    by (rule put_ok) (use Cons.prems in auto)
  then have "runs (put m b v) (\<lambda>m1. runs (for_each (\<lambda>m b. put m b v) bs m1) (\<lambda>m'. inv m'
      \<and> content m' = (if v then content m \<union> set (b # bs) else content m - set (b # bs))))"
  proof (rule runs_mono, elim conjE)
    fix m1 assume m1: "inv m1" "content m1 = (if v then insert b (content m) else content m - {b})"
    have "runs (for_each (\<lambda>m b. put m b v) bs m1) (\<lambda>m'. inv m'
        \<and> content m' = (if v then content m1 \<union> set bs else content m1 - set bs))"
      by (rule Cons.IH) (use Cons.prems m1 in auto)
    then show "runs (for_each (\<lambda>m b. put m b v) bs m1) (\<lambda>m'. inv m'
        \<and> content m' = (if v then content m \<union> set (b # bs) else content m - set (b # bs)))"
      by (rule runs_mono) (use m1(2) in auto)
  qed
  then show ?case by simp
qed auto

end

interpretation fx: free_index "fm_ok n" free_blocks "block_ok n" "\<lambda>m b. commit_set m (the_bit n b)" for n
  by unfold_locales (rule commit_set_ok)

end
