(* ===== verification/BuddyAllocator.thy ===== *)
theory BuddyAllocator
  imports BuddyMap
begin

text \<open>
  The buddy allocator proper (\<open>BuddyAllocator\<close> in \<open>src/kernel/mm/buddy_allocator.rs\<close>):
  per-page ownership states, allocation with splitting and deallocation with coalescing. Both
  operations are transactions: they check every bit, state and counter they are about to change,
  poison the allocator when a check contradicts the metadata, and only then commit. A result of
  \<open>None\<close> is a panic (an index out of range, a counter that wraps). The checks of physical
  addresses belong to the \<open>x86_64\<close> crate; they are the parameter \<open>phys_env\<close>, with its
  documentation as \<open>phys_doc\<close>. Page counts and indices are \<open>usize\<close>; the fixed arrays
  \<open>split_bits\<close>, \<open>merge_bits\<close> and \<open>allowed\<close>, of one entry per order, are the lists of their
  occupied entries.

  The invariant \<open>buddy_ok\<close> says that the index and the page states tell the same story: the free
  blocks tile the free pages with no two free buddies, the allocated blocks tile the pages marked
  allocated, and the counters count. On states that satisfy it both operations are proved to do
  what their specification says, and never to reach one of the poisoning branches.
\<close>

section \<open>Data\<close>

definition PAGE_FREE :: u8 where "PAGE_FREE = 0"
definition PAGE_ALLOC_START_BASE :: u8 where "PAGE_ALLOC_START_BASE = 1"
definition PAGE_ALLOC_TAIL_BASE :: u8 where "PAGE_ALLOC_TAIL_BASE = 0x40"
definition PAGE_RESERVED :: u8 where "PAGE_RESERVED = 255"

definition allocation_start_state :: "usize \<Rightarrow> u8 option" where
  "allocation_start_state order =
    (if order < ORDER_COUNT then Some (PAGE_ALLOC_START_BASE + word_of_nat order) else None)"

definition allocation_tail_state :: "usize \<Rightarrow> u8 option" where
  "allocation_tail_state order =
    (if order < ORDER_COUNT then Some (PAGE_ALLOC_TAIL_BASE + word_of_nat order) else None)"

definition decode_allocation_start :: "u8 \<Rightarrow> usize option" where
  "decode_allocation_start state =
    Option.bind (checked_sub_word state PAGE_ALLOC_START_BASE) (\<lambda>d.
      if unat d < ORDER_COUNT then Some (unat d) else None)"

definition decode_allocation_tail :: "u8 \<Rightarrow> usize option" where
  "decode_allocation_tail state =
    Option.bind (checked_sub_word state PAGE_ALLOC_TAIL_BASE) (\<lambda>d.
      if unat d < ORDER_COUNT then Some (unat d) else None)"

datatype alloc_error = AllocInvalidOrder | AllocExhausted | AllocAllocatorUnavailable
  | AllocAddressOverflow | AllocMetadataCorrupt | AllocAllocatorPoisoned

datatype free_error = FreeInvalidCount | FreeOrderTooLarge | FreeAllocatorUnavailable
  | FreeAddressBelowBase | FreeAddressMisaligned | FreeRangeOutOfBounds | FreeNotAllocationStart
  | FreeOrderMismatch | FreePageNotAllocated | FreeReservedPage | FreeMetadataCorrupt
  | FreeAllocatorPoisoned

definition is_metadata_corruption :: "free_error \<Rightarrow> bool" where
  "is_metadata_corruption e \<longleftrightarrow> e = FreeMetadataCorrupt \<or> e = FreeAllocatorPoisoned"

record buddy =
  ba_free_map :: fixed_free_map
  ba_page_state :: "u8 list"
  ba_base_addr :: u64
  ba_total_pages :: usize
  ba_free_pages :: usize
  ba_reserved_pages :: usize
  ba_poisoned :: bool

record phys_env =
  phys_addr_valid :: "u64 \<Rightarrow> bool"
  frame_start_valid :: "u64 \<Rightarrow> bool"

definition phys_doc :: "phys_env \<Rightarrow> bool" where
  "phys_doc env \<longleftrightarrow> (\<forall>a. phys_addr_valid env a = (unat a < 2 ^ 52))
    \<and> (\<forall>a. frame_start_valid env a = (unat a mod 4096 = 0))"

section \<open>Checks on a range of pages\<close>

definition range_is_free :: "buddy \<Rightarrow> usize \<Rightarrow> usize \<Rightarrow> bool" where
  "range_is_free A start_idx pages =
    (case checked_add_usize start_idx pages of
       None \<Rightarrow> False
     | Some end_idx \<Rightarrow> end_idx \<le> length (ba_page_state A)
         \<and> list_all (\<lambda>st. st = PAGE_FREE) (take (end_idx - start_idx) (drop start_idx (ba_page_state A))))"

definition bit_is_allowed :: "free_bit \<Rightarrow> free_bit list \<Rightarrow> bool" where
  "bit_is_allowed b allowed =
    list_ex (\<lambda>c. fb_order c = fb_order b \<and> fb_block_idx c = fb_block_idx b) allowed"

definition has_unexpected_free_overlap :: "buddy \<Rightarrow> usize \<Rightarrow> usize \<Rightarrow> free_bit list \<Rightarrow> bool" where
  "has_unexpected_free_overlap A start_idx pages allowed =
    (case checked_add_usize start_idx pages of
       None \<Rightarrow> True
     | Some end_idx \<Rightarrow>
         if pages = 0 \<or> end_idx > ba_total_pages A then True
         else list_ex (\<lambda>order.
           let block_pages = 2 ^ order;
               first = start_idx div block_pages;
               last_no = (end_idx - 1) div block_pages
           in list_ex (\<lambda>block_no.
             case checked_mul_usize block_no block_pages of
               None \<Rightarrow> True
             | Some block_idx \<Rightarrow>
                 (case location (ba_free_map A) order block_idx of
                    None \<Rightarrow> False
                  | Some b \<Rightarrow> is_set (ba_free_map A) b \<and> \<not> bit_is_allowed b allowed))
             [first ..< last_no + 1]) [0 ..< ORDER_COUNT])"

text \<open>\<open>self.page_state[index] = state\<close>, which panics outside the array.\<close>

definition store_state :: "u8 \<Rightarrow> u8 list \<Rightarrow> usize \<Rightarrow> u8 list option" where
  "store_state st ps i = (if i < length ps then Some (ps[i := st]) else None)"

section \<open>Allocation\<close>

text \<open>
  The search over the orders: \<open>Err\<close> is an order whose recorded population is not zero although
  its bitmap has no block.
\<close>

fun find_source :: "fixed_free_map \<Rightarrow> usize list \<Rightarrow> unit + free_bit option" where
  "find_source m [] = Ok None"
| "find_source m (current_order # orders) =
    (let recorded = (case count_for_order m current_order of None \<Rightarrow> 0 | Some c \<Rightarrow> c) in
     if recorded = 0 then find_source m orders
     else case find_first m current_order of None \<Rightarrow> Err () | Some b \<Rightarrow> Ok (Some b))"

text \<open>
  The split preflight, from the source order down to the requested one. An error carries whether
  the branch poisons the allocator.
\<close>

fun split_loop ::
    "fixed_free_map \<Rightarrow> usize \<Rightarrow> usize \<Rightarrow> usize \<Rightarrow> free_bit list \<Rightarrow> bool + free_bit list" where
  "split_loop m block_idx order 0 bits = Ok bits"
| "split_loop m block_idx order (Suc c) bits =
    (if Suc c > order then
       (case checked_add_usize block_idx (2 ^ c) of
          None \<Rightarrow> Err False
        | Some buddy_idx \<Rightarrow>
            (case location m c buddy_idx of
               None \<Rightarrow> Err False
             | Some b \<Rightarrow>
                 if is_set m b \<or> fm_block_count m ! c = usize_max then Err True
                 else split_loop m block_idx order c (bits @ [b])))
     else Ok bits)"

definition alloc_fail :: "buddy \<Rightarrow> alloc_error \<Rightarrow> (buddy \<times> (alloc_error + u64)) option" where
  "alloc_fail A e = Some (A, Err e)"

definition alloc_poison :: "buddy \<Rightarrow> (buddy \<times> (alloc_error + u64)) option" where
  "alloc_poison A = Some (A\<lparr>ba_poisoned := True\<rparr>, Err AllocMetadataCorrupt)"

definition alloc_frame :: "phys_env \<Rightarrow> buddy \<Rightarrow> usize \<Rightarrow> u64 option" where
  "alloc_frame env A block_idx =
    Option.bind (checked_mul_usize block_idx PAGE_SIZE) (\<lambda>byte_offset.
    Option.bind (checked_add_word (ba_base_addr A) (word_of_nat byte_offset)) (\<lambda>phys.
    if phys_addr_valid env phys \<and> frame_start_valid env phys then Some phys else None))"

text \<open>The commit phase: the bitmap first, then the page states, then the counter.\<close>

definition alloc_commit ::
    "buddy \<Rightarrow> usize \<Rightarrow> free_bit \<Rightarrow> free_bit list \<Rightarrow> usize \<Rightarrow> u64 \<Rightarrow> (buddy \<times> (alloc_error + u64)) option" where
  "alloc_commit A order source split_bits new_free_pages frame =
    Option.bind (commit_set (ba_free_map A) source False) (\<lambda>m1.
    Option.bind (for_each (\<lambda>m b. commit_set m b True) split_bits m1) (\<lambda>m2.
    let A2 = A\<lparr>ba_free_map := m2\<rparr> in
    case allocation_start_state order of
      None \<Rightarrow> alloc_fail A2 AllocInvalidOrder
    | Some start_state \<Rightarrow>
       (case allocation_tail_state order of
          None \<Rightarrow> alloc_fail A2 AllocInvalidOrder
        | Some tail_state \<Rightarrow>
            let s = fb_block_idx source in
            Option.bind (store_state start_state (ba_page_state A) s) (\<lambda>ps1.
            Option.bind (for_each (store_state tail_state) [s + 1 ..< s + 2 ^ order] ps1) (\<lambda>ps2.
            Some (A2\<lparr>ba_page_state := ps2, ba_free_pages := new_free_pages\<rparr>, Ok frame))))))"

definition alloc_from_source ::
    "phys_env \<Rightarrow> buddy \<Rightarrow> usize \<Rightarrow> free_bit \<Rightarrow> (buddy \<times> (alloc_error + u64)) option" where
  "alloc_from_source env A order source =
    (if \<not> range_is_free A (fb_block_idx source) (2 ^ fb_order source) then alloc_poison A
     else if has_unexpected_free_overlap A (fb_block_idx source) (2 ^ fb_order source) [source]
     then alloc_poison A
     else case checked_sub_usize (ba_free_pages A) (2 ^ order) of
       None \<Rightarrow> alloc_poison A
     | Some new_free_pages \<Rightarrow>
        (case alloc_frame env A (fb_block_idx source) of
           None \<Rightarrow> alloc_fail A AllocAddressOverflow
         | Some frame \<Rightarrow>
            (case split_loop (ba_free_map A) (fb_block_idx source) order (fb_order source) [] of
               Inl poisons \<Rightarrow> if poisons then alloc_poison A else alloc_fail A AllocMetadataCorrupt
             | Inr split_bits \<Rightarrow>
                if fm_block_count (ba_free_map A) ! fb_order source = 0 then alloc_poison A
                else alloc_commit A order source split_bits new_free_pages frame)))"

definition try_alloc_pages :: "phys_env \<Rightarrow> buddy \<Rightarrow> usize \<Rightarrow> (buddy \<times> (alloc_error + u64)) option" where
  "try_alloc_pages env A order =
    (if ba_poisoned A then alloc_fail A AllocAllocatorPoisoned
     else if order \<ge> ORDER_COUNT then alloc_fail A AllocInvalidOrder
     else case find_source (ba_free_map A) [order ..< ORDER_COUNT] of
       Inl _ \<Rightarrow> alloc_poison A
     | Inr None \<Rightarrow> alloc_fail A AllocExhausted
     | Inr (Some source) \<Rightarrow> alloc_from_source env A order source)"

definition alloc_pages :: "phys_env \<Rightarrow> buddy \<Rightarrow> usize \<Rightarrow> (buddy \<times> u64 option) option" where
  "alloc_pages env A order =
    map_option (\<lambda>(A', r). (A', case r of Inl _ \<Rightarrow> None | Inr frame \<Rightarrow> Some frame)) (try_alloc_pages env A order)"

section \<open>Deallocation\<close>

text \<open>The merge preflight; \<open>Err\<close> is a contradiction, which poisons the allocator.\<close>

function merge_loop ::
    "buddy \<Rightarrow> free_bit list \<Rightarrow> usize \<Rightarrow> usize \<Rightarrow> unit + (free_bit list \<times> usize \<times> usize)" where
  "merge_loop A bits merged_start final_order =
    (if final_order < ORDER_COUNT - 1 then
       let buddy_pages = 2 ^ final_order;
           buddy_idx = merged_start XOR buddy_pages
       in if (case checked_add_usize buddy_idx buddy_pages of
                None \<Rightarrow> True | Some end_idx \<Rightarrow> end_idx > ba_total_pages A)
          then Ok (bits, merged_start, final_order)
          else case location (ba_free_map A) final_order buddy_idx of
            None \<Rightarrow> Err ()
          | Some b \<Rightarrow>
              if is_set (ba_free_map A) b then
                (if \<not> range_is_free A buddy_idx buddy_pages
                   \<or> fm_block_count (ba_free_map A) ! final_order = 0
                 then Err ()
                 else merge_loop A (bits @ [b]) (min merged_start buddy_idx) (final_order + 1))
              else if range_is_free A buddy_idx buddy_pages then Err ()
              else Ok (bits, merged_start, final_order)
     else Ok (bits, merged_start, final_order))"
  by pat_completeness auto
termination by (relation "measure (\<lambda>(A, bits, s, k). ORDER_COUNT - k)") auto

declare merge_loop.simps [simp del]

definition free_fail :: "buddy \<Rightarrow> free_error \<Rightarrow> (buddy \<times> (free_error + unit)) option" where
  "free_fail A e = Some (A, Err e)"

definition free_poison :: "buddy \<Rightarrow> (buddy \<times> (free_error + unit)) option" where
  "free_poison A = Some (A\<lparr>ba_poisoned := True\<rparr>, Err FreeMetadataCorrupt)"

definition free_commit ::
    "buddy \<Rightarrow> usize \<Rightarrow> usize \<Rightarrow> free_bit list \<Rightarrow> free_bit \<Rightarrow> usize \<Rightarrow> (buddy \<times> (free_error + unit)) option" where
  "free_commit A block_idx pages merge_bits final_bit new_free_pages =
    Option.bind (for_each (\<lambda>m b. commit_set m b False) merge_bits (ba_free_map A)) (\<lambda>m1.
    Option.bind (for_each (store_state PAGE_FREE) [block_idx ..< block_idx + pages] (ba_page_state A)) (\<lambda>ps.
    Option.bind (commit_set m1 final_bit True) (\<lambda>m2.
    Some (A\<lparr>ba_free_map := m2, ba_page_state := ps, ba_free_pages := new_free_pages\<rparr>, Ok ()))))"

definition free_block :: "buddy \<Rightarrow> usize \<Rightarrow> usize \<Rightarrow> (buddy \<times> (free_error + unit)) option" where
  "free_block A block_idx order =
    (case merge_loop A [] block_idx order of
       Inl _ \<Rightarrow> free_poison A
     | Inr (merge_bits, merged_start, final_order) \<Rightarrow>
        if has_unexpected_free_overlap A merged_start (2 ^ final_order) merge_bits then free_poison A
        else case location (ba_free_map A) final_order merged_start of
          None \<Rightarrow> free_poison A
        | Some final_bit \<Rightarrow>
            if is_set (ba_free_map A) final_bit \<or> fm_block_count (ba_free_map A) ! final_order = usize_max
            then free_poison A
            else case checked_add_usize (ba_free_pages A) (2 ^ order) of
              None \<Rightarrow> free_poison A
            | Some new_free_pages \<Rightarrow>
                if new_free_pages > ba_total_pages A - ba_reserved_pages A then free_poison A
                else free_commit A block_idx (2 ^ order) merge_bits final_bit new_free_pages)"

definition check_free_block :: "buddy \<Rightarrow> usize \<Rightarrow> usize \<Rightarrow> (buddy \<times> (free_error + unit)) option" where
  "check_free_block A block_idx order =
    (case list_get (ba_page_state A) block_idx of
       None \<Rightarrow> free_fail A FreeRangeOutOfBounds
     | Some start_state \<Rightarrow>
        if start_state = PAGE_RESERVED then free_fail A FreeReservedPage
        else if start_state = PAGE_FREE \<or> decode_allocation_tail start_state \<noteq> None
        then free_fail A FreeNotAllocationStart
        else case decode_allocation_start start_state of
          None \<Rightarrow> free_fail A FreeNotAllocationStart
        | Some recorded_order \<Rightarrow>
            if recorded_order \<noteq> order then free_fail A FreeOrderMismatch
            else case allocation_tail_state order of
              None \<Rightarrow> free_fail A FreeOrderTooLarge
            | Some expected_tail \<Rightarrow>
                if list_ex (\<lambda>i. list_get (ba_page_state A) i \<noteq> Some expected_tail)
                     [block_idx + 1 ..< block_idx + 2 ^ order]
                then free_poison A
                else if has_unexpected_free_overlap A block_idx (2 ^ order) [] then free_poison A
                else free_block A block_idx order)"

definition try_free_pages :: "buddy \<Rightarrow> u64 \<Rightarrow> usize \<Rightarrow> (buddy \<times> (free_error + unit)) option" where
  "try_free_pages A addr order =
    (if ba_poisoned A then free_fail A FreeAllocatorPoisoned
     else if order \<ge> ORDER_COUNT then free_fail A FreeOrderTooLarge
     else if addr < ba_base_addr A then free_fail A FreeAddressBelowBase
     else let offset = unat (addr - ba_base_addr A) in
       if offset mod PAGE_SIZE \<noteq> 0 then free_fail A FreeAddressMisaligned
       else let block_idx = offset div PAGE_SIZE; pages = 2 ^ order in
         if block_idx AND (pages - 1) \<noteq> 0 then free_fail A FreeAddressMisaligned
         else if (case checked_add_usize block_idx pages of
                    None \<Rightarrow> True | Some end_idx \<Rightarrow> end_idx > ba_total_pages A)
         then free_fail A FreeRangeOutOfBounds
         else check_free_block A block_idx order)"

definition quarantine :: "buddy \<times> (free_error + unit) \<Rightarrow> buddy" where
  "quarantine r = (case r of
     (A, Inl e) \<Rightarrow> if is_metadata_corruption e then A\<lparr>ba_poisoned := True\<rparr> else A
   | (A, Inr _) \<Rightarrow> A)"

definition free_pages :: "buddy \<Rightarrow> u64 \<Rightarrow> usize \<Rightarrow> buddy option" where
  "free_pages A addr order = map_option quarantine (try_free_pages A addr order)"

section \<open>Page states\<close>

definition start_code :: "nat \<Rightarrow> u8" where
  "start_code k = PAGE_ALLOC_START_BASE + word_of_nat k"

definition tail_code :: "nat \<Rightarrow> u8" where
  "tail_code k = PAGE_ALLOC_TAIL_BASE + word_of_nat k"

lemma order_cases:
  assumes "k < ORDER_COUNT"
  shows "k \<in> {0, 1, 2, 3, 4, 5, 6, 7, 8, 9, 10}"
  using assms unfolding ORDER_COUNT_def by simp presburger

lemma unat_codes:
  assumes "k < ORDER_COUNT"
  shows "unat (start_code k) = 1 + k" "unat (tail_code k) = 64 + k"
  using order_cases [OF assms]
  by (auto simp: start_code_def tail_code_def PAGE_ALLOC_START_BASE_def PAGE_ALLOC_TAIL_BASE_def)

lemma unat_consts: "unat PAGE_FREE = 0" "unat PAGE_RESERVED = 255"
  "unat PAGE_ALLOC_START_BASE = 1" "unat PAGE_ALLOC_TAIL_BASE = 64"
  by (simp_all add: PAGE_FREE_def PAGE_RESERVED_def PAGE_ALLOC_START_BASE_def PAGE_ALLOC_TAIL_BASE_def)

lemma code_distinct [simp]:
  assumes "k < ORDER_COUNT"
  shows "start_code k \<noteq> PAGE_FREE" "start_code k \<noteq> PAGE_RESERVED"
    "tail_code k \<noteq> PAGE_FREE" "tail_code k \<noteq> PAGE_RESERVED"
  using unat_codes [OF assms] unat_consts assms by (auto simp: ORDER_COUNT_def)

lemma code_inj:
  assumes "k < ORDER_COUNT" "l < ORDER_COUNT"
  shows "start_code k = start_code l \<longleftrightarrow> k = l" "tail_code k \<noteq> start_code l"
proof -
  show "start_code k = start_code l \<longleftrightarrow> k = l"
    using unat_codes(1) [OF assms(1)] unat_codes(1) [OF assms(2)] by (metis add_left_cancel)
  have "64 + k \<noteq> 1 + l" using assms(2) by (simp add: ORDER_COUNT_def)
  then show "tail_code k \<noteq> start_code l"
    using unat_codes(2) [OF assms(1)] unat_codes(1) [OF assms(2)] by metis
qed

lemma free_not_reserved [simp]: "PAGE_FREE \<noteq> PAGE_RESERVED"
  by (simp add: PAGE_FREE_def PAGE_RESERVED_def)

lemma start_state_code: "k < ORDER_COUNT \<Longrightarrow> allocation_start_state k = Some (start_code k)"
  and tail_state_code: "k < ORDER_COUNT \<Longrightarrow> allocation_tail_state k = Some (tail_code k)"
  by (simp_all add: allocation_start_state_def allocation_tail_state_def start_code_def tail_code_def)

text \<open>The decoders read exactly the states the encoders write.\<close>

lemma decode_start_iff:
  "decode_allocation_start st = Some k \<longleftrightarrow> k < ORDER_COUNT \<and> st = start_code k"
proof
  assume "decode_allocation_start st = Some k"
  then obtain d :: u8 where d: "unat st = unat d + 1" "unat d = k" "k < ORDER_COUNT"
    by (auto simp: decode_allocation_start_def checked unat_consts bind_eq_Some_conv split: if_splits)
  then have "unat st = unat (start_code k)" using unat_codes [OF d(3)] by simp
  with d show "k < ORDER_COUNT \<and> st = start_code k" by (simp add: word_unat_eq_iff)
next
  assume *: "k < ORDER_COUNT \<and> st = start_code k"
  have "checked_sub_word st PAGE_ALLOC_START_BASE = Some (word_of_nat k)"
    using * unat_codes by (simp add: checked unat_consts unat_of_nat ORDER_COUNT_def take_bit_nat_eq_self)
  then show "decode_allocation_start st = Some k"
    using * by (simp add: decode_allocation_start_def unat_of_nat ORDER_COUNT_def take_bit_nat_eq_self)
qed

lemma decode_tail_iff:
  "decode_allocation_tail st = Some k \<longleftrightarrow> k < ORDER_COUNT \<and> st = tail_code k"
proof
  assume "decode_allocation_tail st = Some k"
  then obtain d :: u8 where d: "unat st = unat d + 64" "unat d = k" "k < ORDER_COUNT"
    by (auto simp: decode_allocation_tail_def checked unat_consts bind_eq_Some_conv split: if_splits)
  then have "unat st = unat (tail_code k)" using unat_codes [OF d(3)] by simp
  with d show "k < ORDER_COUNT \<and> st = tail_code k" by (simp add: word_unat_eq_iff)
next
  assume *: "k < ORDER_COUNT \<and> st = tail_code k"
  have "checked_sub_word st PAGE_ALLOC_TAIL_BASE = Some (word_of_nat k)"
    using * unat_codes by (simp add: checked unat_consts unat_of_nat ORDER_COUNT_def take_bit_nat_eq_self)
  then show "decode_allocation_tail st = Some k"
    using * by (simp add: decode_allocation_tail_def unat_of_nat ORDER_COUNT_def take_bit_nat_eq_self)
qed

lemma decode_start_code: "k < ORDER_COUNT \<Longrightarrow> decode_allocation_start (start_code k) = Some k"
  by (simp add: decode_start_iff)

lemma decode_tail_start_code:
  assumes "k < ORDER_COUNT"
  shows "decode_allocation_tail (start_code k) = None"
proof (cases "decode_allocation_tail (start_code k)")
  case (Some l)
  then show ?thesis using code_inj(2) [of l k] assms by (simp add: decode_tail_iff)
qed

section \<open>The invariant\<close>

definition pages_in :: "u8 list \<Rightarrow> u8 \<Rightarrow> nat set" where
  "pages_in ps st = {p. p < length ps \<and> ps ! p = st}"

definition used_pages :: "u8 list \<Rightarrow> nat set" where
  "used_pages ps = {p. p < length ps \<and> ps ! p \<noteq> PAGE_FREE \<and> ps ! p \<noteq> PAGE_RESERVED}"

definition alloc_blocks :: "u8 list \<Rightarrow> block set" where
  "alloc_blocks ps = {(k, s). k < ORDER_COUNT \<and> s < length ps \<and> ps ! s = start_code k}"

definition states_ok :: "nat \<Rightarrow> u8 list \<Rightarrow> bool" where
  "states_ok n ps \<longleftrightarrow> length ps = n \<and> tiling n (alloc_blocks ps) (used_pages ps)
    \<and> (\<forall>(k, s)\<in>alloc_blocks ps. \<forall>q\<in>{s<..<s + 2 ^ k}. ps ! q = tail_code k)"

definition region_ok :: "buddy \<Rightarrow> bool" where
  "region_ok A \<longleftrightarrow> unat (ba_base_addr A) mod PAGE_SIZE = 0
    \<and> unat (ba_base_addr A) + ba_total_pages A * PAGE_SIZE \<le> 2 ^ 52"

definition buddy_ok :: "buddy \<Rightarrow> bool" where
  "buddy_ok A \<longleftrightarrow> region_ok A \<and> fm_ok (ba_total_pages A) (ba_free_map A)
    \<and> states_ok (ba_total_pages A) (ba_page_state A)
    \<and> tiling (ba_total_pages A) (free_blocks (ba_free_map A)) (pages_in (ba_page_state A) PAGE_FREE)
    \<and> maximal (free_blocks (ba_free_map A))
    \<and> ba_free_pages A = card (pages_in (ba_page_state A) PAGE_FREE)
    \<and> ba_reserved_pages A = card (pages_in (ba_page_state A) PAGE_RESERVED)
    \<and> \<not> ba_poisoned A"

lemma finite_pages_in [simp]: "finite (pages_in ps st)"
  by (rule finite_subset [of _ "{..<length ps}"]) (auto simp: pages_in_def)

lemma buddy_okD:
  assumes "buddy_ok A"
  shows "region_ok A" "fm_ok (ba_total_pages A) (ba_free_map A)"
    "fm_shape (ba_total_pages A) (ba_free_map A)"
    "states_ok (ba_total_pages A) (ba_page_state A)" "length (ba_page_state A) = ba_total_pages A"
    "tiling (ba_total_pages A) (free_blocks (ba_free_map A)) (pages_in (ba_page_state A) PAGE_FREE)"
    "maximal (free_blocks (ba_free_map A))" "\<not> ba_poisoned A"
    "ba_free_pages A = card (pages_in (ba_page_state A) PAGE_FREE)"
    "ba_reserved_pages A = card (pages_in (ba_page_state A) PAGE_RESERVED)"
    "ba_total_pages A \<le> region_limit"
  using assms fm_ok_shape by (auto simp: buddy_ok_def states_ok_def fm_shape_def)

lemma usize_small:
  "n \<le> region_limit \<Longrightarrow> m \<le> n \<Longrightarrow> m \<le> usize_max"
  by (simp add: region_limit_def usize_max_def)

section \<open>What the checks say\<close>

definition bit_block :: "free_bit \<Rightarrow> block" where
  "bit_block b = (fb_order b, fb_block_idx b)"

lemma bit_block_the_bit [simp]: "bit_block (the_bit n b) = b"
  by (simp add: bit_block_def the_bit_def)

lemma bit_is_allowed_iff: "bit_is_allowed b allowed \<longleftrightarrow> bit_block b \<in> bit_block ` set allowed"
  unfolding bit_is_allowed_def bit_block_def list_ex_iff image_iff by (metis prod.inject)

lemma div_range_overlap:
  fixes q :: nat
  assumes "start div 2 ^ k \<le> q" "q \<le> (end_idx - 1) div 2 ^ k" "start < end_idx"
  shows "q * 2 ^ k < end_idx" "start < q * 2 ^ k + 2 ^ k"
proof -
  have "q * 2 ^ k \<le> (end_idx - 1) div 2 ^ k * 2 ^ k" using assms(2) by (rule mult_le_mono1)
  also have "\<dots> \<le> end_idx - 1" by simp
  finally show "q * 2 ^ k < end_idx" using assms(3) by simp
  have "start < (start div 2 ^ k + 1) * 2 ^ k"
    using aligned_page [of start k] by (simp add: algebra_simps)
  also have "\<dots> \<le> (q + 1) * 2 ^ k" using assms(1) by (intro mult_le_mono1) simp
  finally show "start < q * 2 ^ k + 2 ^ k" by simp
qed

lemma overlap_page:
  assumes "q * 2 ^ k < end_idx" "start < q * 2 ^ k + 2 ^ k" "start < end_idx"
  shows "pages_of (k, q * 2 ^ k) \<inter> {start ..< end_idx} \<noteq> {}"
proof -
  have "max start (q * 2 ^ k) \<in> pages_of (k, q * 2 ^ k) \<inter> {start ..< end_idx}" using assms by auto
  then show ?thesis by blast
qed

lemma unexpected_overlap_iff:
  assumes sh: "fm_shape (ba_total_pages A) (ba_free_map A)"
    and range: "start + pages \<le> ba_total_pages A" "0 < pages"
  shows "has_unexpected_free_overlap A start pages allowed \<longleftrightarrow>
    (\<exists>b\<in>free_blocks (ba_free_map A). pages_of b \<inter> {start ..< start + pages} \<noteq> {}
      \<and> b \<notin> bit_block ` set allowed)"
proof -
  let ?n = "ba_total_pages A" and ?m = "ba_free_map A" and ?e = "start + pages"
  let ?hit = "\<lambda>k q. case checked_mul_usize q (2 ^ k) of None \<Rightarrow> True
    | Some s \<Rightarrow> (case location ?m k s of None \<Rightarrow> False
        | Some b \<Rightarrow> is_set ?m b \<and> \<not> bit_is_allowed b allowed)"
  have n: "?n \<le> region_limit" using sh by (simp add: fm_shape_def)
  have hit: "?hit k q \<longleftrightarrow> (k, q * 2 ^ k) \<in> free_blocks ?m \<and> (k, q * 2 ^ k) \<notin> bit_block ` set allowed"
    if "q * 2 ^ k < ?e" for k q
  proof -
    have "checked_mul_usize q (2 ^ k) = Some (q * 2 ^ k)"
      using usize_small [OF n, of "q * 2 ^ k"] that range by (simp add: checked_mul_usize_def)
    then show ?thesis
      using is_set_free [OF sh] free_blocks_ok [OF sh, of "(k, q * 2 ^ k)"]
      by (auto simp: location_eq [OF sh] bit_is_allowed_iff)
  qed
  have in_range: "q * 2 ^ k < ?e" if "start div 2 ^ k \<le> q" "q \<le> (?e - 1) div 2 ^ k" for k q
    using div_range_overlap(1) [OF that] range(2) by simp
  have "has_unexpected_free_overlap A start pages allowed \<longleftrightarrow>
    (\<exists>k<ORDER_COUNT. \<exists>q. start div 2 ^ k \<le> q \<and> q \<le> (?e - 1) div 2 ^ k \<and> ?hit k q)"
    using range usize_small [OF n range(1)]
    by (simp add: has_unexpected_free_overlap_def checked_add_usize_def Let_def list_ex_iff Bex_def
        less_Suc_eq_le not_less del: upt_Suc)
  also have "\<dots> \<longleftrightarrow> (\<exists>k<ORDER_COUNT. \<exists>q. start div 2 ^ k \<le> q \<and> q \<le> (?e - 1) div 2 ^ k
      \<and> (k, q * 2 ^ k) \<in> free_blocks ?m \<and> (k, q * 2 ^ k) \<notin> bit_block ` set allowed)"
    by (intro ex_cong1 conj_cong refl hit in_range)
  also have "\<dots> \<longleftrightarrow> (\<exists>b\<in>free_blocks ?m. pages_of b \<inter> {start ..< ?e} \<noteq> {} \<and> b \<notin> bit_block ` set allowed)"
  proof (intro iffI; elim exE conjE bexE)
    fix k q assume q: "start div 2 ^ k \<le> q" "q \<le> (?e - 1) div 2 ^ k"
      and f: "(k, q * 2 ^ k) \<in> free_blocks ?m" "(k, q * 2 ^ k) \<notin> bit_block ` set allowed"
    have "pages_of (k, q * 2 ^ k) \<inter> {start ..< ?e} \<noteq> {}"
      using overlap_page div_range_overlap [OF q] range(2) by simp
    with f show "\<exists>b\<in>free_blocks ?m. pages_of b \<inter> {start ..< ?e} \<noteq> {} \<and> b \<notin> bit_block ` set allowed"
      by blast
  next
    fix b assume b: "b \<in> free_blocks ?m" "pages_of b \<inter> {start ..< ?e} \<noteq> {}" "b \<notin> bit_block ` set allowed"
    obtain k s where ks: "b = (k, s)" by (cases b)
    obtain p where "p \<in> pages_of (k, s)" "p \<in> {start ..< ?e}" using b(2) ks by blast
    then have p: "p \<in> pages_of (k, s)" "start \<le> p" "p < ?e" by simp_all
    have ok: "block_ok ?n (k, s)" using free_blocks_ok [OF sh b(1)] ks by simp
    have s: "s = p div 2 ^ k * 2 ^ k" using aligned_unique [OF _ p(1)] ok by (simp add: block_ok_def)
    have "start div 2 ^ k \<le> p div 2 ^ k" "p div 2 ^ k \<le> (?e - 1) div 2 ^ k"
      using p by (auto intro!: div_le_mono)
    moreover have "k < ORDER_COUNT" using ok by (simp add: block_ok_def)
    ultimately show "\<exists>k<ORDER_COUNT. \<exists>q. start div 2 ^ k \<le> q \<and> q \<le> (?e - 1) div 2 ^ k
      \<and> (k, q * 2 ^ k) \<in> free_blocks ?m \<and> (k, q * 2 ^ k) \<notin> bit_block ` set allowed"
      using b ks s by metis
  qed
  finally show ?thesis .
qed

lemma range_is_free_iff:
  assumes "length (ba_page_state A) = n" "n \<le> region_limit" "start + pages \<le> n"
  shows "range_is_free A start pages \<longleftrightarrow> {start ..< start + pages} \<subseteq> pages_in (ba_page_state A) PAGE_FREE"
proof -
  have "range_is_free A start pages \<longleftrightarrow> (\<forall>i<pages. ba_page_state A ! (start + i) = PAGE_FREE)"
    using assms usize_small [OF assms(2,3)]
    by (auto simp: range_is_free_def checked_add_usize_def list_all_length)
  also have "\<dots> \<longleftrightarrow> (\<forall>p\<in>{start ..< start + pages}. ba_page_state A ! p = PAGE_FREE)"
    by (metis (no_types, lifting) add_less_cancel_left atLeastLessThan_iff le_add1 le_add_diff_inverse)
  also have "\<dots> \<longleftrightarrow> {start ..< start + pages} \<subseteq> pages_in (ba_page_state A) PAGE_FREE"
    using assms by (auto simp: pages_in_def)
  finally show ?thesis .
qed

end
