(* ===== verification/Spec2Isabelle.thy ===== *)
theory Spec2Isabelle
  imports CapSystem AdmittedSystem SeccompSystem BuddyAllocator
begin

text \<open>
  A verification development for the resource and confinement core of the Nilix kernel: the heap
  admission ledger every bounded allocation is paid from, the containers that allocate through it,
  the capability table built on both, the system call filters that confine a process, and the
  allocator of physical pages. Sources are named relative to \<^verbatim>\<open>src/kernel\<close>.

  \<^bold>\<open>How the parts interact.\<close> A kernel object that user space can multiply first reserves its bytes
  with the ledger (\<^verbatim>\<open>mm/heap_admission.rs\<close>), then allocates, then commits the reservation to a
  charge that lives as long as the memory. The ledger keeps one packed cell of committed and
  reserved bytes for the whole heap and one per class, and charges each reservation to a thread
  group owner and to the owner's host UID (\<^verbatim>\<open>mm/heap_budget.rs\<close>, \<^verbatim>\<open>mm/heap_uid.rs\<close>). The admitted
  containers (\<^verbatim>\<open>mm/admitted.rs\<close>, over \<^verbatim>\<open>mm/fallible_map.rs\<close>) wrap this protocol; the capability table
  (\<^verbatim>\<open>cap/lib.rs\<close>, \<^verbatim>\<open>cap/types.rs\<close>) is a client with two charged vectors. The filters
  (\<^verbatim>\<open>seccomp/types.rs\<close>, \<^verbatim>\<open>seccomp/lib.rs\<close>) decide every system call before dispatch.

  \<^bold>\<open>Theories.\<close>

  \<^item> \<open>Prelude\<close>: machine types, results (\<open>Ok\<close>, \<open>Err\<close>), total correctness (\<open>runs\<close>: the computation does
    not panic and its result satisfies the postcondition) and generic lemmas.
  \<^item> \<open>HeapCells\<close>, \<open>HeapDomains\<close>, \<open>HeapLedger\<close>: the packed cells (\<open>add_reserved\<close>, \<open>commit_reserved\<close>, ...),
    the byte budgets (\<open>NsByteBudget\<close>), the owner and UID domains, and the ledger's entry points
    (\<open>try_reserve_owned\<close>, \<open>commit\<close>, the \<open>Drop\<close> implementations, owner transfer, UID leases). The
    static atomics are the fields of one record \<open>heap_state\<close>; a panic is \<open>None\<close>.
  \<^item> \<open>HeapInvariant\<close>, \<open>HeapAccounting\<close>, \<open>HeapOwners\<close>, \<open>HeapSystem\<close>: the values the kernel holds are a
    multiset of live objects; the invariant equates every counter with a sum over it, each operation
    preserves it, and \<open>heap_reachable\<close> closes it under any sequence of calls by any holders. The
    properties: no fail-stop is reachable, the snapshots are exact, no ceiling is passed, rejection
    has no effect, and nothing leaks.
  \<^item> \<open>HeapClient\<close>: the locale \<open>heap_client\<close> is the contract a client of the ledger relies on (reserve,
    commit, release, resize, with the multiset of values held). It is interpreted on the ledger as
    \<open>ledger_client\<close>, so that every client lemma holds of the real ledger beside any other holder.
  \<^item> \<open>FallibleMap\<close>: \<open>FallibleOrderedMap\<close> with its binary search, refined to a finite map over whole
    sequences of calls, allocator failures included.
  \<^item> \<open>Admitted\<close>, \<open>AdmittedDeque\<close>, \<open>AdmittedMap\<close>, \<open>AdmittedSet\<close>, \<open>AdmittedString\<close>: the containers, each
    operation written over the heap interface, and their trace lemmas inside \<open>heap_client\<close>;
    \<open>AdmittedSystem\<close> draws the properties on the ledger itself.
  \<^item> \<open>CapTypes\<close>, \<open>CapTable\<close>, \<open>CapInvariant\<close>, \<open>CapContract\<close>, \<open>CapSystem\<close>: identifiers and entries, the table
    operations, well-formedness, the locale \<open>cap_ledger\<close> with the contract of every operation over
    the abstract table (identifier to entry), and the reachable states of the table composed with the
    ledger: permanent revocation, no escalation, fork, exec and two-phase reservation.
  \<^item> \<open>Seccomp\<close>, \<open>Pledge\<close>: filter programs (validator, interpreter, fast-allow bitmap, identity, chains)
    and the pledge layer (parser, semantic gate, generated programs), with the equality of fast path
    and interpreter, totality of validated programs and the agreement of the two encodings of a
    promise set.
  \<^item> \<open>SeccompState\<close>, \<open>SeccompSystem\<close>: installed filters over the ledger (\<open>SeccompFilter::new_from_slice\<close>, the
    charge table of \<open>SeccompArcAllocator\<close>, \<open>SeccompState::add_filter\<close>, \<open>try_clone\<close>) and the system of all
    processes' chains, with an explicit store of shared control blocks: it refines lists of programs,
    its memory is exactly accounted for and its verdicts are those of the installed programs. The
    locale \<open>heap_client_bounded\<close> adds to the ledger's contract that a class never holds more than its
    limit; it is what shows that the fixed charge table cannot run out first.
  \<^item> \<open>BuddyBlocks\<close>, \<open>BuddyMap\<close>, \<open>BuddyAllocator\<close>: the physical page allocator
    (\<^verbatim>\<open>mm/buddy_allocator.rs\<close>). \<open>BuddyBlocks\<close> is the geometry of aligned blocks and tilings, \<open>BuddyMap\<close> the
    bitmaps as an exact representation of a set of blocks (locale \<open>free_index\<close>), \<open>BuddyAllocator\<close>
    allocation with splitting and deallocation with coalescing.

  \<^bold>\<open>Modelling choices.\<close> \<open>usize\<close> is a natural number with the 64-bit bound written where the code checks
  it; register-sized and packed values are words. A compare-exchange loop on one cell is one atomic
  step: a failed exchange retries on a fresh read and has no effect, so its successful iteration is
  the step. Operations made of several atomic steps are executed as a sequence, with interference
  from other holders represented by the arbitrary values they hold between calls, not by
  interleaving inside a call. Outcomes of the global allocator, sizes of Rust types and the capacity
  the allocator grants are parameters; the hypotheses on them (\<open>grant_ok\<close>, \<open>grants_ok\<close>, \<open>allocs_ok\<close>) say what
  \<open>try_reserve_exact\<close> documents, that a successful reservation has at least the capacity asked for. No
  fuel is used: every loop of the modelled code is a terminating recursion.

  \<^bold>\<open>Not modelled.\<close> Code whose effect is on hardware or user memory (page tables, MMIO, interrupts,
  context switches, drivers, IOMMU), the process, file system, network and scheduler layers, the audit and log
  output of the modelled crates, their \<open>Display\<close> implementations and test probes, and the reference
  counting of the objects a capability names.
\<close>

end
